(* ===== verification/Prelude.thy ===== *)
theory Prelude imports Main "HOL-Library.Word" "HOL-Library.List_Lexorder" "HOL-Library.Char_ord"
begin

text \<open>
  Shared vocabulary of the development.  Go's \<open>uint64\<close> is a 64 bit word (so \<open>+\<close> and
  \<open>-\<close> wrap as they do in Go), Go's \<open>int64\<close> is the integer that \<open>sint\<close> reads from such a
  word, a Go \<open>string\<close> or \<open>[]byte\<close> is a list of 8 bit characters, a Go \<open>error\<close> is a value of
  the datatype below and a fallible call returns \<open>error + 'a\<close> with \<open>Inl\<close> for the error.
  The theory also holds the generic facts about words, lists and ordered association lists that
  the components share.
\<close>

named_theorems view_simps \<open>views of the tables after an effect on them\<close>

type_synonym u64 = "64 word"
type_synonym bytes = string
type_synonym duration = int

text \<open>
  Errors.  \<open>SqlError\<close> is an error the SQLite driver reports, \<open>ErrNoRows\<close> is
  \<open>sql.ErrNoRows\<close>, \<open>ErrorNew\<close> is \<open>errors.New\<close> or \<open>fmt.Errorf\<close> without a wrapped error
  and \<open>Errorf\<close> is \<open>fmt.Errorf\<close> with \<open>%w\<close>.  The format string identifies the message;
  the values printed into it are never read back by the program and are left out.
\<close>

datatype error =
    SqlError string
  | ErrNoRows
  | ErrorNew string
  | Errorf string error

section \<open>Casts between uint64 and int64\<close>

definition int64 :: "u64 \<Rightarrow> int" where
  "int64 w = sint w"

definition uint64 :: "int \<Rightarrow> u64" where
  "uint64 i = word_of_int i"

text \<open>The largest value on which the signed and the unsigned reading agree.\<close>

definition max_int64 :: u64 where
  "max_int64 = 0x7FFFFFFFFFFFFFFF"

lemma uint64_int64 [simp]: "uint64 (int64 w) = w"
  by (simp add: uint64_def int64_def)

lemma int64_inject [simp]: "int64 a = int64 b \<longleftrightarrow> a = b"
  by (metis uint64_int64)

lemma int64_eq_uint: "w \<le> max_int64 \<Longrightarrow> int64 w = uint w"
proof -
  assume "w \<le> max_int64"
  then have "uint w \<le> 0x7FFFFFFFFFFFFFFF"
    by (simp add: max_int64_def word_le_def)
  moreover have "0 \<le> uint w" by simp
  ultimately have "- (2 ^ 63) \<le> uint w" and "uint w < 2 ^ 63"
    by (simp_all add: order_trans [of _ "0 :: int"])
  then show ?thesis
    by (simp add: int64_def sint_uint signed_take_bit_int_eq_self)
qed

lemma int64_le_iff [simp]:
  "a \<le> max_int64 \<Longrightarrow> b \<le> max_int64 \<Longrightarrow> int64 a \<le> int64 b \<longleftrightarrow> a \<le> b"
  by (simp add: int64_eq_uint word_le_def)

lemma int64_less_iff [simp]:
  "a \<le> max_int64 \<Longrightarrow> b \<le> max_int64 \<Longrightarrow> int64 a < int64 b \<longleftrightarrow> a < b"
  by (simp add: int64_eq_uint word_less_def)

lemma int64_uint64:
  assumes "0 \<le> i" and "i \<le> int64 max_int64"
  shows "int64 (uint64 i) = i"
proof -
  have "int64 max_int64 = 0x7FFFFFFFFFFFFFFF"
    by (simp add: int64_eq_uint) (simp add: max_int64_def)
  with assms have i: "0 \<le> i" "i < 2 ^ 63" "i < 2 ^ 64" by auto
  then have "uint (uint64 i) = i"
    by (simp add: uint64_def unsigned_of_int take_bit_int_eq_self)
  moreover from this i have "uint64 i \<le> max_int64"
    by (simp add: word_le_def max_int64_def)
  ultimately show ?thesis by (simp add: int64_eq_uint)
qed

section \<open>Word arithmetic without wrap-around\<close>

lemma u64_less_not_max: "(i :: u64) < j \<Longrightarrow> i \<noteq> - 1"
  using inc_le [of i j] inc_less_eq_self_iff_eq [of i] by auto

lemma u64_less_inc [simp]: "(i :: u64) \<noteq> - 1 \<Longrightarrow> i < i + 1"
  using inc_less_eq_self_iff_eq [of i] by (simp flip: linorder_not_le)

lemma u64_inc_le_iff: "(i :: u64) \<noteq> - 1 \<Longrightarrow> i + 1 \<le> j \<longleftrightarrow> i < j"
  by (simp add: inc_less_eq_iff)

lemma u64_less_inc_iff: "(j :: u64) \<noteq> - 1 \<Longrightarrow> i < j + 1 \<longleftrightarrow> i \<le> j"
  by (meson less_inc_imp_less_eq le_less_trans u64_less_inc)

lemma u64_unat_inc: "(i :: u64) \<noteq> - 1 \<Longrightarrow> unat (i + 1) = Suc (unat i)"
  by (metis add.commute add_eq_0_iff unatSuc)

lemma u64_dec_less: "(i :: u64) \<noteq> 0 \<Longrightarrow> i - 1 < i"
  using less_eq_dec_self_iff_eq [of i] by (simp flip: linorder_not_le)

lemma u64_pos: "(i :: u64) \<noteq> 0 \<Longrightarrow> 1 \<le> i"
  using inc_le [of 0 i] by (simp add: word_gt_0)

lemma unat_lt2p64: "unat (w :: u64) < 2 ^ 64"
  using unsigned_less [of w] by simp

lemma max_int64_not_max: "i \<le> max_int64 \<Longrightarrow> i \<noteq> - 1"
  by (auto simp: max_int64_def word_le_def unsigned_minus_1_eq_mask mask_eq_exp_minus_1)

lemma u64_inc_int64: "i < max_int64 \<Longrightarrow> int64 (i + 1) = int64 i + 1"
proof -
  assume i: "i < max_int64"
  then have "i \<noteq> - 1" and "i + 1 \<le> max_int64"
    by (auto intro: inc_le simp: max_int64_not_max)
  then have "uint (i + 1) = uint i + 1"
    by (metis u64_unat_inc of_nat_Suc uint_nat add.commute)
  with i \<open>i + 1 \<le> max_int64\<close> show ?thesis
    by (simp add: int64_eq_uint)
qed

section \<open>Go maps with a zero default\<close>

text \<open>Reading a key that a Go map does not hold gives the zero value of the element type.\<close>

definition u64_at :: "(string \<rightharpoonup> u64) \<Rightarrow> string \<Rightarrow> u64" where
  "u64_at m k = (case m k of None \<Rightarrow> 0 | Some v \<Rightarrow> v)"

definition bool_at :: "(string \<rightharpoonup> bool) \<Rightarrow> string \<Rightarrow> bool" where
  "bool_at m k = (case m k of None \<Rightarrow> False | Some b \<Rightarrow> b)"

lemma u64_at_upd [simp]: "u64_at (m(k \<mapsto> v)) k' = (if k' = k then v else u64_at m k')"
  by (simp add: u64_at_def)

lemma bool_at_upd [simp]: "bool_at (m(k := v)) k' = (if k' = k then v = Some True else bool_at m k')"
  by (auto simp: bool_at_def split: option.splits)

end
