(* ===== verification/Table.thy ===== *)
theory Table imports Prelude
begin

text \<open>
  A relational table with a primary key, as the rows in key order.  The store's four tables are
  instances; the locale \<open>keyed_table\<close> states what the SQL statements of the store rely on, and
  its lemmas (bulk upserts, restriction, extensionality) are proved once from those laws.
\<close>

section \<open>Rows in key order\<close>

type_synonym ('k, 'v) table = "('k \<times> 'v) list"

definition table_ok :: "('k :: linorder, 'v) table \<Rightarrow> bool" where
  "table_ok t \<longleftrightarrow> sorted_wrt (<) (map fst t)"

definition lookup :: "('k, 'v) table \<Rightarrow> 'k \<Rightarrow> 'v option" where
  "lookup t = map_of t"

text \<open>\<open>INSERT ... ON CONFLICT(key) DO UPDATE\<close>: the row of the key is replaced or added in place.\<close>

fun upsert :: "'k :: linorder \<Rightarrow> 'v \<Rightarrow> ('k, 'v) table \<Rightarrow> ('k, 'v) table" where
  "upsert k v [] = [(k, v)]"
| "upsert k v ((k', v') # t) =
     (if k < k' then (k, v) # (k', v') # t
      else if k = k' then (k, v) # t
      else (k', v') # upsert k v t)"

text \<open>\<open>INSERT OR IGNORE\<close>: an existing row wins.\<close>

definition insert_or_ignore :: "'k :: linorder \<Rightarrow> 'v \<Rightarrow> ('k, 'v) table \<Rightarrow> ('k, 'v) table" where
  "insert_or_ignore k v t = (if lookup t k = None then upsert k v t else t)"

text \<open>\<open>DELETE FROM t WHERE P(key)\<close>.\<close>

definition delete_where :: "('k \<Rightarrow> bool) \<Rightarrow> ('k, 'v) table \<Rightarrow> ('k, 'v) table" where
  "delete_where P t = filter (\<lambda>(k, v). \<not> P k) t"

text \<open>\<open>SELECT * FROM t WHERE P(key) ORDER BY key\<close>.\<close>

definition select_ordered :: "('k :: linorder \<Rightarrow> bool) \<Rightarrow> ('k, 'v) table \<Rightarrow> ('k \<times> 'v) list" where
  "select_ordered P t = sort_key fst (filter (\<lambda>(k, v). P k) t)"

text \<open>\<open>SELECT * FROM t ORDER BY key DESC LIMIT 1\<close>.\<close>

definition select_last :: "('k :: linorder, 'v) table \<Rightarrow> ('k \<times> 'v) option" where
  "select_last t = (case rev (sort_key fst t) of [] \<Rightarrow> None | r # _ \<Rightarrow> Some r)"

definition upsert_all :: "('k :: linorder \<times> 'v) list \<Rightarrow> ('k, 'v) table \<Rightarrow> ('k, 'v) table" where
  "upsert_all rs t = fold (\<lambda>(k, v). upsert k v) rs t"

section \<open>Facts about ordered rows\<close>

lemma table_ok_Nil [simp]: "table_ok []"
  by (simp add: table_ok_def)

lemma table_ok_Cons: "table_ok ((k, v) # t) \<longleftrightarrow> (\<forall>k' \<in> fst ` set t. k < k') \<and> table_ok t"
  by (auto simp: table_ok_def)

lemma table_ok_distinct: "table_ok t \<Longrightarrow> distinct (map fst t)"
  by (simp add: table_ok_def strict_sorted_iff)

lemma table_ok_sorted: "table_ok t \<Longrightarrow> sorted (map fst t)"
  by (simp add: table_ok_def strict_sorted_iff)

lemma keys_upsert: "fst ` set (upsert k v t) = insert k (fst ` set t)"
  by (induction k v t rule: upsert.induct) auto

lemma table_ok_upsert: "table_ok t \<Longrightarrow> table_ok (upsert k v t)"
  by (induction k v t rule: upsert.induct) (fastforce simp: table_ok_Cons keys_upsert)+

lemma lookup_upsert: "lookup (upsert k v t) k' = (if k' = k then Some v else lookup t k')"
  by (induction t) (auto simp: lookup_def)

lemma lookup_Nil [simp]: "lookup [] k = None"
  by (simp add: lookup_def)

lemma table_ok_delete_where: "table_ok t \<Longrightarrow> table_ok (delete_where P t)"
  unfolding table_ok_def delete_where_def
  by (induction t) (auto simp: image_def)

lemma lookup_delete_where: "lookup (delete_where P t) k = (if P k then None else lookup t k)"
  by (induction t) (auto simp: delete_where_def lookup_def)

lemma select_ordered_ok: "table_ok t \<Longrightarrow> select_ordered P t = filter (\<lambda>(k, v). P k) t"
proof -
  assume "table_ok t"
  then have "sorted (map fst (filter (\<lambda>(k, v). P k) t))"
    by (induction t) (force simp: table_ok_Cons)+
  then show ?thesis
    by (simp add: select_ordered_def sort_key_id_if_sorted)
qed

lemma table_ok_select: "table_ok t \<Longrightarrow> table_ok (select_ordered P t)"
  using table_ok_delete_where [of t "\<lambda>k. \<not> P k"]
  by (simp add: select_ordered_ok delete_where_def)

lemma select_last_ok: "table_ok t \<Longrightarrow> select_last t = (if t = [] then None else Some (last t))"
proof -
  assume "table_ok t"
  then have "sort_key fst t = t"
    by (simp add: sort_key_id_if_sorted table_ok_sorted)
  then show ?thesis
    by (cases t rule: rev_cases) (auto simp: select_last_def)
qed

lemma lookup_in_rows: "table_ok t \<Longrightarrow> (k, v) \<in> set t \<longleftrightarrow> lookup t k = Some v"
  by (simp add: lookup_def table_ok_distinct)

lemma lookup_keys: "lookup t k \<noteq> None \<longleftrightarrow> k \<in> fst ` set t"
  by (simp add: lookup_def map_of_eq_None_iff)

text \<open>Rows in key order are a canonical form: two tables with the same lookups are equal.\<close>

lemma table_ext:
  assumes "table_ok t" and "table_ok u" and "lookup t = lookup u"
  shows "t = u"
proof -
  have "set t = set u"
  proof (intro set_eqI)
    fix r :: "'a \<times> 'b"
    obtain k v where "r = (k, v)" by (cases r)
    with assms lookup_in_rows [of t k v] lookup_in_rows [of u k v] show "r \<in> set t \<longleftrightarrow> r \<in> set u"
      by simp
  qed
  moreover have "map_sorted_distinct_set_unique_prem": "inj_on fst (set t \<union> set u)"
    using \<open>set t = set u\<close> table_ok_distinct [OF assms(1)] by (simp add: distinct_map)
  ultimately show ?thesis
    using map_sorted_distinct_set_unique [of fst t u]
      assms(1,2)[THEN table_ok_sorted] assms(1,2)[THEN table_ok_distinct]
    by blast
qed

lemma map_of_rev_table: "table_ok t \<Longrightarrow> map_of (rev t) = lookup t"
  using map_of_inject_set [of "rev t" t]
  by (simp add: lookup_def table_ok_distinct rev_map [symmetric])

text \<open>The row with the greatest key.\<close>

lemma sorted_le_last: "sorted xs \<Longrightarrow> x \<in> set xs \<Longrightarrow> x \<le> last xs"
  by (induction xs) auto

lemma select_last_Some:
  assumes "table_ok t" and "select_last t = Some (k, v)"
  shows "lookup t k = Some v" and "\<And>k'. lookup t k' \<noteq> None \<Longrightarrow> k' \<le> k"
proof -
  from assms have t: "t \<noteq> []" and l: "last t = (k, v)"
    by (auto simp: select_last_ok split: if_splits)
  then have "(k, v) \<in> set t" using last_in_set by metis
  with assms(1) show "lookup t k = Some v" by (simp add: lookup_in_rows)
  fix k'
  assume "lookup t k' \<noteq> None"
  then have "k' \<in> set (map fst t)" using lookup_keys [of t k'] by simp
  moreover have "k = last (map fst t)" using t l by (simp add: last_map)
  ultimately show "k' \<le> k"
    using table_ok_sorted [OF assms(1)] t
    by (simp add: sorted_le_last)
qed

lemma select_last_None: "table_ok t \<Longrightarrow> select_last t = None \<longleftrightarrow> t = []"
  by (simp add: select_last_ok)

section \<open>The interface the store relies on\<close>

locale keyed_table =
  fixes ok :: "'t \<Rightarrow> bool"
    and look :: "'t \<Rightarrow> 'k :: linorder \<Rightarrow> 'v option"
    and put :: "'k \<Rightarrow> 'v \<Rightarrow> 't \<Rightarrow> 't"
    and remove :: "('k \<Rightarrow> bool) \<Rightarrow> 't \<Rightarrow> 't"
    and none :: 't
  assumes ok_none: "ok none"
    and ok_put: "ok t \<Longrightarrow> ok (put k v t)"
    and ok_remove: "ok t \<Longrightarrow> ok (remove P t)"
    and look_none: "look none k = None"
    and look_put: "ok t \<Longrightarrow> look (put k v t) k' = (if k' = k then Some v else look t k')"
    and look_remove: "ok t \<Longrightarrow> look (remove P t) k = (if P k then None else look t k)"
    and ext: "ok t \<Longrightarrow> ok u \<Longrightarrow> look t = look u \<Longrightarrow> t = u"
begin

lemma ok_puts: "ok t \<Longrightarrow> ok (fold (\<lambda>(k, v). put k v) rs t)"
  by (induction rs arbitrary: t) (auto simp: ok_put)

lemma look_puts:
  "ok t \<Longrightarrow> look (fold (\<lambda>(k, v). put k v) rs t) k =
     (case map_of (rev rs) k of Some v \<Rightarrow> Some v | None \<Rightarrow> look t k)"
  by (induction rs arbitrary: t)
     (auto simp: ok_put look_put map_add_def split: option.splits)

lemma put_put: "ok t \<Longrightarrow> put k v (put k v' t) = put k v t"
  by (rule ext) (auto simp: ok_put look_put)

lemma put_commute: "ok t \<Longrightarrow> k \<noteq> k' \<Longrightarrow> put k v (put k' v' t) = put k' v' (put k v t)"
  by (rule ext) (auto simp: ok_put look_put)

lemma put_same: "ok t \<Longrightarrow> look t k = Some v \<Longrightarrow> put k v t = t"
  by (rule ext) (auto simp: ok_put look_put)

lemma remove_remove: "ok t \<Longrightarrow> remove P (remove Q t) = remove (\<lambda>k. P k \<or> Q k) t"
  by (rule ext) (auto simp: ok_remove look_remove)

lemma remove_none: "ok t \<Longrightarrow> (\<And>k. P k \<Longrightarrow> look t k = None) \<Longrightarrow> remove P t = t"
  by (rule ext) (auto simp: ok_remove look_remove)

lemma remove_all: "ok t \<Longrightarrow> remove (\<lambda>_. True) t = none"
  by (rule ext) (auto simp: ok_remove look_remove ok_none look_none)

lemma remove_put_absorb: "ok t \<Longrightarrow> P k \<Longrightarrow> remove P (put k v t) = remove P t"
  by (rule ext) (auto simp: ok_remove look_remove ok_put look_put)

lemma puts_rebuild:
  assumes "ok t" and "map_of (rev rs) = look t"
  shows "fold (\<lambda>(k, v). put k v) rs none = t"
  by (rule ext) (auto simp: ok_puts ok_none assms look_puts look_none split: option.splits)

end

interpretation tbl: keyed_table table_ok lookup upsert delete_where "[]"
  by unfold_locales
     (auto simp: table_ok_upsert table_ok_delete_where lookup_upsert lookup_delete_where
       intro: table_ext)

lemmas table_simps = lookup_upsert lookup_delete_where
lemmas table_oks = table_ok_upsert table_ok_delete_where

lemma upsert_all_simps [simp]:
  "upsert_all [] t = t"
  "upsert_all ((k, v) # rs) t = upsert_all rs (upsert k v t)"
  by (simp_all add: upsert_all_def)

lemma table_ok_upsert_all: "table_ok t \<Longrightarrow> table_ok (upsert_all rs t)"
  unfolding upsert_all_def by (rule tbl.ok_puts)

lemma lookup_upsert_all:
  "table_ok t \<Longrightarrow> lookup (upsert_all rs t) k =
     (case map_of (rev rs) k of Some v \<Rightarrow> Some v | None \<Rightarrow> lookup t k)"
  unfolding upsert_all_def by (rule tbl.look_puts)

lemma upsert_all_self: "table_ok t \<Longrightarrow> upsert_all t [] = t"
  unfolding upsert_all_def
  by (rule tbl.puts_rebuild) (simp_all add: map_of_rev_table)

end
