(* ===== verification/Go_Strconv.thy ===== *)
theory Go_Strconv imports Prelude
begin

text \<open>
  The part of Go's \<open>strconv\<close> and \<open>strings\<close> packages that the program calls: decimal
  formatting and parsing of \<open>uint64\<close> (term, vote and log positions are stored as decimal
  text), \<open>Atoi\<close>, and splitting of strings.
\<close>

section \<open>Decimal digits\<close>

definition digit_char :: "nat \<Rightarrow> char" where
  "digit_char d = char_of (48 + d)"

definition digit_val :: "char \<Rightarrow> nat option" where
  "digit_val c = (let n = (of_char c :: nat) in if 48 \<le> n \<and> n \<le> 57 then Some (n - 48) else None)"

fun format_nat :: "nat \<Rightarrow> string" where
  "format_nat n = (if n < 10 then [digit_char n] else format_nat (n div 10) @ [digit_char (n mod 10)])"

declare format_nat.simps [simp del]

text \<open>Value of a run of digits, most significant first; \<open>None\<close> on any other byte.\<close>

fun digits_val :: "nat \<Rightarrow> string \<Rightarrow> nat option" where
  "digits_val acc [] = Some acc"
| "digits_val acc (c # s) = (case digit_val c of None \<Rightarrow> None | Some d \<Rightarrow> digits_val (acc * 10 + d) s)"

definition FormatUint :: "u64 \<Rightarrow> string" where
  "FormatUint w = format_nat (unat w)"

text \<open>\<open>strconv.ParseUint(s, 10, 64)\<close>.\<close>

definition ParseUint :: "string \<Rightarrow> error + u64" where
  "ParseUint s =
     (if s = [] then Inl (ErrorNew ''invalid syntax'')
      else case digits_val 0 s of
        None \<Rightarrow> Inl (ErrorNew ''invalid syntax'')
      | Some n \<Rightarrow> if n < 2 ^ 64 then Inr (of_nat n) else Inl (ErrorNew ''value out of range''))"

text \<open>\<open>strconv.Atoi\<close> on a 64 bit platform: an optional sign and decimal digits in range.\<close>

definition Atoi :: "string \<Rightarrow> error + int" where
  "Atoi s =
     (let neg = (s \<noteq> [] \<and> hd s = CHR ''-'');
          body = (if s \<noteq> [] \<and> (hd s = CHR ''-'' \<or> hd s = CHR ''+'') then tl s else s)
      in if body = [] then Inl (ErrorNew ''invalid syntax'')
         else case digits_val 0 body of
           None \<Rightarrow> Inl (ErrorNew ''invalid syntax'')
         | Some n \<Rightarrow>
             if neg then (if n \<le> 2 ^ 63 then Inr (- int n) else Inl (ErrorNew ''value out of range''))
             else (if n < 2 ^ 63 then Inr (int n) else Inl (ErrorNew ''value out of range'')))"

lemma digit_val_char [simp]: "d < 10 \<Longrightarrow> digit_val (digit_char d) = Some d"
  by (simp add: digit_val_def digit_char_def)

lemma digits_val_append: "digits_val acc (s @ t) = Option.bind (digits_val acc s) (\<lambda>v. digits_val v t)"
  by (induction acc s rule: digits_val.induct) (auto split: option.splits)

lemma format_nat_nonempty [simp]: "format_nat n \<noteq> []"
  by (subst format_nat.simps) simp

lemma digits_val_format_nat: "digits_val 0 (format_nat n) = Some n"
proof (induction n rule: format_nat.induct)
  case (1 n)
  show ?case
  proof (cases "n < 10")
    case True
    then show ?thesis by (subst format_nat.simps) simp
  next
    case False
    with "1.IH" have "digits_val 0 (format_nat (n div 10)) = Some (n div 10)" by simp
    with False show ?thesis
      by (subst format_nat.simps) (simp add: digits_val_append)
  qed
qed

lemma ParseUint_FormatUint [simp]: "ParseUint (FormatUint w) = Inr w"
proof -
  have "unat w < 2 ^ 64" using unat_lt2p64 by blast
  then show ?thesis
    by (simp add: ParseUint_def FormatUint_def digits_val_format_nat)
qed

lemma FormatUint_inject [simp]: "FormatUint a = FormatUint b \<longleftrightarrow> a = b"
  by (metis ParseUint_FormatUint sum.inject(2))

lemma Atoi_bounds: "Atoi s = Inr i \<Longrightarrow> - (2 ^ 63) \<le> i \<and> i < 2 ^ 63"
  by (auto simp: Atoi_def Let_def split: if_splits option.splits)

section \<open>Splitting strings\<close>

text \<open>\<open>strings.Cut(s, sep)\<close> for a separator of one byte: \<open>None\<close> when it does not occur.\<close>

fun Cut :: "char \<Rightarrow> string \<Rightarrow> (string \<times> string) option" where
  "Cut sep [] = None"
| "Cut sep (c # s) =
     (if c = sep then Some ([], s)
      else map_option (\<lambda>(a, b). (c # a, b)) (Cut sep s))"

text \<open>\<open>strings.Split(s, sep)\<close> for a separator of one byte.\<close>

fun Split :: "char \<Rightarrow> string \<Rightarrow> string list" where
  "Split sep [] = [[]]"
| "Split sep (c # s) =
     (if c = sep then [] # Split sep s
      else case Split sep s of [] \<Rightarrow> [[c]] | x # xs \<Rightarrow> (c # x) # xs)"

text \<open>\<open>strings.Join(xs, sep)\<close> for a separator of one byte.\<close>

fun Join :: "char \<Rightarrow> string list \<Rightarrow> string" where
  "Join sep [] = []"
| "Join sep [x] = x"
| "Join sep (x # y # xs) = x @ sep # Join sep (y # xs)"

text \<open>\<open>strings.Contains\<close>.\<close>

fun Contains :: "string \<Rightarrow> string \<Rightarrow> bool" where
  "Contains s sub = (take (length sub) s = sub \<or> (case s of [] \<Rightarrow> False | _ # s' \<Rightarrow> Contains s' sub))"

declare Contains.simps [simp del]

lemma Contains_iff: "Contains s sub \<longleftrightarrow> (\<exists>p q. s = p @ sub @ q)"
proof (induction s)
  case Nil
  then show ?case by (subst Contains.simps) auto
next
  case (Cons c s)
  have take: "take (length sub) (c # s) = sub \<longleftrightarrow> (\<exists>q. c # s = sub @ q)"
  proof
    assume "take (length sub) (c # s) = sub"
    then have "c # s = sub @ drop (length sub) (c # s)"
      by (metis append_take_drop_id)
    then show "\<exists>q. c # s = sub @ q" by blast
  next
    assume "\<exists>q. c # s = sub @ q"
    then show "take (length sub) (c # s) = sub" by (metis append_eq_conv_conj)
  qed
  have "Contains (c # s) sub \<longleftrightarrow> (\<exists>q. c # s = sub @ q) \<or> (\<exists>p q. s = p @ sub @ q)"
    using Cons.IH by (subst Contains.simps) (simp only: take list.case)
  also have "\<dots> \<longleftrightarrow> (\<exists>p q. c # s = p @ sub @ q)"
  proof
    assume "(\<exists>q. c # s = sub @ q) \<or> (\<exists>p q. s = p @ sub @ q)"
    then show "\<exists>p q. c # s = p @ sub @ q"
      by (elim disjE exE) (rule exI [of _ "[]"], force, rule exI [of _ "c # _"], force)
  next
    assume "\<exists>p q. c # s = p @ sub @ q"
    then obtain p q where "c # s = p @ sub @ q" by blast
    then show "(\<exists>q. c # s = sub @ q) \<or> (\<exists>p q. s = p @ sub @ q)"
      by (cases p) auto
  qed
  finally show ?case .
qed

lemma Split_nonempty [simp]: "Split sep s \<noteq> []"
  by (cases s) (auto split: list.splits)

lemma Join_Split: "Join sep (Split sep s) = s"
proof (induction s)
  case Nil
  then show ?case by simp
next
  case (Cons c s)
  obtain x xs where x: "Split sep s = x # xs"
    using Split_nonempty by (cases "Split sep s") auto
  with Cons show ?case by (cases xs) auto
qed

lemma Split_no_sep: "x \<in> set (Split sep s) \<Longrightarrow> sep \<notin> set x"
  by (induction s arbitrary: x) (auto split: if_splits list.splits)

lemma Split_word: "sep \<notin> set x \<Longrightarrow> Split sep x = [x]"
  by (induction x) auto

lemma Split_Cons: "sep \<notin> set x \<Longrightarrow> Split sep (x @ sep # s) = x # Split sep s"
  by (induction x) auto

lemma Split_Join: "xs \<noteq> [] \<Longrightarrow> (\<And>x. x \<in> set xs \<Longrightarrow> sep \<notin> set x) \<Longrightarrow> Split sep (Join sep xs) = xs"
  by (induction sep xs rule: Join.induct) (auto simp: Split_word Split_Cons)

lemma Cut_Some: "Cut sep s = Some (a, b) \<longleftrightarrow> s = a @ sep # b \<and> sep \<notin> set a"
proof (induction s arbitrary: a)
  case Nil
  then show ?case by simp
next
  case (Cons c s)
  then show ?case by (cases a) auto
qed

lemma Cut_None: "Cut sep s = None \<longleftrightarrow> sep \<notin> set s"
  by (induction s) auto

end
