(* ===== verification/Go_Json.thy ===== *)
theory Go_Json imports Table
begin

text \<open>
  The part of Go's \<open>encoding/json\<close> and \<open>unicode/utf8\<close> packages that the program relies on.
  Log commands and snapshots are JSON documents: \<open>json.Marshal\<close> writes a string with HTML
  escaping and replaces invalid UTF-8, \<open>json.Unmarshal\<close> accepts any JSON document (up to the
  nesting depth 10000) and unquotes strings.  The round trip of a string, and of a
  \<open>map[string]string\<close>, holds for valid UTF-8, which is what protobuf lets into a request.
\<close>

section \<open>UTF-8\<close>

abbreviation code :: "char \<Rightarrow> nat" where
  "code c \<equiv> of_char c"

definition byte_in :: "nat \<Rightarrow> nat \<Rightarrow> char \<Rightarrow> bool" where
  "byte_in lo hi c \<longleftrightarrow> lo \<le> code c \<and> code c \<le> hi"

text \<open>
  The table of \<open>unicode/utf8\<close> for a first byte: the length of the sequence (0 for a byte that
  starts none) and the range of the second byte.
\<close>

definition utf8_first :: "char \<Rightarrow> nat \<times> nat \<times> nat" where
  "utf8_first c =
     (let x = code c in
      if x < 0x80 then (1, 0, 0)
      else if x < 0xC2 then (0, 0, 0)
      else if x \<le> 0xDF then (2, 0x80, 0xBF)
      else if x \<le> 0xEF then (3, if x = 0xE0 then 0xA0 else 0x80, if x = 0xED then 0x9F else 0xBF)
      else if x \<le> 0xF4 then (4, if x = 0xF0 then 0x90 else 0x80, if x = 0xF4 then 0x8F else 0xBF)
      else (0, 0, 0))"

text \<open>
  Number of bytes of the rune at the front, as \<open>utf8.DecodeRune\<close> accepts it; 0 stands for the
  pair \<open>(RuneError, 1)\<close> of a malformed sequence.
\<close>

definition utf8_size :: "string \<Rightarrow> nat" where
  "utf8_size s =
     (case s of [] \<Rightarrow> 0 | b0 # r \<Rightarrow>
       (case utf8_first b0 of (n, lo, hi) \<Rightarrow>
          let cont = take (n - 1) r in
          if length cont = n - 1
             \<and> (case cont of [] \<Rightarrow> True | b1 # bs \<Rightarrow> byte_in lo hi b1 \<and> list_all (byte_in 0x80 0xBF) bs)
          then n else 0))"

function utf8_valid :: "string \<Rightarrow> bool" where
  "utf8_valid s =
     (if s = [] then True
      else if utf8_size s = 0 then False
      else utf8_valid (drop (utf8_size s) s))"
  by pat_completeness auto
termination
  by (relation "measure length") auto

declare utf8_valid.simps [simp del]

text \<open>\<open>utf8.EncodeRune\<close>: surrogates and values above \<open>0x10FFFF\<close> become U+FFFD.\<close>

definition utf8_encode :: "nat \<Rightarrow> string" where
  "utf8_encode r0 =
     (let r = (if (0xD800 \<le> r0 \<and> r0 \<le> 0xDFFF) \<or> 0x10FFFF < r0 then 0xFFFD else r0) in
      if r < 0x80 then [char_of r]
      else if r < 0x800 then [char_of (0xC0 + r div 64), char_of (0x80 + r mod 64)]
      else if r < 0x10000 then
        [char_of (0xE0 + r div 4096), char_of (0x80 + r div 64 mod 64), char_of (0x80 + r mod 64)]
      else
        [char_of (0xF0 + r div 262144), char_of (0x80 + r div 4096 mod 64),
         char_of (0x80 + r div 64 mod 64), char_of (0x80 + r mod 64)])"

section \<open>Writing strings\<close>

abbreviation quote :: char where
  "quote \<equiv> CHR 0x22"

abbreviation bslash :: char where
  "bslash \<equiv> CHR 0x5C"

definition hex_char :: "nat \<Rightarrow> char" where
  "hex_char n = (if n < 10 then char_of (48 + n) else char_of (87 + n))"

text \<open>The two-character escapes of \<open>appendString\<close>.\<close>

definition short_escape :: "char \<Rightarrow> char option" where
  "short_escape c =
     (if c = bslash \<or> c = quote then Some c
      else if c = CHR 0x08 then Some CHR ''b''
      else if c = CHR 0x0C then Some CHR ''f''
      else if c = CHR 0x0A then Some CHR ''n''
      else if c = CHR 0x0D then Some CHR ''r''
      else if c = CHR 0x09 then Some CHR ''t''
      else None)"

definition escape_ascii :: "char \<Rightarrow> string" where
  "escape_ascii c =
     (case short_escape c of
        Some e \<Rightarrow> [bslash, e]
      | None \<Rightarrow>
          if code c < 0x20 \<or> c = CHR ''<'' \<or> c = CHR ''>'' \<or> c = CHR ''&''
          then [bslash, CHR ''u'', CHR ''0'', CHR ''0'', hex_char (code c div 16), hex_char (code c mod 16)]
          else [c])"

function json_escape :: "string \<Rightarrow> string" where
  "json_escape [] = []"
| "json_escape (c # s) =
     (if code c < 0x80 then escape_ascii c @ json_escape s
      else let n = utf8_size (c # s) in
        if n = 0 then [bslash] @ ''ufffd'' @ json_escape s
        else if take n (c # s) = [CHR 0xE2, CHR 0x80, CHR 0xA8] then [bslash] @ ''u2028'' @ json_escape (drop (n - 1) s)
        else if take n (c # s) = [CHR 0xE2, CHR 0x80, CHR 0xA9] then [bslash] @ ''u2029'' @ json_escape (drop (n - 1) s)
        else take n (c # s) @ json_escape (drop (n - 1) s))"
  by pat_completeness auto
termination
  by (relation "measure length") auto

definition json_string :: "string \<Rightarrow> string" where
  "json_string s = [quote] @ json_escape s @ [quote]"

section \<open>Reading strings\<close>

definition short_unescape :: "char \<Rightarrow> char option" where
  "short_unescape c =
     (if c = bslash \<or> c = quote \<or> c = CHR ''/'' then Some c
      else if c = CHR ''b'' then Some CHR 0x08
      else if c = CHR ''f'' then Some CHR 0x0C
      else if c = CHR ''n'' then Some CHR 0x0A
      else if c = CHR ''r'' then Some CHR 0x0D
      else if c = CHR ''t'' then Some CHR 0x09
      else None)"

definition hex_val :: "char \<Rightarrow> nat option" where
  "hex_val c =
     (if byte_in 48 57 c then Some (code c - 48)
      else if byte_in 97 102 c then Some (code c - 87)
      else if byte_in 65 70 c then Some (code c - 55)
      else None)"

text \<open>\<open>getu4\<close> after the two characters of the escape: four hexadecimal digits.\<close>

fun getu4 :: "string \<Rightarrow> nat option" where
  "getu4 (a # b # c # d # _) =
     (case (hex_val a, hex_val b, hex_val c, hex_val d) of
        (Some w, Some x, Some y, Some z) \<Rightarrow> Some (((w * 16 + x) * 16 + y) * 16 + z)
      | _ \<Rightarrow> None)"
| "getu4 _ = None"

text \<open>A low surrogate escape that completes the high surrogate \<open>hi\<close>.\<close>

definition surrogate_pair :: "nat \<Rightarrow> string \<Rightarrow> nat option" where
  "surrogate_pair hi s =
     (if 0xD800 \<le> hi \<and> hi < 0xDC00 \<and> take 2 s = [bslash, CHR ''u''] then
        (case getu4 (drop 2 s) of
           Some lo \<Rightarrow> if 0xDC00 \<le> lo \<and> lo < 0xE000
             then Some (0x10000 + (hi - 0xD800) * 0x400 + (lo - 0xDC00)) else None
         | None \<Rightarrow> None)
      else None)"

definition prepend :: "string \<Rightarrow> (string \<times> string) option \<Rightarrow> (string \<times> string) option" where
  "prepend p r = map_option (\<lambda>(a, b). (p @ a, b)) r"

text \<open>
  The body of a string literal up to its closing quote: its value and what follows.
  Malformed UTF-8 is coerced to U+FFFD, a lone surrogate too.
\<close>

function unquote :: "string \<Rightarrow> (string \<times> string) option" where
  "unquote [] = None"
| "unquote (c # s) =
     (if c = quote then Some ([], s)
      else if c = bslash then
        (case s of [] \<Rightarrow> None
         | d # t \<Rightarrow>
            (case short_unescape d of
               Some x \<Rightarrow> prepend [x] (unquote t)
             | None \<Rightarrow>
                 if d \<noteq> CHR ''u'' then None
                 else (case getu4 t of
                    None \<Rightarrow> None
                  | Some r \<Rightarrow>
                      if 0xD800 \<le> r \<and> r \<le> 0xDFFF then
                        (case surrogate_pair r (drop 4 t) of
                           Some q \<Rightarrow> prepend (utf8_encode q) (unquote (drop 10 t))
                         | None \<Rightarrow> prepend (utf8_encode 0xFFFD) (unquote (drop 4 t)))
                      else prepend (utf8_encode r) (unquote (drop 4 t)))))
      else if code c < 0x20 then None
      else if code c < 0x80 then prepend [c] (unquote s)
      else let n = utf8_size (c # s) in
        if n = 0 then prepend (utf8_encode 0xFFFD) (unquote s)
        else prepend (take n (c # s)) (unquote (drop (n - 1) s)))"
  by pat_completeness auto
termination
  by (relation "measure length") auto

declare unquote.simps(2) [simp del]

section \<open>Documents\<close>

datatype json =
    JNull
  | JBool bool
  | JNum string
  | JStr string
  | JArr "json list"
  | JObj "(string \<times> json) list"

definition is_ws :: "char \<Rightarrow> bool" where
  "is_ws c \<longleftrightarrow> c = CHR 0x20 \<or> c = CHR 0x09 \<or> c = CHR 0x0A \<or> c = CHR 0x0D"

definition skip_ws :: "string \<Rightarrow> string" where
  "skip_ws s = dropWhile is_ws s"

definition is_digit :: "char \<Rightarrow> bool" where
  "is_digit c \<longleftrightarrow> byte_in 48 57 c"

text \<open>The number grammar: the literal and what follows it.\<close>

definition number_int :: "string \<Rightarrow> (string \<times> string) option" where
  "number_int s =
     (case s of [] \<Rightarrow> None
      | c # r \<Rightarrow> if c = CHR ''0'' then Some ([c], r)
                else if is_digit c then Some (takeWhile is_digit s, dropWhile is_digit s)
                else None)"

definition number_frac :: "string \<Rightarrow> (string \<times> string) option" where
  "number_frac s =
     (if take 1 s = ''.'' then
        (if takeWhile is_digit (tl s) = [] then None
         else Some (''.'' @ takeWhile is_digit (tl s), dropWhile is_digit (tl s)))
      else Some ([], s))"

definition number_exp :: "string \<Rightarrow> (string \<times> string) option" where
  "number_exp s =
     (if take 1 s = ''e'' \<or> take 1 s = ''E'' then
        (let sign = (if take 1 (tl s) = ''+'' \<or> take 1 (tl s) = ''-'' then take 1 (tl s) else []);
             r = drop (length sign) (tl s) in
         if takeWhile is_digit r = [] then None
         else Some (take 1 s @ sign @ takeWhile is_digit r, dropWhile is_digit r))
      else Some ([], s))"

definition parse_number :: "string \<Rightarrow> (json \<times> string) option" where
  "parse_number s =
     (let sign = (if take 1 s = ''-'' then ''-'' else []) in
      case number_int (drop (length sign) s) of None \<Rightarrow> None
      | Some (i, r) \<Rightarrow> (case number_frac r of None \<Rightarrow> None
        | Some (f, r') \<Rightarrow> (case number_exp r' of None \<Rightarrow> None
          | Some (e, r'') \<Rightarrow> Some (JNum (sign @ i @ f @ e), r''))))"

text \<open>
  Recursive descent.  The first argument bounds the recursion (every call consumes a character, so
  the length of the text is enough, see \<open>parse_value_fuel\<close>), the second is the nesting depth,
  which \<open>encoding/json\<close> limits to 10000.
\<close>

fun parse_value :: "nat \<Rightarrow> nat \<Rightarrow> string \<Rightarrow> (json \<times> string) option"
  and parse_members :: "nat \<Rightarrow> nat \<Rightarrow> string \<Rightarrow> ((string \<times> json) list \<times> string) option"
  and parse_elems :: "nat \<Rightarrow> nat \<Rightarrow> string \<Rightarrow> (json list \<times> string) option" where
  "parse_value 0 d s = None"
| "parse_value (Suc f) d s =
     (case skip_ws s of [] \<Rightarrow> None
      | c # r \<Rightarrow>
          if c = quote then map_option (\<lambda>(x, q). (JStr x, q)) (unquote r)
          else if c = CHR ''{'' then
            (if 10000 \<le> d then None
             else if take 1 (skip_ws r) = ''}'' then Some (JObj [], tl (skip_ws r))
             else map_option (\<lambda>(ms, q). (JObj ms, q)) (parse_members f (Suc d) r))
          else if c = CHR ''['' then
            (if 10000 \<le> d then None
             else if take 1 (skip_ws r) = '']'' then Some (JArr [], tl (skip_ws r))
             else map_option (\<lambda>(vs, q). (JArr vs, q)) (parse_elems f (Suc d) r))
          else if take 4 (c # r) = ''true'' then Some (JBool True, drop 3 r)
          else if take 5 (c # r) = ''false'' then Some (JBool False, drop 4 r)
          else if take 4 (c # r) = ''null'' then Some (JNull, drop 3 r)
          else parse_number (c # r))"
| "parse_members 0 d s = None"
| "parse_members (Suc f) d s =
     (case skip_ws s of [] \<Rightarrow> None
      | c # r \<Rightarrow>
          if c \<noteq> quote then None
          else (case unquote r of None \<Rightarrow> None
            | Some (k, r1) \<Rightarrow>
                if take 1 (skip_ws r1) \<noteq> '':'' then None
                else (case parse_value f d (tl (skip_ws r1)) of None \<Rightarrow> None
                  | Some (v, r2) \<Rightarrow>
                      if take 1 (skip_ws r2) = ''}'' then Some ([(k, v)], tl (skip_ws r2))
                      else if take 1 (skip_ws r2) = '','' then
                        map_option (\<lambda>(ms, q). ((k, v) # ms, q)) (parse_members f d (tl (skip_ws r2)))
                      else None)))"
| "parse_elems 0 d s = None"
| "parse_elems (Suc f) d s =
     (case parse_value f d s of None \<Rightarrow> None
      | Some (v, r) \<Rightarrow>
          if take 1 (skip_ws r) = '']'' then Some ([v], tl (skip_ws r))
          else if take 1 (skip_ws r) = '','' then
            map_option (\<lambda>(vs, q). (v # vs, q)) (parse_elems f d (tl (skip_ws r)))
          else None)"

definition json_parse :: "string \<Rightarrow> json option" where
  "json_parse s =
     (case parse_value (2 * length s + 2) 0 s of
        Some (v, r) \<Rightarrow> if skip_ws r = [] then Some v else None
      | None \<Rightarrow> None)"

section \<open>Round trip of strings\<close>

lemma utf8_size_ascii [simp]: "code c < 0x80 \<Longrightarrow> utf8_size (c # s) = 1"
  by (simp add: utf8_size_def utf8_first_def)

lemma utf8_size_cases:
  assumes "utf8_size (b0 # r) = n" and "n \<noteq> 0"
  obtains lo hi where "utf8_first b0 = (n, lo, hi)" and "length (take (n - 1) r) = n - 1"
    and "case take (n - 1) r of [] \<Rightarrow> True | b1 # bs \<Rightarrow> byte_in lo hi b1 \<and> list_all (byte_in 0x80 0xBF) bs"
  using assms by (auto simp: utf8_size_def Let_def split: prod.splits if_splits)

lemma utf8_size_prefix:
  assumes "utf8_size s = n" and "n \<noteq> 0"
  shows "utf8_size (take n s @ t) = n"
proof (cases s)
  case Nil
  with assms show ?thesis by (simp add: utf8_size_def)
next
  case (Cons b0 r)
  from assms(2) obtain m where m: "n = Suc m" by (cases n) auto
  from assms Cons obtain lo hi where f: "utf8_first b0 = (n, lo, hi)"
    and l: "length (take m r) = m"
    and c: "case take m r of [] \<Rightarrow> True | b1 # bs \<Rightarrow> byte_in lo hi b1 \<and> list_all (byte_in 0x80 0xBF) bs"
    using m by (auto elim: utf8_size_cases)
  from l have "take m (take m r @ t) = take m r" by simp
  with f l c Cons m show ?thesis by (simp add: utf8_size_def)
qed

lemma utf8_size_le: "utf8_size s \<le> length s"
  by (cases s) (auto simp: utf8_size_def Let_def split: prod.splits)

lemma utf8_valid_Cons:
  "utf8_valid (c # s) \<longleftrightarrow> utf8_size (c # s) \<noteq> 0 \<and> utf8_valid (drop (utf8_size (c # s) - 1) s)"
  by (subst utf8_valid.simps) (cases "utf8_size (c # s)"; simp)

lemma hex_val_hex_char [simp]: "n < 16 \<Longrightarrow> hex_val (hex_char n) = Some n"
  by (auto simp: hex_val_def hex_char_def byte_in_def)

lemma short_unescape_escape: "short_escape c = Some e \<Longrightarrow> short_unescape e = Some c"
  by (auto simp: short_escape_def short_unescape_def split: if_splits)

lemma short_unescape_u [simp]: "short_unescape CHR ''u'' = None"
  by (simp add: short_unescape_def)

lemma prepend_append: "prepend a (prepend b r) = prepend (a @ b) r"
  by (cases r) (auto simp: prepend_def)

lemma prepend_Some [simp]: "prepend p (Some (a, b)) = Some (p @ a, b)"
  by (simp add: prepend_def)

lemma unquote_quote [simp]: "unquote (quote # r) = Some ([], r)"
  by (simp add: unquote.simps(2))

lemma hex_val_0 [simp]: "hex_val CHR ''0'' = Some 0"
  by (simp add: hex_val_def byte_in_def)

lemma code_lt_128_hex:
  "code c < 0x80 \<Longrightarrow> getu4 (CHR ''0'' # CHR ''0'' # hex_char (code c div 16) # hex_char (code c mod 16) # t) = Some (code c)"
proof -
  assume "code c < 0x80"
  then have "code c div 16 < 16" and "code c mod 16 < 16"
    by (simp_all add: less_mult_imp_div_less)
  then have "hex_val (hex_char (code c div 16)) = Some (code c div 16)"
    and "hex_val (hex_char (code c mod 16)) = Some (code c mod 16)"
    by (simp_all only: hex_val_hex_char)
  moreover have "code c div 16 * 16 + code c mod 16 = code c"
    by (rule div_mult_mod_eq)
  ultimately show ?thesis
    by (simp only: getu4.simps hex_val_0 prod.case option.case mult_zero_left add_0_left)
qed

lemma unquote_escape_ascii:
  assumes "code c < 0x80"
  shows "unquote (escape_ascii c @ t) = prepend [c] (unquote t)"
proof (cases "short_escape c")
  case (Some e)
  then show ?thesis
    by (simp add: escape_ascii_def unquote.simps(2) short_unescape_escape)
next
  case None
  then have c: "c \<noteq> quote" "c \<noteq> bslash" by (auto simp: short_escape_def)
  show ?thesis
  proof (cases "code c < 0x20 \<or> c = CHR ''<'' \<or> c = CHR ''>'' \<or> c = CHR ''&''")
    case True
    have "utf8_encode (code c) = [c]" using assms by (simp add: utf8_encode_def)
    with None True assms show ?thesis
      by (simp add: escape_ascii_def unquote.simps(2) code_lt_128_hex del: getu4.simps)
  next
    case False
    with None c assms show ?thesis
      by (simp add: escape_ascii_def unquote.simps(2))
  qed
qed

lemma unquote_multibyte:
  assumes "\<not> code c < 0x80" and "utf8_size (c # s) = n" and "n \<noteq> 0"
  shows "unquote (take n (c # s) @ t) = prepend (take n (c # s)) (unquote t)"
proof -
  from assms(3) obtain m where m: "n = Suc m" by (cases n) auto
  from assms(1) have c: "c \<noteq> quote" "c \<noteq> bslash" "\<not> code c < 0x20" by auto
  have size: "utf8_size (c # take m s @ t) = n"
    using utf8_size_prefix [OF assms(2,3), of t] m by simp
  have "length (take m s) = m"
    using utf8_size_le [of "c # s"] assms(2) m by simp
  with size c assms(1) m show ?thesis
    by (simp add: unquote.simps(2) [of c "take m s @ t"])
qed

lemma utf8_encode_u2028:
  "utf8_encode 8232 = [CHR 0xE2, CHR 0x80, CHR 0xA8]"
  "utf8_encode 8233 = [CHR 0xE2, CHR 0x80, CHR 0xA9]"
  by (simp_all add: utf8_encode_def char_of_eq_iff)

lemma unquote_u2028:
  "unquote (bslash # ''u2028'' @ t) = prepend [CHR 0xE2, CHR 0x80, CHR 0xA8] (unquote t)"
  "unquote (bslash # ''u2029'' @ t) = prepend [CHR 0xE2, CHR 0x80, CHR 0xA9] (unquote t)"
  by (simp_all add: unquote.simps(2) hex_val_def byte_in_def utf8_encode_u2028)

lemma unquote_json_escape:
  "utf8_valid s \<Longrightarrow> unquote (json_escape s @ quote # r) = Some (s, r)"
proof (induction s rule: json_escape.induct)
  case 1
  then show ?case by simp
next
  case (2 c s)
  let ?n = "utf8_size (c # s)"
  from "2.prems" have n: "?n \<noteq> 0" and v: "utf8_valid (drop (?n - 1) s)"
    by (simp_all add: utf8_valid_Cons)
  show ?case
  proof (cases "code c < 0x80")
    case True
    with "2.IH"(1) v show ?thesis by (simp add: unquote_escape_ascii)
  next
    case False
    have split: "take ?n (c # s) @ drop (?n - 1) s = c # s"
      using n by (cases ?n) auto
    let ?rest = "json_escape (drop (?n - 1) s) @ quote # r"
    have IH: "unquote ?rest = Some (drop (?n - 1) s, r)"
      using "2.IH"(3-5) [OF False refl n] v by blast
    have "json_escape (c # s) @ quote # r = bslash # ''u2028'' @ ?rest \<and> take ?n (c # s) = [CHR 0xE2, CHR 0x80, CHR 0xA8]
        \<or> json_escape (c # s) @ quote # r = bslash # ''u2029'' @ ?rest \<and> take ?n (c # s) = [CHR 0xE2, CHR 0x80, CHR 0xA9]
        \<or> json_escape (c # s) @ quote # r = take ?n (c # s) @ ?rest"
      using False n by (simp add: Let_def)
    then have "unquote (json_escape (c # s) @ quote # r) = prepend (take ?n (c # s)) (unquote ?rest)"
      by (elim disjE conjE) (simp_all only: unquote_u2028 unquote_multibyte [OF False refl n])
    with IH split show ?thesis by simp
  qed
qed

section \<open>The recursion bound is enough\<close>

lemma length_skip_ws: "length (skip_ws s) \<le> length s"
  by (simp add: skip_ws_def length_dropWhile_le)

lemma length_tl_skip_ws: "take 1 (skip_ws s) = [c] \<Longrightarrow> length (tl (skip_ws s)) < length s"
  using length_skip_ws [of s] by (cases "skip_ws s") auto

lemma skip_ws_lessI: "length s < n \<Longrightarrow> length (skip_ws s) - Suc 0 < n"
  using length_skip_ws [of s] by simp

lemma skip_ws_lessD: "n < length (skip_ws s) - Suc 0 \<Longrightarrow> n < length s"
  using length_skip_ws [of s] by simp

lemma prepend_SomeD: "prepend p r = Some (a, q) \<Longrightarrow> \<exists>a'. r = Some (a', q)"
  by (auto simp: prepend_def)

lemma unquote_step:
  "unquote (c # s) = Some (a, r) \<Longrightarrow>
     r = s \<or> (\<exists>t a'. unquote t = Some (a', r) \<and> length t \<le> length s)"
  unfolding unquote.simps(2) Let_def
  by (simp split: if_splits list.splits option.splits)
     (drule prepend_SomeD, elim exE, rule disjI2, intro exI conjI, assumption, simp)+

lemma unquote_shorter: "unquote s = Some (a, r) \<Longrightarrow> length r < length s"
proof (induction s arbitrary: a rule: length_induct)
  case (1 s)
  show ?case
  proof (cases s)
    case Nil
    with "1.prems" show ?thesis by simp
  next
    case (Cons c t)
    with "1.prems" consider "r = t" | u a' where "unquote u = Some (a', r)" "length u \<le> length t"
      using unquote_step [of c t a r] by blast
    then show ?thesis
    proof cases
      case 2
      with "1.IH" Cons have "length r < length u" by auto
      with 2 Cons show ?thesis by simp
    qed (simp add: Cons)
  qed
qed

lemma length_dropWhile_digits: "length (dropWhile is_digit r) \<le> length r"
  by (rule length_dropWhile_le)

lemma number_int_shorter: "number_int s = Some (i, r) \<Longrightarrow> length r < length s"
  using length_dropWhile_le [of is_digit "tl s"]
  by (auto simp: number_int_def less_Suc_eq_le split: list.splits if_splits)

lemma number_frac_shorter: "number_frac s = Some (i, r) \<Longrightarrow> length r \<le> length s"
  using length_dropWhile_le [of is_digit "tl s"]
  by (cases s) (auto simp: number_frac_def split: if_splits)

lemma number_exp_shorter: "number_exp s = Some (i, r) \<Longrightarrow> length r \<le> length s"
proof -
  assume a: "number_exp s = Some (i, r)"
  have "length (dropWhile is_digit (drop k (tl s))) \<le> length s" for k
    using length_dropWhile_le [of is_digit "drop k (tl s)"] by simp
  moreover from a have "r = s \<or> (\<exists>k. r = dropWhile is_digit (drop k (tl s)))"
    by (auto simp: number_exp_def Let_def split: if_splits intro: exI [of _ 0])
  ultimately show ?thesis by auto
qed

lemma parse_number_shorter: "parse_number s = Some (v, r) \<Longrightarrow> length r < length s"
  by (fastforce simp: parse_number_def Let_def split: option.splits if_splits
      dest!: number_int_shorter number_frac_shorter number_exp_shorter)

lemma parse_shorter:
  "(parse_value f d s = Some (v, r) \<longrightarrow> length r < length s)
   \<and> (parse_members f d s = Some (ms, r) \<longrightarrow> length r < length s)
   \<and> (parse_elems f d s = Some (vs, r) \<longrightarrow> length r < length s)"
proof (induction f arbitrary: d s v ms vs r)
  case 0
  then show ?case by simp
next
  case (Suc f)
  note IH = Suc.IH [THEN conjunct1, rule_format] Suc.IH [THEN conjunct2, THEN conjunct1, rule_format]
    Suc.IH [THEN conjunct2, THEN conjunct2, rule_format]
  note sk = length_skip_ws [of s]
  have val: "length r < length s" if "parse_value (Suc f) d s = Some (v, r)"
  proof (cases "skip_ws s")
    case Nil
    with that show ?thesis by simp
  next
    case (Cons c q)
    with sk have q: "length q < length s" by simp
    have "length r < length (c # q) \<or> length r \<le> length q"
      using that Cons length_skip_ws [of q]
      by (auto split: if_splits dest!: unquote_shorter IH parse_number_shorter)
    with q show ?thesis by auto
  qed
  have members: "length r < length s" if "parse_members (Suc f) d s = Some (ms, r)"
  proof (cases "skip_ws s")
    case Nil
    with that show ?thesis by simp
  next
    case (Cons c q)
    with sk have q: "length q < length s" by simp
    from that Cons q show ?thesis
      by (auto split: if_splits option.splits dest!: unquote_shorter IH skip_ws_lessD
          intro!: skip_ws_lessI)
  qed
  have elems: "length r < length s" if "parse_elems (Suc f) d s = Some (vs, r)"
    using that
    by (auto split: if_splits option.splits dest!: IH skip_ws_lessD intro!: skip_ws_lessI)
  from val members elems show ?case by blast
qed

lemma parse_fuel_step:
  "(2 * length s < f \<longrightarrow> parse_value (Suc f) d s = parse_value f d s)
   \<and> (2 * length s < f \<longrightarrow> parse_members (Suc f) d s = parse_members f d s)
   \<and> (2 * length s + 1 < f \<longrightarrow> parse_elems (Suc f) d s = parse_elems f d s)"
proof (induction f arbitrary: d s)
  case 0
  then show ?case by simp
next
  case (Suc f)
  have iv: "parse_value (Suc f) d s = parse_value f d s" if "2 * length s < f" for d s
    using Suc.IH that by blast
  have im: "parse_members (Suc f) d s = parse_members f d s" if "2 * length s < f" for d s
    using Suc.IH that by blast
  have ie: "parse_elems (Suc f) d s = parse_elems f d s" if "2 * length s + 1 < f" for d s
    using Suc.IH that by blast
  have val: "parse_value (Suc (Suc f)) d s = parse_value (Suc f) d s" if l: "2 * length s < Suc f"
  proof (cases "skip_ws s")
    case Nil
    then show ?thesis by simp
  next
    case (Cons c q)
    with l length_skip_ws [of s] have "2 * length q + 1 < f" by simp
    then have "parse_members (Suc f) (Suc d) q = parse_members f (Suc d) q"
      and "parse_elems (Suc f) (Suc d) q = parse_elems f (Suc d) q"
      by (simp_all only: im ie)
    with Cons show ?thesis
      by (simp only: parse_value.simps list.case)
  qed
  have members: "parse_members (Suc (Suc f)) d s = parse_members (Suc f) d s"
    if l: "2 * length s < Suc f"
  proof (cases "skip_ws s")
    case Nil
    then show ?thesis by simp
  next
    case (Cons c q)
    with l length_skip_ws [of s] have q: "2 * length q + 1 < f" by simp
    show ?thesis
    proof (cases "unquote q")
      case None
      with Cons show ?thesis by simp
    next
      case (Some kr)
      obtain k r1 where kr: "kr = (k, r1)" by (cases kr)
      with Some have "length r1 < length q" by (simp add: unquote_shorter)
      with q length_skip_ws [of r1] have r1: "2 * length (tl (skip_ws r1)) < f" by simp
      note v = iv [OF r1, of d]
      show ?thesis
      proof (cases "parse_value f d (tl (skip_ws r1))")
        case None
        with Cons Some kr v show ?thesis
          by (simp only: parse_members.simps list.case option.case prod.case)
      next
        case (Some vr)
        obtain x r2 where vr: "vr = (x, r2)" by (cases vr)
        with Some have "length r2 < length (tl (skip_ws r1))"
          using parse_shorter [of f d "tl (skip_ws r1)" x r2] by blast
        with r1 length_skip_ws [of r2] have "2 * length (tl (skip_ws r2)) < f" by simp
        note m = im [OF this, of d]
        from Cons \<open>unquote q = Some kr\<close> kr v Some vr m show ?thesis
          by (simp only: parse_members.simps list.case option.case prod.case)
      qed
    qed
  qed
  have elems: "parse_elems (Suc (Suc f)) d s = parse_elems (Suc f) d s"
    if l: "2 * length s + 1 < Suc f"
  proof -
    from l have v: "parse_value (Suc f) d s = parse_value f d s" by (simp only: iv)
    show ?thesis
    proof (cases "parse_value f d s")
      case None
      with v show ?thesis by (simp only: parse_elems.simps option.case)
    next
      case (Some vr)
      obtain x r where vr: "vr = (x, r)" by (cases vr)
      with Some have "length r < length s" using parse_shorter [of f d s x r] by blast
      with l length_skip_ws [of r] have "2 * length (tl (skip_ws r)) + 1 < f" by simp
      note e = ie [OF this, of d]
      from v Some vr e show ?thesis
        by (simp only: parse_elems.simps option.case prod.case)
    qed
  qed
  from val members elems show ?case by blast
qed

text \<open>More than the bound of \<open>json_parse\<close> never changes the result.\<close>

lemma parse_value_fuel:
  "2 * length s < f \<Longrightarrow> parse_value (f + k) d s = parse_value f d s"
  by (induction k) (use parse_fuel_step in auto)

section \<open>Objects with string members\<close>

fun json_members :: "(string \<times> string) list \<Rightarrow> string" where
  "json_members [] = []"
| "json_members [(k, v)] = json_string k @ '':'' @ json_string v"
| "json_members ((k, v) # m # ms) = json_string k @ '':'' @ json_string v @ '','' @ json_members (m # ms)"

text \<open>\<open>json.Marshal\<close> of a struct with string fields, in field order.\<close>

definition json_object :: "(string \<times> string) list \<Rightarrow> string" where
  "json_object ms = ''{'' @ json_members ms @ ''}''"

text \<open>
  A Go \<open>map[string]string\<close> is the table of its entries in key order, which is the order
  \<open>json.Marshal\<close> writes them in.
\<close>

type_synonym string_map = "(string, string) table"

definition json_marshal_map :: "string_map \<Rightarrow> bytes" where
  "json_marshal_map m = json_object m"

text \<open>A member decoded into a Go \<open>string\<close>: \<open>null\<close> leaves the zero value.\<close>

fun json_as_string :: "json \<Rightarrow> string option" where
  "json_as_string (JStr s) = Some s"
| "json_as_string JNull = Some []"
| "json_as_string _ = None"

text \<open>\<open>json.Unmarshal\<close> into a \<open>map[string]string\<close>: a repeated key keeps its last value.\<close>

definition json_unmarshal_map :: "bytes \<Rightarrow> error + string_map" where
  "json_unmarshal_map s =
     (case json_parse s of
        None \<Rightarrow> Inl (ErrorNew ''invalid JSON'')
      | Some JNull \<Rightarrow> Inr []
      | Some (JObj ms) \<Rightarrow>
          if list_all (\<lambda>(k, j). json_as_string j \<noteq> None) ms
          then Inr (upsert_all (map (\<lambda>(k, j). (k, the (json_as_string j))) ms) [])
          else Inl (ErrorNew ''cannot unmarshal into string'')
      | Some _ \<Rightarrow> Inl (ErrorNew ''cannot unmarshal into map''))"

definition utf8_map :: "(string \<times> string) list \<Rightarrow> bool" where
  "utf8_map m \<longleftrightarrow> list_all (\<lambda>(k, v). utf8_valid k \<and> utf8_valid v) m"

abbreviation str_members :: "(string \<times> string) list \<Rightarrow> (string \<times> json) list" where
  "str_members ms \<equiv> map (\<lambda>(k, v). (k, JStr v)) ms"

lemma skip_ws_noop: "\<not> is_ws c \<Longrightarrow> skip_ws (c # s) = c # s"
  by (simp add: skip_ws_def)

lemma not_ws [simp]:
  "\<not> is_ws quote" "\<not> is_ws CHR ''{''" "\<not> is_ws CHR ''}''" "\<not> is_ws CHR '':''" "\<not> is_ws CHR '',''"
  by (simp_all add: is_ws_def)

lemma parse_value_string:
  "utf8_valid v \<Longrightarrow> parse_value (Suc f) d (json_string v @ r) = Some (JStr v, r)"
  by (simp add: json_string_def skip_ws_noop unquote_json_escape)

lemma parse_members_step:
  assumes "utf8_valid k" and "utf8_valid v" and "\<not> is_ws c"
  shows "parse_members (Suc (Suc g)) d (json_string k @ '':'' @ json_string v @ c # r) =
    (if c = CHR ''}'' then Some ([(k, JStr v)], r)
     else if c = CHR '','' then map_option (\<lambda>(ms, q). ((k, JStr v) # ms, q)) (parse_members (Suc g) d r)
     else None)"
proof -
  let ?rest = "json_string v @ c # r"
  have "unquote (json_escape k @ quote # CHR '':'' # ?rest) = Some (k, CHR '':'' # ?rest)"
    by (rule unquote_json_escape [OF assms(1)])
  moreover have "json_string k @ '':'' @ ?rest = quote # json_escape k @ quote # CHR '':'' # ?rest"
    by (simp add: json_string_def)
  moreover have "parse_value (Suc g) d ?rest = Some (JStr v, c # r)"
    by (rule parse_value_string [OF assms(2)])
  ultimately show ?thesis
    using assms(3)
    by (simp add: skip_ws_noop parse_members.simps(2) [of "Suc g"]
        del: parse_value.simps parse_members.simps)
qed

lemma parse_members_json:
  assumes "ms \<noteq> []" and "utf8_map ms" and "length ms < f"
  shows "parse_members f d (json_members ms @ CHR ''}'' # r) = Some (str_members ms, r)"
  using assms
proof (induction ms arbitrary: f rule: json_members.induct)
  case 1
  then show ?case by simp
next
  case (2 k v)
  from "2.prems"(3) obtain g where "f = Suc (Suc g)"
    by (cases f; cases "f - 1") auto
  with 2 parse_members_step [of k v "CHR ''}''"] show ?case
    by (simp add: utf8_map_def del: parse_members.simps)
next
  case (3 k v m ms)
  from "3.prems"(3) obtain g where f: "f = Suc (Suc g)" and g: "length (m # ms) < Suc g"
    by (cases f; cases "f - 1") auto
  from "3.prems" have u: "utf8_valid k" "utf8_valid v" and um: "utf8_map (m # ms)"
    by (simp_all add: utf8_map_def)
  have "parse_members (Suc g) d (json_members (m # ms) @ CHR ''}'' # r) = Some (str_members (m # ms), r)"
    by (rule "3.IH") (use um g in auto)
  with f parse_members_step [OF u, of "CHR '',''"] show ?case
    by (simp del: parse_members.simps)
qed

lemma length_json_members: "length ms \<le> length (json_members ms)"
  by (induction ms rule: json_members.induct) (auto simp: json_string_def)

lemma json_parse_object:
  assumes "utf8_map ms"
  shows "json_parse (json_object ms) = Some (JObj (str_members ms))"
proof (cases "ms = []")
  case True
  then show ?thesis
    using parse_value.simps(2) [of 5 0 "json_object []"]
    by (simp add: json_parse_def json_object_def skip_ws_noop skip_ws_def [of "[]"] eval_nat_numeral
        del: parse_value.simps)
next
  case False
  let ?f = "2 * length (json_object ms) + 1"
  have first: "take 1 (skip_ws (json_members ms @ ''}'')) \<noteq> ''}''"
    using False by (cases ms rule: json_members.cases) (auto simp: json_string_def skip_ws_noop)
  have "length ms < ?f"
    using length_json_members [of ms] by (simp add: json_object_def)
  then have "parse_members ?f 1 (json_members ms @ ''}'') = Some (str_members ms, [])"
    using parse_members_json [OF False assms, of ?f 1 "[]"] by simp
  then have "parse_value (Suc ?f) 0 (json_object ms) = Some (JObj (str_members ms), [])"
    using first by (simp add: json_object_def skip_ws_noop)
  then show ?thesis by (simp add: json_parse_def skip_ws_def)
qed

lemma json_map_roundtrip:
  assumes "table_ok m" and "utf8_map m"
  shows "json_unmarshal_map (json_marshal_map m) = Inr m"
proof -
  have "map (\<lambda>(k, j). (k, the (json_as_string j))) (str_members m) = m"
    by (induction m) auto
  moreover have "list_all (\<lambda>(k, j). json_as_string j \<noteq> None) (str_members m)"
    by (auto simp: list_all_iff)
  ultimately show ?thesis
    using assms by (simp add: json_unmarshal_map_def json_marshal_map_def json_parse_object upsert_all_self)
qed

lemma json_unmarshal_map_ok: "json_unmarshal_map s = Inr m \<Longrightarrow> table_ok m"
  by (auto simp: json_unmarshal_map_def table_ok_upsert_all split: option.splits json.splits if_splits)

end
