(* ===== verification/Storage.thy ===== *)
theory Storage imports Table Go_Strconv Go_Json
begin

text \<open>
  The durable store of a node (internal/storage/storage.go).  The SQLite database is a record of
  its four tables; each SQL statement of the source is its effect on the tables.  The driver may
  refuse any statement: \<open>faults\<close> holds, for the statements still to come, the error the driver
  answers with (\<open>None\<close> for success; no further faults once the list is used up).  An operation
  maps a store to its result and the store afterwards, and a transaction that fails leaves the
  tables as they were, which is what the driver documents for \<open>Rollback\<close> and for a failed
  \<open>Commit\<close>.
\<close>

section \<open>Data\<close>

record Entry =
  Entry_Index :: u64
  Entry_Term :: u64
  Entry_Command :: bytes

record Snapshot =
  LastIncludedIndex :: u64
  LastIncludedTerm :: u64
  Snapshot_Data :: bytes

record db =
  metadata :: "(string, string) table"
  log_entries :: "(int, int \<times> bytes) table"
  kv :: "(string, string \<times> int) table"
  snapshot :: "(int \<times> int \<times> bytes) option"

record Store =
  db :: db
  faults :: "string option list"

type_synonym 'a outcome = "(error + 'a) \<times> Store"

definition empty_db :: db where
  "empty_db = \<lparr>metadata = [], log_entries = [], kv = [], snapshot = None\<rparr>"

section \<open>Statements and transactions\<close>

text \<open>One call into the driver.\<close>

definition sql :: "Store \<Rightarrow> unit outcome" where
  "sql s =
     (case faults s of
        [] \<Rightarrow> (Inr (), s)
      | None # fs \<Rightarrow> (Inr (), s\<lparr>faults := fs\<rparr>)
      | Some m # fs \<Rightarrow> (Inl (SqlError m), s\<lparr>faults := fs\<rparr>))"

definition Exec :: "(db \<Rightarrow> db) \<Rightarrow> Store \<Rightarrow> unit outcome" where
  "Exec f s = (case sql s of (Inl e, s1) \<Rightarrow> (Inl e, s1) | (Inr _, s1) \<Rightarrow> (Inr (), s1\<lparr>db := f (db s1)\<rparr>))"

text \<open>\<open>QueryRow(...).Scan(...)\<close>: \<open>None\<close> is the empty result set.\<close>

definition QueryRow :: "(db \<Rightarrow> 'a option) \<Rightarrow> Store \<Rightarrow> 'a outcome" where
  "QueryRow q s =
     (case sql s of
        (Inl e, s1) \<Rightarrow> (Inl e, s1)
      | (Inr _, s1) \<Rightarrow> (case q (db s1) of None \<Rightarrow> (Inl ErrNoRows, s1) | Some x \<Rightarrow> (Inr x, s1)))"

text \<open>\<open>rows.Next\<close> / \<open>rows.Scan\<close> over a result set, then \<open>rows.Err\<close>.\<close>

fun scan_rows :: "string \<Rightarrow> 'r list \<Rightarrow> Store \<Rightarrow> 'r list outcome" where
  "scan_rows m [] s = (case sql s of (Inl e, s1) \<Rightarrow> (Inl e, s1) | (Inr _, s1) \<Rightarrow> (Inr [], s1))"
| "scan_rows m (r # rs) s =
     (case sql s of
        (Inl e, s1) \<Rightarrow> (Inl (Errorf m e), s1)
      | (Inr _, s1) \<Rightarrow>
          (case scan_rows m rs s1 of (Inl e, s2) \<Rightarrow> (Inl e, s2) | (Inr xs, s2) \<Rightarrow> (Inr (r # xs), s2)))"

definition inTx :: "(Store \<Rightarrow> unit outcome) \<Rightarrow> Store \<Rightarrow> unit outcome" where
  "inTx fn s =
     (case sql s of
        (Inl e, s1) \<Rightarrow> (Inl (Errorf ''begin transaction: %w'' e), s1)
      | (Inr _, s1) \<Rightarrow>
          (case fn s1 of
             (Inl e, s2) \<Rightarrow> (Inl e, s2\<lparr>db := db s1\<rparr>)
           | (Inr _, s2) \<Rightarrow>
               (case sql s2 of
                  (Inl e, s3) \<Rightarrow> (Inl e, s3\<lparr>db := db s1\<rparr>)
                | (Inr _, s3) \<Rightarrow> (Inr (), s3))))"

section \<open>Metadata\<close>

definition setMeta :: "string \<Rightarrow> string \<Rightarrow> Store \<Rightarrow> unit outcome" where
  "setMeta key val s =
     (case Exec (\<lambda>d. d\<lparr>metadata := upsert key val (metadata d)\<rparr>) s of
        (Inl e, s1) \<Rightarrow> (Inl (Errorf ''write metadata %s: %w'' e), s1)
      | (Inr _, s1) \<Rightarrow> (Inr (), s1))"

definition stringMeta :: "string \<Rightarrow> Store \<Rightarrow> string outcome" where
  "stringMeta key s =
     (case QueryRow (\<lambda>d. lookup (metadata d) key) s of
        (Inl e, s1) \<Rightarrow> (Inl (Errorf ''read metadata %s: %w'' e), s1)
      | (Inr v, s1) \<Rightarrow> (Inr v, s1))"

definition uintMeta :: "string \<Rightarrow> Store \<Rightarrow> u64 outcome" where
  "uintMeta key s =
     (case stringMeta key s of
        (Inl e, s1) \<Rightarrow> (Inl e, s1)
      | (Inr v, s1) \<Rightarrow>
          (case ParseUint v of
             Inl e \<Rightarrow> (Inl (Errorf ''metadata %s has invalid value %q: %w'' e), s1)
           | Inr n \<Rightarrow> (Inr n, s1)))"

section \<open>Opening\<close>

text \<open>
  The tables by name.  Their columns are fields of \<open>db\<close>; a byte slice is a string, so that a nil slice, which the \<open>NOT NULL\<close>
  columns would refuse, is not told from an empty one.
\<close>

definition schema_tables :: "string list" where
  "schema_tables = [''metadata'', ''log_entries'', ''kv'', ''snapshot'']"

definition metadata_defaults :: "(string \<times> string) list" where
  "metadata_defaults =
     [(''current_term'', ''0''), (''voted_for'', []), (''last_applied'', ''0''),
      (''snapshot_index'', ''0''), (''snapshot_term'', ''0'')]"

fun create_tables :: "string list \<Rightarrow> Store \<Rightarrow> unit outcome" where
  "create_tables [] s = (Inr (), s)"
| "create_tables (t # ts) s =
     (case Exec (\<lambda>d. d) s of
        (Inl e, s1) \<Rightarrow> (Inl (Errorf ''create schema: %w'' e), s1)
      | (Inr _, s1) \<Rightarrow> create_tables ts s1)"

fun seed_metadata :: "(string \<times> string) list \<Rightarrow> Store \<Rightarrow> unit outcome" where
  "seed_metadata [] s = (Inr (), s)"
| "seed_metadata ((k, v) # kvs) s =
     (case Exec (\<lambda>d. d\<lparr>metadata := insert_or_ignore k v (metadata d)\<rparr>) s of
        (Inl e, s1) \<Rightarrow> (Inl (Errorf ''seed metadata %s: %w'' e), s1)
      | (Inr _, s1) \<Rightarrow> seed_metadata kvs s1)"

text \<open>
  Go iterates over the map of defaults in an unspecified order: \<open>order\<close> is the order of this run.
\<close>

definition Store_init :: "(string \<times> string) list \<Rightarrow> Store \<Rightarrow> unit outcome" where
  "Store_init order s =
     (case create_tables schema_tables s of
        (Inl e, s1) \<Rightarrow> (Inl e, s1)
      | (Inr _, s1) \<Rightarrow> seed_metadata order s1)"

definition defaults_order :: "(string \<times> string) list \<Rightarrow> bool" where
  "defaults_order order \<longleftrightarrow> distinct (map fst order) \<and> set order = set metadata_defaults"

text \<open>
  \<open>Open\<close>: the results of \<open>os.MkdirAll\<close> and \<open>sql.Open\<close> are arguments, the last one is the
  database file found in the directory.
\<close>

definition Open :: "(string \<times> string) list \<Rightarrow> error option \<Rightarrow> error option \<Rightarrow> Store \<Rightarrow> unit outcome" where
  "Open order mkdir sqlopen disk =
     (case mkdir of
        Some e \<Rightarrow> (Inl (Errorf ''create data dir: %w'' e), disk)
      | None \<Rightarrow>
          (case sqlopen of
             Some e \<Rightarrow> (Inl (Errorf ''open sqlite: %w'' e), disk)
           | None \<Rightarrow> Store_init order disk))"

section \<open>Reading\<close>

definition CurrentTermVote :: "Store \<Rightarrow> (u64 \<times> string) outcome" where
  "CurrentTermVote s =
     (case uintMeta ''current_term'' s of
        (Inl e, s1) \<Rightarrow> (Inl e, s1)
      | (Inr t, s1) \<Rightarrow>
          (case stringMeta ''voted_for'' s1 of
             (Inl e, s2) \<Rightarrow> (Inl e, s2)
           | (Inr v, s2) \<Rightarrow> (Inr (t, v), s2)))"

definition LastApplied :: "Store \<Rightarrow> u64 outcome" where
  "LastApplied s = uintMeta ''last_applied'' s"

definition SnapshotIndexTerm :: "Store \<Rightarrow> (u64 \<times> u64) outcome" where
  "SnapshotIndexTerm s =
     (case uintMeta ''snapshot_index'' s of
        (Inl e, s1) \<Rightarrow> (Inl e, s1)
      | (Inr i, s1) \<Rightarrow>
          (case uintMeta ''snapshot_term'' s1 of
             (Inl e, s2) \<Rightarrow> (Inl e, s2)
           | (Inr t, s2) \<Rightarrow> (Inr (i, t), s2)))"

definition LastIndexAndTerm :: "Store \<Rightarrow> (u64 \<times> u64) outcome" where
  "LastIndexAndTerm s =
     (case QueryRow (\<lambda>d. select_last (log_entries d)) s of
        (Inl e, s1) \<Rightarrow>
          (if e = ErrNoRows then SnapshotIndexTerm s1
           else (Inl (Errorf ''read last log entry: %w'' e), s1))
      | (Inr (i, t, _), s1) \<Rightarrow> (Inr (uint64 i, uint64 t), s1))"

definition LoadSnapshot :: "Store \<Rightarrow> Snapshot outcome" where
  "LoadSnapshot s =
     (case QueryRow snapshot s of
        (Inl e, s1) \<Rightarrow>
          (if e = ErrNoRows
           then (Inr \<lparr>LastIncludedIndex = 0, LastIncludedTerm = 0, Snapshot_Data = []\<rparr>, s1)
           else (Inl (Errorf ''load snapshot: %w'' e), s1))
      | (Inr (i, t, x), s1) \<Rightarrow>
          (Inr \<lparr>LastIncludedIndex = uint64 i, LastIncludedTerm = uint64 t, Snapshot_Data = x\<rparr>, s1))"

text \<open>\<open>Term\<close>: \<open>None\<close> is the answer \<open>(0, false, nil)\<close>.\<close>

definition Store_Term :: "u64 \<Rightarrow> Store \<Rightarrow> u64 option outcome" where
  "Store_Term index s =
     (if index = 0 then (Inr (Some 0), s)
      else case SnapshotIndexTerm s of
        (Inl e, s1) \<Rightarrow> (Inl e, s1)
      | (Inr (snapshotIndex, snapshotTerm), s1) \<Rightarrow>
          if index = snapshotIndex then (Inr (Some snapshotTerm), s1)
          else if index < snapshotIndex then (Inr None, s1)
          else (case QueryRow (\<lambda>d. lookup (log_entries d) (int64 index)) s1 of
             (Inl e, s2) \<Rightarrow>
               (if e = ErrNoRows then (Inr None, s2)
                else (Inl (Errorf ''read term at %d: %w'' e), s2))
           | (Inr (t, _), s2) \<Rightarrow> (Inr (Some (uint64 t)), s2)))"

definition Store_Entry :: "u64 \<Rightarrow> Store \<Rightarrow> Entry option outcome" where
  "Store_Entry index s =
     (case QueryRow (\<lambda>d. lookup (log_entries d) (int64 index)) s of
        (Inl e, s1) \<Rightarrow>
          (if e = ErrNoRows then (Inr None, s1)
           else (Inl (Errorf ''read entry %d: %w'' e), s1))
      | (Inr (t, c), s1) \<Rightarrow>
          (Inr (Some \<lparr>Entry_Index = index, Entry_Term = uint64 t, Entry_Command = c\<rparr>), s1))"

fun entry_of_row :: "int \<times> int \<times> bytes \<Rightarrow> Entry" where
  "entry_of_row (i, t, c) = \<lparr>Entry_Index = uint64 i, Entry_Term = uint64 t, Entry_Command = c\<rparr>"

text \<open>\<open>LIMIT\<close>: a negative limit is no limit.\<close>

definition sql_limit :: "int \<Rightarrow> 'a list \<Rightarrow> 'a list" where
  "sql_limit n xs = (if n < 0 then xs else take (nat n) xs)"

definition EntriesFrom :: "u64 \<Rightarrow> int \<Rightarrow> Store \<Rightarrow> Entry list outcome" where
  "EntriesFrom start limit s =
     (case SnapshotIndexTerm s of
        (Inl e, s1) \<Rightarrow> (Inl e, s1)
      | (Inr (snapshotIndex, _), s1) \<Rightarrow>
          let start' = (if start \<le> snapshotIndex then snapshotIndex + 1 else start);
              limit' = (if limit \<le> 0 then - 1 else limit)
          in case sql s1 of
               (Inl e, s2) \<Rightarrow> (Inl (Errorf ''read entries from %d: %w'' e), s2)
             | (Inr _, s2) \<Rightarrow>
                 (case scan_rows ''scan entry: %w''
                        (sql_limit limit' (select_ordered (\<lambda>i. int64 start' \<le> i) (log_entries (db s2)))) s2 of
                    (Inl e, s3) \<Rightarrow> (Inl e, s3)
                  | (Inr rows, s3) \<Rightarrow> (Inr (map entry_of_row rows), s3)))"

definition Store_Get :: "string \<Rightarrow> Store \<Rightarrow> string option outcome" where
  "Store_Get key s =
     (case QueryRow (\<lambda>d. lookup (kv d) key) s of
        (Inl e, s1) \<Rightarrow>
          (if e = ErrNoRows then (Inr None, s1)
           else (Inl (Errorf ''read key %q: %w'' e), s1))
      | (Inr (v, _), s1) \<Rightarrow> (Inr (Some v), s1))"

definition Store_All :: "Store \<Rightarrow> string_map outcome" where
  "Store_All s =
     (case sql s of
        (Inl e, s1) \<Rightarrow> (Inl (Errorf ''read state machine: %w'' e), s1)
      | (Inr _, s1) \<Rightarrow>
          (case scan_rows ''scan key/value: %w''
                 (map (\<lambda>(k, v, _). (k, v)) (select_ordered (\<lambda>_. True) (kv (db s1)))) s1 of
             (Inl e, s2) \<Rightarrow> (Inl e, s2)
           | (Inr rows, s2) \<Rightarrow> (Inr (upsert_all rows []), s2)))"

section \<open>Writing\<close>

definition SaveTermVote :: "u64 \<Rightarrow> string \<Rightarrow> Store \<Rightarrow> unit outcome" where
  "SaveTermVote t votedFor =
     inTx (\<lambda>tx. case setMeta ''current_term'' (FormatUint t) tx of
        (Inl e, tx1) \<Rightarrow> (Inl e, tx1)
      | (Inr _, tx1) \<Rightarrow> setMeta ''voted_for'' votedFor tx1)"

fun append_rows :: "Entry list \<Rightarrow> Store \<Rightarrow> unit outcome" where
  "append_rows [] tx = (Inr (), tx)"
| "append_rows (e # es) tx =
     (case Exec (\<lambda>d. d\<lparr>log_entries := upsert (int64 (Entry_Index e))
                        (int64 (Entry_Term e), Entry_Command e) (log_entries d)\<rparr>) tx of
        (Inl err, tx1) \<Rightarrow> (Inl (Errorf ''append entry %d: %w'' err), tx1)
      | (Inr _, tx1) \<Rightarrow> append_rows es tx1)"

definition Store_AppendEntries :: "Entry list \<Rightarrow> Store \<Rightarrow> unit outcome" where
  "Store_AppendEntries entries s = (if entries = [] then (Inr (), s) else inTx (append_rows entries) s)"

definition DeleteFrom :: "u64 \<Rightarrow> Store \<Rightarrow> unit outcome" where
  "DeleteFrom index s =
     (case Exec (\<lambda>d. d\<lparr>log_entries := delete_where (\<lambda>i. int64 index \<le> i) (log_entries d)\<rparr>) s of
        (Inl e, s1) \<Rightarrow> (Inl (Errorf ''delete entries from %d: %w'' e), s1)
      | (Inr _, s1) \<Rightarrow> (Inr (), s1))"

definition ApplySet :: "u64 \<Rightarrow> string \<Rightarrow> string \<Rightarrow> Store \<Rightarrow> unit outcome" where
  "ApplySet index key val =
     inTx (\<lambda>tx. case Exec (\<lambda>d. d\<lparr>kv := upsert key (val, int64 index) (kv d)\<rparr>) tx of
        (Inl e, tx1) \<Rightarrow> (Inl (Errorf ''apply set %q: %w'' e), tx1)
      | (Inr _, tx1) \<Rightarrow> setMeta ''last_applied'' (FormatUint index) tx1)"

definition ApplyDelete :: "u64 \<Rightarrow> string \<Rightarrow> Store \<Rightarrow> unit outcome" where
  "ApplyDelete index key =
     inTx (\<lambda>tx. case Exec (\<lambda>d. d\<lparr>kv := delete_where (\<lambda>k. k = key) (kv d)\<rparr>) tx of
        (Inl e, tx1) \<Rightarrow> (Inl (Errorf ''apply delete %q: %w'' e), tx1)
      | (Inr _, tx1) \<Rightarrow> setMeta ''last_applied'' (FormatUint index) tx1)"

definition SkipTo :: "u64 \<Rightarrow> Store \<Rightarrow> unit outcome" where
  "SkipTo index = inTx (setMeta ''last_applied'' (FormatUint index))"

definition saveSnapshot :: "Snapshot \<Rightarrow> Store \<Rightarrow> unit outcome" where
  "saveSnapshot sn tx =
     (case Exec (\<lambda>d. d\<lparr>snapshot := Some (int64 (LastIncludedIndex sn), int64 (LastIncludedTerm sn),
                                         Snapshot_Data sn)\<rparr>) tx of
        (Inl e, tx1) \<Rightarrow> (Inl (Errorf ''save snapshot: %w'' e), tx1)
      | (Inr _, tx1) \<Rightarrow>
          (case setMeta ''snapshot_index'' (FormatUint (LastIncludedIndex sn)) tx1 of
             (Inl e, tx2) \<Rightarrow> (Inl e, tx2)
           | (Inr _, tx2) \<Rightarrow>
               (case setMeta ''snapshot_term'' (FormatUint (LastIncludedTerm sn)) tx2 of
                  (Inl e, tx3) \<Rightarrow> (Inl e, tx3)
                | (Inr _, tx3) \<Rightarrow> setMeta ''last_applied'' (FormatUint (LastIncludedIndex sn)) tx3)))"

definition compactLog :: "u64 \<Rightarrow> Store \<Rightarrow> unit outcome" where
  "compactLog throughIndex tx =
     (case Exec (\<lambda>d. d\<lparr>log_entries := delete_where (\<lambda>i. i \<le> int64 throughIndex) (log_entries d)\<rparr>) tx of
        (Inl e, tx1) \<Rightarrow> (Inl (Errorf ''compact log through %d: %w'' e), tx1)
      | (Inr _, tx1) \<Rightarrow> (Inr (), tx1))"

definition CreateSnapshot :: "u64 \<Rightarrow> u64 \<Rightarrow> Store \<Rightarrow> Snapshot outcome" where
  "CreateSnapshot lastIncludedIndex lastIncludedTerm s =
     (case Store_All s of
        (Inl e, s1) \<Rightarrow> (Inl e, s1)
      | (Inr state, s1) \<Rightarrow>
          let sn = \<lparr>LastIncludedIndex = lastIncludedIndex, LastIncludedTerm = lastIncludedTerm,
                    Snapshot_Data = json_marshal_map state\<rparr>
          in case inTx (\<lambda>tx. case saveSnapshot sn tx of
                 (Inl e, tx1) \<Rightarrow> (Inl e, tx1)
               | (Inr _, tx1) \<Rightarrow> compactLog lastIncludedIndex tx1) s1 of
               (Inl e, s2) \<Rightarrow> (Inl e, s2)
             | (Inr _, s2) \<Rightarrow> (Inr sn, s2))"

fun restore_rows :: "u64 \<Rightarrow> (string \<times> string) list \<Rightarrow> Store \<Rightarrow> unit outcome" where
  "restore_rows index [] tx = (Inr (), tx)"
| "restore_rows index ((k, v) # kvs) tx =
     (case Exec (\<lambda>d. d\<lparr>kv := upsert k (v, int64 index) (kv d)\<rparr>) tx of
        (Inl e, tx1) \<Rightarrow> (Inl (Errorf ''restore key %q: %w'' e), tx1)
      | (Inr _, tx1) \<Rightarrow> restore_rows index kvs tx1)"

definition Store_InstallSnapshot :: "Snapshot \<Rightarrow> Store \<Rightarrow> unit outcome" where
  "Store_InstallSnapshot sn s =
     (case (if Snapshot_Data sn = [] then Inr [] else json_unmarshal_map (Snapshot_Data sn)) of
        Inl e \<Rightarrow> (Inl (Errorf ''decode snapshot: %w'' e), s)
      | Inr state \<Rightarrow>
          inTx (\<lambda>tx. case Exec (\<lambda>d. d\<lparr>kv := delete_where (\<lambda>_. True) (kv d)\<rparr>) tx of
             (Inl e, tx1) \<Rightarrow> (Inl (Errorf ''clear state machine: %w'' e), tx1)
           | (Inr _, tx1) \<Rightarrow>
               (case restore_rows (LastIncludedIndex sn) state tx1 of
                  (Inl e, tx2) \<Rightarrow> (Inl e, tx2)
                | (Inr _, tx2) \<Rightarrow>
                    (case saveSnapshot sn tx2 of
                       (Inl e, tx3) \<Rightarrow> (Inl e, tx3)
                     | (Inr _, tx3) \<Rightarrow> compactLog (LastIncludedIndex sn) tx3))) s)"

end
