(* ===== verification/Store_Laws.thy ===== *)
theory Store_Laws imports Storage
begin

text \<open>
  What the store promises.  A view or an effect on the four tables is the specification of each
  operation of \<open>Storage\<close>; the laws say that the operation computes it whatever the driver does,
  that a failure leaves the tables alone, and that the tables stay well formed.
\<close>

section \<open>What the operations compute\<close>

text \<open>
  The content of the tables as the node sees it.  Every read operation answers with one of these
  views and every write operation has one of the effects below, or fails and changes nothing.
\<close>

definition meta_string :: "db \<Rightarrow> string \<Rightarrow> string" where
  "meta_string d k = (case lookup (metadata d) k of Some v \<Rightarrow> v | None \<Rightarrow> [])"

definition meta_u64 :: "db \<Rightarrow> string \<Rightarrow> u64" where
  "meta_u64 d k = (case ParseUint (meta_string d k) of Inr n \<Rightarrow> n | Inl _ \<Rightarrow> 0)"

abbreviation snap_index :: "db \<Rightarrow> u64" where
  "snap_index d \<equiv> meta_u64 d ''snapshot_index''"

abbreviation snap_term :: "db \<Rightarrow> u64" where
  "snap_term d \<equiv> meta_u64 d ''snapshot_term''"

definition last_entry :: "db \<Rightarrow> u64 \<times> u64" where
  "last_entry d =
     (case select_last (log_entries d) of
        None \<Rightarrow> (snap_index d, snap_term d)
      | Some (i, t, _) \<Rightarrow> (uint64 i, uint64 t))"

definition term_at :: "db \<Rightarrow> u64 \<Rightarrow> u64 option" where
  "term_at d i =
     (if i = 0 then Some 0
      else if i = snap_index d then Some (snap_term d)
      else if i < snap_index d then None
      else map_option (\<lambda>(t, _). uint64 t) (lookup (log_entries d) (int64 i)))"

definition entry_at :: "db \<Rightarrow> u64 \<Rightarrow> Entry option" where
  "entry_at d i =
     map_option (\<lambda>(t, c). \<lparr>Entry_Index = i, Entry_Term = uint64 t, Entry_Command = c\<rparr>)
       (lookup (log_entries d) (int64 i))"

definition entries_from :: "u64 \<Rightarrow> int \<Rightarrow> db \<Rightarrow> Entry list" where
  "entries_from start limit d =
     (let start' = (if start \<le> snap_index d then snap_index d + 1 else start);
          limit' = (if limit \<le> 0 then - 1 else limit)
      in map entry_of_row
           (sql_limit limit' (select_ordered (\<lambda>i. int64 start' \<le> i) (log_entries d))))"

definition kv_get :: "db \<Rightarrow> string \<Rightarrow> string option" where
  "kv_get d k = map_option fst (lookup (kv d) k)"

definition kv_state :: "db \<Rightarrow> string_map" where
  "kv_state d = upsert_all (map (\<lambda>(k, v, _). (k, v)) (select_ordered (\<lambda>_. True) (kv d))) []"

definition saved_snapshot :: "db \<Rightarrow> Snapshot" where
  "saved_snapshot d =
     (case snapshot d of
        None \<Rightarrow> \<lparr>LastIncludedIndex = 0, LastIncludedTerm = 0, Snapshot_Data = []\<rparr>
      | Some (i, t, x) \<Rightarrow>
          \<lparr>LastIncludedIndex = uint64 i, LastIncludedTerm = uint64 t, Snapshot_Data = x\<rparr>)"

definition put_meta :: "string \<Rightarrow> string \<Rightarrow> db \<Rightarrow> db" where
  "put_meta k v d = d\<lparr>metadata := upsert k v (metadata d)\<rparr>"

definition put_term_vote :: "u64 \<Rightarrow> string \<Rightarrow> db \<Rightarrow> db" where
  "put_term_vote t v d = put_meta ''voted_for'' v (put_meta ''current_term'' (FormatUint t) d)"

definition put_entries :: "Entry list \<Rightarrow> db \<Rightarrow> db" where
  "put_entries es d =
     d\<lparr>log_entries :=
        upsert_all (map (\<lambda>e. (int64 (Entry_Index e), int64 (Entry_Term e), Entry_Command e)) es)
          (log_entries d)\<rparr>"

definition drop_from :: "u64 \<Rightarrow> db \<Rightarrow> db" where
  "drop_from i d = d\<lparr>log_entries := delete_where (\<lambda>k. int64 i \<le> k) (log_entries d)\<rparr>"

definition drop_through :: "u64 \<Rightarrow> db \<Rightarrow> db" where
  "drop_through i d = d\<lparr>log_entries := delete_where (\<lambda>k. k \<le> int64 i) (log_entries d)\<rparr>"

definition apply_set :: "u64 \<Rightarrow> string \<Rightarrow> string \<Rightarrow> db \<Rightarrow> db" where
  "apply_set i k v d =
     put_meta ''last_applied'' (FormatUint i) (d\<lparr>kv := upsert k (v, int64 i) (kv d)\<rparr>)"

definition apply_delete :: "u64 \<Rightarrow> string \<Rightarrow> db \<Rightarrow> db" where
  "apply_delete i k d =
     put_meta ''last_applied'' (FormatUint i) (d\<lparr>kv := delete_where (\<lambda>k'. k' = k) (kv d)\<rparr>)"

definition put_snapshot :: "Snapshot \<Rightarrow> db \<Rightarrow> db" where
  "put_snapshot sn d =
     put_meta ''last_applied'' (FormatUint (LastIncludedIndex sn))
      (put_meta ''snapshot_term'' (FormatUint (LastIncludedTerm sn))
       (put_meta ''snapshot_index'' (FormatUint (LastIncludedIndex sn))
         (d\<lparr>snapshot := Some (int64 (LastIncludedIndex sn), int64 (LastIncludedTerm sn),
                              Snapshot_Data sn)\<rparr>)))"

definition snapshot_now :: "u64 \<Rightarrow> u64 \<Rightarrow> db \<Rightarrow> Snapshot" where
  "snapshot_now i t d =
     \<lparr>LastIncludedIndex = i, LastIncludedTerm = t, Snapshot_Data = json_marshal_map (kv_state d)\<rparr>"

definition restore :: "Snapshot \<Rightarrow> string_map \<Rightarrow> db \<Rightarrow> db" where
  "restore sn state d =
     drop_through (LastIncludedIndex sn)
      (put_snapshot sn
        (d\<lparr>kv := upsert_all (map (\<lambda>(k, v). (k, v, int64 (LastIncludedIndex sn))) state)
             (delete_where (\<lambda>_. True) (kv d))\<rparr>))"

text \<open>The state machine a snapshot carries.\<close>

definition snapshot_state :: "Snapshot \<Rightarrow> error + string_map" where
  "snapshot_state sn = (if Snapshot_Data sn = [] then Inr [] else json_unmarshal_map (Snapshot_Data sn))"

definition seeded :: "(string \<times> string) list \<Rightarrow> db \<Rightarrow> db" where
  "seeded order d = d\<lparr>metadata := fold (\<lambda>(k, v). insert_or_ignore k v) order (metadata d)\<rparr>"

text \<open>
  The tables are well formed: rows in key order, and the metadata rows that \<open>Store_init\<close> seeds are
  there with decimal numbers in the numeric ones.
\<close>

definition meta_ok :: "db \<Rightarrow> bool" where
  "meta_ok d \<longleftrightarrow>
     list_all (\<lambda>k. \<not> isl (ParseUint (meta_string d k)) \<and> lookup (metadata d) k \<noteq> None)
       [''current_term'', ''last_applied'', ''snapshot_index'', ''snapshot_term'']
     \<and> lookup (metadata d) ''voted_for'' \<noteq> None"

definition db_ok :: "db \<Rightarrow> bool" where
  "db_ok d \<longleftrightarrow> table_ok (metadata d) \<and> table_ok (log_entries d) \<and> table_ok (kv d) \<and> meta_ok d"

text \<open>
  \<open>answers op view\<close>: the operation does not change the tables, its result is the view of them,
  and it fails only when the driver does.  \<open>commits op eff\<close>: on success the tables change by
  \<open>eff\<close>, on failure, which again needs a driver fault, they do not change.
  \<open>does\<close> is \<open>commits\<close> without the promise about failure, for the steps of a transaction.
\<close>

definition answers :: "(Store \<Rightarrow> 'a outcome) \<Rightarrow> (db \<Rightarrow> 'a) \<Rightarrow> bool" where
  "answers op view \<longleftrightarrow>
     (\<forall>s. meta_ok (db s) \<longrightarrow>
        db (snd (op s)) = db s
        \<and> (case fst (op s) of Inr x \<Rightarrow> x = view (db s) | Inl _ \<Rightarrow> faults s \<noteq> [])
        \<and> (faults s = [] \<longrightarrow> snd (op s) = s))"

definition does :: "(Store \<Rightarrow> unit outcome) \<Rightarrow> (db \<Rightarrow> db) \<Rightarrow> bool" where
  "does op eff \<longleftrightarrow>
     (\<forall>s. (case fst (op s) of Inr _ \<Rightarrow> db (snd (op s)) = eff (db s) | Inl _ \<Rightarrow> faults s \<noteq> [])
        \<and> (faults s = [] \<longrightarrow> snd (op s) = s\<lparr>db := eff (db s)\<rparr>))"

definition commits :: "(Store \<Rightarrow> unit outcome) \<Rightarrow> (db \<Rightarrow> db) \<Rightarrow> bool" where
  "commits op eff \<longleftrightarrow> does op eff \<and> (\<forall>s. isl (fst (op s)) \<longrightarrow> db (snd (op s)) = db s)"

lemma answersD:
  assumes "answers op view" and "meta_ok (db s)" and "op s = (r, s')"
  shows "db s' = db s" and "\<And>x. r = Inr x \<Longrightarrow> x = view (db s)"
    and "\<And>e. r = Inl e \<Longrightarrow> faults s \<noteq> []"
    and "faults s = [] \<Longrightarrow> r = Inr (view (db s)) \<and> s' = s"
proof -
  have "db s' = db s \<and> (case r of Inr x \<Rightarrow> x = view (db s) | Inl _ \<Rightarrow> faults s \<noteq> [])
      \<and> (faults s = [] \<longrightarrow> s' = s)"
    using assms(1) [unfolded answers_def, rule_format, OF assms(2)] assms(3) by simp
  then show "db s' = db s" and "\<And>x. r = Inr x \<Longrightarrow> x = view (db s)"
    and "\<And>e. r = Inl e \<Longrightarrow> faults s \<noteq> []"
    and "faults s = [] \<Longrightarrow> r = Inr (view (db s)) \<and> s' = s"
    by (auto split: sum.splits)
qed

lemma doesD:
  assumes "does op eff" and "op s = (r, s')"
  shows "\<And>x. r = Inr x \<Longrightarrow> db s' = eff (db s)" and "\<And>e. r = Inl e \<Longrightarrow> faults s \<noteq> []"
    and "faults s = [] \<Longrightarrow> r = Inr () \<and> s' = s\<lparr>db := eff (db s)\<rparr>"
proof -
  have "(case r of Inr _ \<Rightarrow> db s' = eff (db s) | Inl _ \<Rightarrow> faults s \<noteq> [])
      \<and> (faults s = [] \<longrightarrow> s' = s\<lparr>db := eff (db s)\<rparr>)"
    using assms(1) [unfolded does_def, rule_format, of s] assms(2) by (simp split: sum.splits)
  then show "\<And>x. r = Inr x \<Longrightarrow> db s' = eff (db s)" and "\<And>e. r = Inl e \<Longrightarrow> faults s \<noteq> []"
    and "faults s = [] \<Longrightarrow> r = Inr () \<and> s' = s\<lparr>db := eff (db s)\<rparr>"
    by (auto split: sum.splits)
qed

lemma commitsD:
  assumes "commits op eff" and "op s = (r, s')"
  shows "\<And>x. r = Inr x \<Longrightarrow> db s' = eff (db s)" and "\<And>e. r = Inl e \<Longrightarrow> db s' = db s \<and> faults s \<noteq> []"
    and "faults s = [] \<Longrightarrow> r = Inr () \<and> s' = s\<lparr>db := eff (db s)\<rparr>"
proof -
  from assms have d: "does op eff" and "isl r \<Longrightarrow> db s' = db s"
    unfolding commits_def by (metis fst_conv snd_conv)+
  then show "\<And>x. r = Inr x \<Longrightarrow> db s' = eff (db s)"
    and "\<And>e. r = Inl e \<Longrightarrow> db s' = db s \<and> faults s \<noteq> []"
    and "faults s = [] \<Longrightarrow> r = Inr () \<and> s' = s\<lparr>db := eff (db s)\<rparr>"
    using doesD [OF d assms(2)] by auto
qed

section \<open>Read operations\<close>

lemma sql_cases:
  assumes "sql s = (r, s')"
  shows "db s' = db s" and "\<And>e. r = Inl e \<Longrightarrow> faults s \<noteq> []"
    and "faults s = [] \<Longrightarrow> r = Inr () \<and> s' = s"
  using assms by (auto simp: sql_def split: list.splits option.splits)

lemma sql_clean [simp]: "faults s = [] \<Longrightarrow> sql s = (Inr (), s)"
  by (simp add: sql_def)

lemma QueryRow_cases:
  assumes "QueryRow q s = (r, s')"
  shows "db s' = db s" and "\<And>x. r = Inr x \<Longrightarrow> q (db s) = Some x"
    and "r = Inl ErrNoRows \<Longrightarrow> q (db s) = None"
    and "\<And>e. r = Inl e \<Longrightarrow> e \<noteq> ErrNoRows \<Longrightarrow> faults s \<noteq> []"
    and "faults s = [] \<Longrightarrow> s' = s"
proof -
  obtain r1 s1 where s1: "sql s = (r1, s1)" by fastforce
  note sql = sql_cases [OF s1]
  have "r = Inl ErrNoRows \<Longrightarrow> q (db s) = None"
  proof (cases r1)
    case (Inl e)
    with s1 have "e \<noteq> ErrNoRows" by (auto simp: sql_def split: list.splits option.splits)
    moreover assume "r = Inl ErrNoRows"
    ultimately show ?thesis using assms s1 Inl by (simp add: QueryRow_def)
  next
    case (Inr u)
    moreover assume "r = Inl ErrNoRows"
    ultimately show ?thesis
      using assms s1 sql(1) by (simp add: QueryRow_def split: option.splits)
  qed
  then show "r = Inl ErrNoRows \<Longrightarrow> q (db s) = None" .
  show "db s' = db s" and "\<And>x. r = Inr x \<Longrightarrow> q (db s) = Some x"
    and "\<And>e. r = Inl e \<Longrightarrow> e \<noteq> ErrNoRows \<Longrightarrow> faults s \<noteq> []"
    and "faults s = [] \<Longrightarrow> s' = s"
    using assms s1 sql by (auto simp: QueryRow_def split: sum.splits option.splits)
qed

lemma stringMeta_answers:
  assumes "\<And>d. meta_ok d \<Longrightarrow> lookup (metadata d) k \<noteq> None"
  shows "answers (stringMeta k) (\<lambda>d. meta_string d k)"
  unfolding answers_def
proof (intro allI impI)
  fix s :: Store
  assume ok: "meta_ok (db s)"
  obtain r s' where q: "QueryRow (\<lambda>d. lookup (metadata d) k) s = (r, s')" by fastforce
  from assms [OF ok] QueryRow_cases [OF q]
  show "db (snd (stringMeta k s)) = db s \<and>
      (case fst (stringMeta k s) of Inr x \<Rightarrow> x = meta_string (db s) k | Inl _ \<Rightarrow> faults s \<noteq> []) \<and>
      (faults s = [] \<longrightarrow> snd (stringMeta k s) = s)"
    using q by (cases r; cases "r = Inl ErrNoRows") (auto simp: stringMeta_def meta_string_def)
qed

lemma uintMeta_answers:
  assumes "\<And>d. meta_ok d \<Longrightarrow> lookup (metadata d) k \<noteq> None \<and> \<not> isl (ParseUint (meta_string d k))"
  shows "answers (uintMeta k) (\<lambda>d. meta_u64 d k)"
  unfolding answers_def
proof (intro allI impI)
  fix s :: Store
  assume ok: "meta_ok (db s)"
  obtain r s' where q: "stringMeta k s = (r, s')" by fastforce
  from assms have "answers (stringMeta k) (\<lambda>d. meta_string d k)" 
    by (intro stringMeta_answers) blast
  from answersD [OF this ok q] assms [OF ok]
  show "db (snd (uintMeta k s)) = db s \<and>
      (case fst (uintMeta k s) of Inr x \<Rightarrow> x = meta_u64 (db s) k | Inl _ \<Rightarrow> faults s \<noteq> []) \<and>
      (faults s = [] \<longrightarrow> snd (uintMeta k s) = s)"
    using q by (cases r) (auto simp: uintMeta_def meta_u64_def split: sum.splits)
qed

lemma meta_ok_keys:
  "meta_ok d \<Longrightarrow> lookup (metadata d) ''voted_for'' \<noteq> None"
  "meta_ok d \<Longrightarrow> k \<in> {''current_term'', ''last_applied'', ''snapshot_index'', ''snapshot_term''} \<Longrightarrow>
     lookup (metadata d) k \<noteq> None \<and> \<not> isl (ParseUint (meta_string d k))"
  by (auto simp: meta_ok_def)

lemmas meta_answers =
  stringMeta_answers [OF meta_ok_keys(1)]
  uintMeta_answers [OF meta_ok_keys(2), of "''current_term''", simplified]
  uintMeta_answers [OF meta_ok_keys(2), of "''last_applied''", simplified]
  uintMeta_answers [OF meta_ok_keys(2), of "''snapshot_index''", simplified]
  uintMeta_answers [OF meta_ok_keys(2), of "''snapshot_term''", simplified]

text \<open>Sequencing two reads.\<close>

lemma answers_then:
  assumes "answers p f" and "\<And>x. answers (q x) (g x)"
    and "\<And>s. op s = (case p s of (r, s1) \<Rightarrow> (case r of Inl e \<Rightarrow> (Inl (h e), s1) | Inr x \<Rightarrow> q x s1))"
  shows "answers op (\<lambda>d. g (f d) d)"
  unfolding answers_def
proof (intro allI impI)
  fix s :: Store
  assume ok: "meta_ok (db s)"
  obtain r s1 where p: "p s = (r, s1)" by fastforce
  note P = answersD [OF assms(1) ok p]
  show "db (snd (op s)) = db s \<and>
      (case fst (op s) of Inr x \<Rightarrow> x = g (f (db s)) (db s) | Inl _ \<Rightarrow> faults s \<noteq> []) \<and>
      (faults s = [] \<longrightarrow> snd (op s) = s)"
  proof (cases r)
    case (Inl e)
    with P p show ?thesis by (simp add: assms(3))
  next
    case (Inr x)
    obtain r2 s2 where q: "q x s1 = (r2, s2)" by fastforce
    from ok P(1) have "meta_ok (db s1)" by simp
    note Q = answersD [OF assms(2) this q]
    have op: "op s = (r2, s2)" using p q Inr by (simp add: assms(3))
    have x: "x = f (db s)" using P(2) Inr by simp
    have s1: "faults s = [] \<Longrightarrow> s1 = s" using P(4) by blast
    show ?thesis
    proof (cases r2)
      case (Inl e)
      with Q(3) s1 have "faults s \<noteq> []" by blast
      with op Inl P(1) Q(1) show ?thesis by simp
    next
      case (Inr y)
      with Q(2) x P(1) have "y = g (f (db s)) (db s)" by simp
      moreover have "faults s = [] \<Longrightarrow> s2 = s" using Q(4) s1 by blast
      ultimately show ?thesis using op Inr P(1) Q(1) by simp
    qed
  qed
qed

lemma answers_return: "answers (\<lambda>s. (Inr x, s)) (\<lambda>d. x)"
  by (simp add: answers_def)

text \<open>A query whose empty result set is an answer of its own.\<close>

lemma answers_QueryRow:
  assumes "\<And>s1. answers none g"
    and "\<And>s. op s = (case QueryRow q s of (r, s1) \<Rightarrow>
           (case r of Inl e \<Rightarrow> if e = ErrNoRows then none s1 else (Inl (h e), s1) | Inr x \<Rightarrow> (Inr (f x), s1)))"
  shows "answers op (\<lambda>d. case q d of None \<Rightarrow> g d | Some x \<Rightarrow> f x)"
  unfolding answers_def
proof (intro allI impI)
  fix s :: Store
  assume ok: "meta_ok (db s)"
  obtain r s1 where q: "QueryRow q s = (r, s1)" by fastforce
  note Q = QueryRow_cases [OF q]
  show "db (snd (op s)) = db s \<and>
      (case fst (op s) of Inr x \<Rightarrow> x = (case q (db s) of None \<Rightarrow> g (db s) | Some x \<Rightarrow> f x)
       | Inl _ \<Rightarrow> faults s \<noteq> []) \<and>
      (faults s = [] \<longrightarrow> snd (op s) = s)"
  proof (cases "r = Inl ErrNoRows")
    case True
    then have op: "op s = none s1" by (simp add: assms(2) q)
    obtain r2 s2 where n: "none s1 = (r2, s2)" by fastforce
    from ok Q(1) have "meta_ok (db s1)" by simp
    note N = answersD [OF assms(1) this n]
    have s1: "faults s = [] \<Longrightarrow> s1 = s" by (rule Q(5))
    show ?thesis
    proof (cases r2)
      case (Inl e)
      with N(3) s1 have "faults s \<noteq> []" by blast
      with op n Inl Q(1) N(1) show ?thesis by simp
    next
      case (Inr y)
      moreover have "faults s = [] \<Longrightarrow> s2 = s" using N(4) s1 by blast
      ultimately show ?thesis using op n Q(1,3) N(1,2) True by simp
    qed
  next
    case False
    then show ?thesis using Q q by (cases r) (auto simp: assms(2))
  qed
qed

lemma CurrentTermVote_answers:
  "answers CurrentTermVote (\<lambda>d. (meta_u64 d ''current_term'', meta_string d ''voted_for''))"
  by (rule answers_then [OF meta_answers(2) answers_then [OF meta_answers(1) answers_return]])
     (auto simp: CurrentTermVote_def split: prod.split sum.split)

lemma LastApplied_answers: "answers LastApplied (\<lambda>d. meta_u64 d ''last_applied'')"
  using meta_answers(3) by (simp add: LastApplied_def [abs_def])

lemma SnapshotIndexTerm_answers: "answers SnapshotIndexTerm (\<lambda>d. (snap_index d, snap_term d))"
  by (rule answers_then [OF meta_answers(4) answers_then [OF meta_answers(5) answers_return]])
     (auto simp: SnapshotIndexTerm_def split: prod.split sum.split)

lemma LastIndexAndTerm_answers: "answers LastIndexAndTerm last_entry"
proof -
  have "answers LastIndexAndTerm
     (\<lambda>d. case select_last (log_entries d) of None \<Rightarrow> (snap_index d, snap_term d)
       | Some x \<Rightarrow> (\<lambda>(i, t, _). (uint64 i, uint64 t)) x)"
    by (rule answers_QueryRow [OF SnapshotIndexTerm_answers])
       (auto simp: LastIndexAndTerm_def split: prod.split sum.split)
  moreover have "\<dots> = last_entry"
    by (simp add: fun_eq_iff last_entry_def split: option.split)
  ultimately show ?thesis by simp
qed

lemma LoadSnapshot_answers: "answers LoadSnapshot saved_snapshot"
  unfolding saved_snapshot_def [abs_def]
  by (rule answers_QueryRow [OF answers_return])
     (auto simp: LoadSnapshot_def split: prod.split sum.split)

lemma Store_Entry_answers: "answers (Store_Entry i) (\<lambda>d. entry_at d i)"
proof -
  have "answers (Store_Entry i)
     (\<lambda>d. case lookup (log_entries d) (int64 i) of None \<Rightarrow> None
       | Some x \<Rightarrow> Some ((\<lambda>(t, c). \<lparr>Entry_Index = i, Entry_Term = uint64 t, Entry_Command = c\<rparr>) x))"
    by (rule answers_QueryRow [OF answers_return])
       (auto simp: Store_Entry_def split: prod.split sum.split)
  moreover have "\<dots> = (\<lambda>d. entry_at d i)"
    by (simp add: fun_eq_iff entry_at_def split: option.split)
  ultimately show ?thesis by simp
qed

lemma Store_Get_answers: "answers (Store_Get k) (\<lambda>d. kv_get d k)"
proof -
  have "answers (Store_Get k)
     (\<lambda>d. case lookup (kv d) k of None \<Rightarrow> None | Some x \<Rightarrow> Some (fst x))"
    by (rule answers_QueryRow [OF answers_return])
       (auto simp: Store_Get_def split: prod.split sum.split)
  moreover have "\<dots> = (\<lambda>d. kv_get d k)"
    by (simp add: fun_eq_iff kv_get_def split: option.split)
  ultimately show ?thesis by simp
qed

lemma Store_Term_answers: "answers (Store_Term i) (\<lambda>d. term_at d i)"
proof (cases "i = 0")
  case True
  then have "Store_Term i = (\<lambda>s. (Inr (Some 0), s))" and "(\<lambda>d. term_at d i) = (\<lambda>d. Some 0)"
    by (simp_all add: fun_eq_iff Store_Term_def term_at_def)
  then show ?thesis by (simp add: answers_return)
next
  case False
  let ?row = "\<lambda>s. case QueryRow (\<lambda>d. lookup (log_entries d) (int64 i)) s of (r, s2) \<Rightarrow>
     (case r of Inl e \<Rightarrow> if e = ErrNoRows then (Inr None, s2) else (Inl (Errorf ''read term at %d: %w'' e), s2)
      | Inr x \<Rightarrow> (Inr (Some (uint64 (fst x))), s2))"
  let ?view = "\<lambda>d. case lookup (log_entries d) (int64 i) of None \<Rightarrow> None | Some x \<Rightarrow> Some (uint64 (fst x))"
  have row: "answers ?row ?view"
    by (rule answers_QueryRow [OF answers_return]) (rule refl)
  let ?q = "\<lambda>x. if i = fst x then (\<lambda>s. (Inr (Some (snd x)), s))
     else if i < fst x then (\<lambda>s. (Inr None, s)) else ?row"
  let ?g = "\<lambda>x d. if i = fst x then Some (snd x) else if i < fst x then None else ?view d"
  have "answers (?q x) (?g x)" for x
    using row by (simp add: answers_return)
  then have "answers (Store_Term i) (\<lambda>d. ?g (snap_index d, snap_term d) d)"
    by (rule answers_then [OF SnapshotIndexTerm_answers, where h = id])
       (use False in \<open>auto simp: Store_Term_def split: prod.split sum.split\<close>)
  moreover have "(\<lambda>d. ?g (snap_index d, snap_term d) d) = (\<lambda>d. term_at d i)"
    using False by (auto simp: fun_eq_iff term_at_def split: option.split)
  ultimately show ?thesis by simp
qed

lemma scan_rows_cases:
  assumes "scan_rows m rows s = (r, s')"
  shows "db s' = db s \<and> (\<forall>xs. r = Inr xs \<longrightarrow> xs = rows) \<and> (\<forall>e. r = Inl e \<longrightarrow> faults s \<noteq> [])
    \<and> (faults s = [] \<longrightarrow> r = Inr rows \<and> s' = s)"
  using assms
proof (induction rows arbitrary: s r s')
  case Nil
  obtain r1 s1 where q: "sql s = (r1, s1)" by fastforce
  from Nil q sql_cases [OF q] show ?case by (cases r1) auto
next
  case (Cons x rows)
  obtain r1 s1 where q: "sql s = (r1, s1)" by fastforce
  note Q = sql_cases [OF q]
  show ?case
  proof (cases r1)
    case (Inl e)
    with Cons.prems q Q show ?thesis by auto
  next
    case (Inr u)
    obtain r2 s2 where t: "scan_rows m rows s1 = (r2, s2)" by fastforce
    note IH = Cons.IH [OF t]
    have s1: "faults s = [] \<Longrightarrow> s1 = s" using Q(3) by blast
    from Cons.prems q Inr t have "(r, s') = (case r2 of Inl e \<Rightarrow> (Inl e, s2) | Inr xs \<Rightarrow> (Inr (x # xs), s2))"
      by simp
    with IH s1 Q(1) show ?thesis by (cases r2) auto
  qed
qed

lemma answers_scan:
  assumes "\<And>s. op s = (case sql s of (r, s1) \<Rightarrow>
     (case r of Inl e \<Rightarrow> (Inl (h e), s1)
      | Inr _ \<Rightarrow> (case scan_rows m (rows (db s1)) s1 of (r2, s2) \<Rightarrow>
          (case r2 of Inl e \<Rightarrow> (Inl e, s2) | Inr xs \<Rightarrow> (Inr (f xs), s2)))))"
  shows "answers op (\<lambda>d. f (rows d))"
  unfolding answers_def
proof (intro allI impI)
  fix s :: Store
  obtain r s1 where q: "sql s = (r, s1)" by fastforce
  note Q = sql_cases [OF q]
  obtain r2 s2 where t: "scan_rows m (rows (db s1)) s1 = (r2, s2)" by fastforce
  note S = scan_rows_cases [OF t]
  have s1: "faults s = [] \<Longrightarrow> s1 = s" using Q(3) by blast
  show "db (snd (op s)) = db s \<and>
      (case fst (op s) of Inr x \<Rightarrow> x = f (rows (db s)) | Inl _ \<Rightarrow> faults s \<noteq> []) \<and>
      (faults s = [] \<longrightarrow> snd (op s) = s)"
    using q t Q S s1 by (cases r; cases r2) (auto simp: assms)
qed

lemma EntriesFrom_answers: "answers (EntriesFrom start limit) (entries_from start limit)"
proof -
  let ?st = "\<lambda>x :: u64 \<times> u64. if start \<le> fst x then fst x + 1 else start"
  let ?li = "if limit \<le> 0 then - 1 else limit"
  let ?rows = "\<lambda>x d. sql_limit ?li (select_ordered (\<lambda>i. int64 (?st x) \<le> i) (log_entries d))"
  let ?q = "\<lambda>x s. (case sql s of (r, s1) \<Rightarrow>
     (case r of Inl e \<Rightarrow> (Inl (Errorf ''read entries from %d: %w'' e), s1)
      | Inr _ \<Rightarrow> (case scan_rows ''scan entry: %w'' (?rows x (db s1)) s1 of (r2, s2) \<Rightarrow>
          (case r2 of Inl e \<Rightarrow> (Inl e, s2) | Inr xs \<Rightarrow> (Inr (map entry_of_row xs), s2)))))"
  have "answers (?q x) (\<lambda>d. map entry_of_row (?rows x d))" for x
    by (rule answers_scan [where h = "Errorf ''read entries from %d: %w''"]) (rule refl)
  then have "answers (EntriesFrom start limit)
      (\<lambda>d. map entry_of_row (?rows (snap_index d, snap_term d) d))"
    by (rule answers_then [OF SnapshotIndexTerm_answers, where h = id])
       (auto simp: EntriesFrom_def Let_def split: prod.split sum.split)
  moreover have "(\<lambda>d. map entry_of_row (?rows (snap_index d, snap_term d) d)) = entries_from start limit"
    by (auto simp: fun_eq_iff entries_from_def Let_def)
  ultimately show ?thesis by simp
qed

lemma Store_All_answers: "answers Store_All kv_state"
  unfolding kv_state_def [abs_def]
  by (rule answers_scan [where f = "\<lambda>rows. upsert_all rows []" and m = "''scan key/value: %w''"
        and h = "Errorf ''read state machine: %w''"])
     (auto simp: Store_All_def split: prod.split sum.split)

lemmas store_answers =
  CurrentTermVote_answers LastApplied_answers SnapshotIndexTerm_answers LastIndexAndTerm_answers
  LoadSnapshot_answers Store_Entry_answers Store_Get_answers Store_Term_answers
  EntriesFrom_answers Store_All_answers

section \<open>Write operations\<close>

lemma does_Exec: "does (Exec f) f"
  unfolding does_def
proof
  fix s :: Store
  obtain r s1 where q: "sql s = (r, s1)" by fastforce
  from sql_cases [OF q] q
  show "(case fst (Exec f s) of Inr _ \<Rightarrow> db (snd (Exec f s)) = f (db s) | Inl _ \<Rightarrow> faults s \<noteq> [])
      \<and> (faults s = [] \<longrightarrow> snd (Exec f s) = s\<lparr>db := f (db s)\<rparr>)"
    by (cases r) (auto simp: Exec_def)
qed

lemma commits_Exec: "commits (Exec f) f"
proof -
  have "db (snd (Exec f s)) = db s" if "isl (fst (Exec f s))" for s
  proof -
    obtain r s1 where q: "sql s = (r, s1)" by fastforce
    from sql_cases [OF q] q that show ?thesis
      by (cases r) (auto simp: Exec_def)
  qed
  then show ?thesis by (simp add: commits_def does_Exec)
qed

lemma does_skip: "does (\<lambda>s. (Inr (), s)) (\<lambda>d. d)"
  by (simp add: does_def)

lemma does_then:
  assumes "does p f" and "does q g"
    and "\<And>s. op s = (case p s of (r, s1) \<Rightarrow> (case r of Inl e \<Rightarrow> (Inl (h e), s1) | Inr _ \<Rightarrow> q s1))"
  shows "does op (\<lambda>d. g (f d))"
  unfolding does_def
proof
  fix s :: Store
  obtain r s1 where p: "p s = (r, s1)" by fastforce
  note P = doesD [OF assms(1) p]
  show "(case fst (op s) of Inr _ \<Rightarrow> db (snd (op s)) = g (f (db s)) | Inl _ \<Rightarrow> faults s \<noteq> [])
      \<and> (faults s = [] \<longrightarrow> snd (op s) = s\<lparr>db := g (f (db s))\<rparr>)"
  proof (cases r)
    case (Inl e)
    with P p show ?thesis by (auto simp: assms(3))
  next
    case (Inr u)
    obtain r2 s2 where q: "q s1 = (r2, s2)" by fastforce
    note Q = doesD [OF assms(2) q]
    have op: "op s = (r2, s2)" using p q Inr by (simp add: assms(3))
    have clean: "faults s = [] \<Longrightarrow> s1 = s\<lparr>db := f (db s)\<rparr>" using P(3) by blast
    have d1: "db s1 = f (db s)" using P(1) Inr by blast
    show ?thesis
    proof (cases r2)
      case (Inl e)
      with Q(2) clean have "faults s \<noteq> []" by auto
      with op Inl show ?thesis by simp
    next
      case (Inr y)
      have "faults s = [] \<Longrightarrow> s2 = s\<lparr>db := g (f (db s))\<rparr>" using Q(3) clean by simp
      with op Inr Q(1) d1 show ?thesis by simp
    qed
  qed
qed

lemma commits_inTx:
  assumes "does fn f"
  shows "commits (inTx fn) f"
proof -
  have main: "(case fst (inTx fn s) of Inr _ \<Rightarrow> db (snd (inTx fn s)) = f (db s) | Inl _ \<Rightarrow> faults s \<noteq> [])
      \<and> (faults s = [] \<longrightarrow> snd (inTx fn s) = s\<lparr>db := f (db s)\<rparr>)
      \<and> (isl (fst (inTx fn s)) \<longrightarrow> db (snd (inTx fn s)) = db s)" for s
  proof -
    obtain r1 s1 where b: "sql s = (r1, s1)" by fastforce
    note B = sql_cases [OF b]
    obtain r2 s2 where t: "fn s1 = (r2, s2)" by fastforce
    note T = doesD [OF assms t]
    obtain r3 s3 where c: "sql s2 = (r3, s3)" by fastforce
    note C = sql_cases [OF c]
    have s1: "faults s = [] \<Longrightarrow> s1 = s" using B(3) by blast
    have s2: "faults s = [] \<Longrightarrow> s2 = s\<lparr>db := f (db s)\<rparr>" using T(3) s1 by auto
    have s3: "faults s = [] \<Longrightarrow> s3 = s\<lparr>db := f (db s)\<rparr>" using C(3) s2 by auto
    show ?thesis
    proof (cases r1)
      case (Inl e)
      with b B show ?thesis by (auto simp: inTx_def)
    next
      case i1: (Inr u)
      show ?thesis
      proof (cases r2)
        case (Inl e)
        with T(2) s1 have "faults s \<noteq> []" by auto
        with b t i1 Inl B(1) show ?thesis by (simp add: inTx_def)
      next
        case i2: (Inr v)
        show ?thesis
        proof (cases r3)
          case (Inl e)
          with C(2) s2 have "faults s \<noteq> []" by auto
          with b t c i1 i2 Inl B(1) show ?thesis by (simp add: inTx_def)
        next
          case (Inr w)
          with b t c i1 i2 C(1) T(1) B(1) s3 show ?thesis by (simp add: inTx_def)
        qed
      qed
    qed
  qed
  then show ?thesis unfolding commits_def does_def by blast
qed

lemma does_setMeta: "does (setMeta k v) (put_meta k v)"
proof -
  have "does (setMeta k v) (\<lambda>d. (\<lambda>d. d) (put_meta k v d))"
    by (rule does_then [OF does_Exec does_skip, where h = "Errorf ''write metadata %s: %w''"])
       (auto simp: setMeta_def put_meta_def [abs_def] split: prod.split sum.split)
  then show ?thesis by simp
qed

lemma SaveTermVote_commits: "commits (SaveTermVote t v) (put_term_vote t v)"
  unfolding SaveTermVote_def put_term_vote_def [abs_def]
  by (rule commits_inTx, rule does_then [OF does_setMeta does_setMeta])
     (auto split: prod.split sum.split)

lemma does_append_rows: "does (append_rows es) (put_entries es)"
proof (induction es)
  case Nil
  have "append_rows [] = (\<lambda>s. (Inr (), s))" and "put_entries [] = (\<lambda>d. d)"
    by (simp_all add: fun_eq_iff put_entries_def)
  then show ?case by (simp add: does_skip)
next
  case (Cons e es)
  let ?f = "\<lambda>d. d\<lparr>log_entries := upsert (int64 (Entry_Index e))
                  (int64 (Entry_Term e), Entry_Command e) (log_entries d)\<rparr>"
  have "does (append_rows (e # es)) (\<lambda>d. put_entries es (?f d))"
    by (rule does_then [OF does_Exec Cons.IH]) (auto split: prod.split sum.split)
  moreover have "(\<lambda>d. put_entries es (?f d)) = put_entries (e # es)"
    by (simp add: fun_eq_iff put_entries_def)
  ultimately show ?case by (simp only:)
qed

lemma Store_AppendEntries_commits: "commits (Store_AppendEntries es) (put_entries es)"
proof (cases "es = []")
  case True
  then have "Store_AppendEntries es = (\<lambda>s. (Inr (), s))" and "put_entries es = (\<lambda>d. d)"
    by (simp_all add: fun_eq_iff Store_AppendEntries_def put_entries_def)
  then show ?thesis by (simp add: commits_def does_skip)
next
  case False
  then have "Store_AppendEntries es = inTx (append_rows es)"
    by (simp add: fun_eq_iff Store_AppendEntries_def)
  then show ?thesis by (simp add: commits_inTx does_append_rows)
qed

lemma DeleteFrom_commits: "commits (DeleteFrom i) (drop_from i)"
proof -
  have eq: "DeleteFrom i s = (case Exec (drop_from i) s of (r, s1) \<Rightarrow>
      (case r of Inl e \<Rightarrow> (Inl (Errorf ''delete entries from %d: %w'' e), s1) | Inr _ \<Rightarrow> (Inr (), s1)))" for s
    by (auto simp: DeleteFrom_def drop_from_def [abs_def] split: prod.split sum.split)
  have "does (DeleteFrom i) (\<lambda>d. (\<lambda>d. d) (drop_from i d))"
    by (rule does_then [OF does_Exec does_skip]) (rule eq)
  moreover have "db (snd (DeleteFrom i s)) = db s" if "isl (fst (DeleteFrom i s))" for s
  proof -
    obtain r s1 where e: "Exec (drop_from i) s = (r, s1)" by fastforce
    from commitsD(2) [OF commits_Exec e] that e show ?thesis
      by (cases r) (auto simp: eq)
  qed
  ultimately show ?thesis by (simp add: commits_def)
qed

lemma ApplySet_commits: "commits (ApplySet i k v) (apply_set i k v)"
  unfolding ApplySet_def apply_set_def [abs_def]
  by (rule commits_inTx, rule does_then [OF does_Exec does_setMeta])
     (auto split: prod.split sum.split)

lemma ApplyDelete_commits: "commits (ApplyDelete i k) (apply_delete i k)"
  unfolding ApplyDelete_def apply_delete_def [abs_def]
  by (rule commits_inTx, rule does_then [OF does_Exec does_setMeta])
     (auto split: prod.split sum.split)

lemma SkipTo_commits: "commits (SkipTo i) (put_meta ''last_applied'' (FormatUint i))"
  unfolding SkipTo_def by (rule commits_inTx [OF does_setMeta])

lemma does_saveSnapshot: "does (saveSnapshot sn) (put_snapshot sn)"
  unfolding put_snapshot_def [abs_def]
  by (rule does_then [OF does_Exec does_then [OF does_setMeta does_then [OF does_setMeta does_setMeta]]])
     (auto simp: saveSnapshot_def split: prod.split sum.split)

lemma does_compactLog: "does (compactLog i) (drop_through i)"
proof -
  have "does (compactLog i) (\<lambda>d. (\<lambda>d. d) (drop_through i d))"
    by (rule does_then [OF does_Exec does_skip, where h = "Errorf ''compact log through %d: %w''"])
       (auto simp: compactLog_def drop_through_def [abs_def] split: prod.split sum.split)
  then show ?thesis by simp
qed

lemma does_restore_rows:
  "does (restore_rows i kvs) (\<lambda>d. d\<lparr>kv := upsert_all (map (\<lambda>(k, v). (k, v, int64 i)) kvs) (kv d)\<rparr>)"
proof (induction kvs)
  case Nil
  then show ?case by (simp add: does_def)
next
  case (Cons x kvs)
  obtain k v where x: "x = (k, v)" by (cases x)
  have "does (restore_rows i (x # kvs))
     (\<lambda>d. (\<lambda>d. d\<lparr>kv := upsert_all (map (\<lambda>(k, v). (k, v, int64 i)) kvs) (kv d)\<rparr>)
            ((\<lambda>d. d\<lparr>kv := upsert k (v, int64 i) (kv d)\<rparr>) d))"
    by (rule does_then [OF does_Exec Cons.IH]) (auto simp: x split: prod.split sum.split)
  then show ?case by (simp add: x del: restore_rows.simps)
qed

lemma CreateSnapshot_cases:
  assumes ok: "meta_ok (db s)" and run: "CreateSnapshot i t s = (r, s')"
  defines "sn \<equiv> snapshot_now i t (db s)"
  shows "\<And>x. r = Inr x \<Longrightarrow> x = sn \<and> db s' = drop_through i (put_snapshot sn (db s))"
    and "\<And>e. r = Inl e \<Longrightarrow> db s' = db s \<and> faults s \<noteq> []"
    and "faults s = [] \<Longrightarrow> r = Inr sn \<and> s' = s\<lparr>db := drop_through i (put_snapshot sn (db s))\<rparr>"
proof -
  obtain r1 s1 where a: "Store_All s = (r1, s1)" by fastforce
  note A = answersD [OF Store_All_answers ok a]
  let ?tx = "\<lambda>sn tx. case saveSnapshot sn tx of (Inl e, tx1) \<Rightarrow> (Inl e, tx1) | (Inr _, tx1) \<Rightarrow> compactLog i tx1"
  have tx: "commits (inTx (?tx sn)) (\<lambda>d. drop_through i (put_snapshot sn d))" for sn
    by (rule commits_inTx, rule does_then [OF does_saveSnapshot does_compactLog, where h = id])
       (auto split: prod.split sum.split)
  have all: "(\<forall>x. r = Inr x \<longrightarrow> x = sn \<and> db s' = drop_through i (put_snapshot sn (db s)))
      \<and> (\<forall>e. r = Inl e \<longrightarrow> db s' = db s \<and> faults s \<noteq> [])
      \<and> (faults s = [] \<longrightarrow> r = Inr sn \<and> s' = s\<lparr>db := drop_through i (put_snapshot sn (db s))\<rparr>)"
  proof (cases r1)
    case (Inl e)
    with A run a show ?thesis by (auto simp: CreateSnapshot_def)
  next
    case (Inr state)
    then have sn: "\<lparr>LastIncludedIndex = i, LastIncludedTerm = t, Snapshot_Data = json_marshal_map state\<rparr> = sn"
      using A(2) by (simp add: sn_def snapshot_now_def)
    obtain r2 s2 where b: "inTx (?tx sn) s1 = (r2, s2)" by fastforce
    note B = commitsD [OF tx b]
    have s1: "faults s = [] \<Longrightarrow> s1 = s" using A(4) by blast
    from run a b Inr have "(r, s') = (case r2 of Inl e \<Rightarrow> (Inl e, s2) | Inr _ \<Rightarrow> (Inr sn, s2))"
      by (simp add: CreateSnapshot_def sn split: sum.split)
    with B s1 A(1) show ?thesis by (cases r2) auto
  qed
  then show "\<And>x. r = Inr x \<Longrightarrow> x = sn \<and> db s' = drop_through i (put_snapshot sn (db s))"
    and "\<And>e. r = Inl e \<Longrightarrow> db s' = db s \<and> faults s \<noteq> []"
    and "faults s = [] \<Longrightarrow> r = Inr sn \<and> s' = s\<lparr>db := drop_through i (put_snapshot sn (db s))\<rparr>"
    by blast+
qed

lemma Store_InstallSnapshot_commits:
  assumes "snapshot_state sn = Inr state"
  shows "commits (Store_InstallSnapshot sn) (restore sn state)"
proof -
  have "Store_InstallSnapshot sn =
      inTx (\<lambda>tx. case Exec (\<lambda>d. d\<lparr>kv := delete_where (\<lambda>_. True) (kv d)\<rparr>) tx of
             (Inl e, tx1) \<Rightarrow> (Inl (Errorf ''clear state machine: %w'' e), tx1)
           | (Inr _, tx1) \<Rightarrow>
               (case restore_rows (LastIncludedIndex sn) state tx1 of
                  (Inl e, tx2) \<Rightarrow> (Inl e, tx2)
                | (Inr _, tx2) \<Rightarrow>
                    (case saveSnapshot sn tx2 of
                       (Inl e, tx3) \<Rightarrow> (Inl e, tx3)
                     | (Inr _, tx3) \<Rightarrow> compactLog (LastIncludedIndex sn) tx3)))"
    using assms by (simp add: fun_eq_iff Store_InstallSnapshot_def snapshot_state_def)
  moreover have "restore sn state = (\<lambda>d. drop_through (LastIncludedIndex sn) (put_snapshot sn
      ((\<lambda>d. d\<lparr>kv := upsert_all (map (\<lambda>(k, v). (k, v, int64 (LastIncludedIndex sn))) state) (kv d)\<rparr>)
       ((\<lambda>d. d\<lparr>kv := delete_where (\<lambda>_. True) (kv d)\<rparr>) d))))"
    by (simp add: fun_eq_iff restore_def)
  ultimately show ?thesis
    by (simp only:)
       (rule commits_inTx,
        rule does_then [OF does_Exec does_then [OF does_restore_rows
          does_then [OF does_saveSnapshot does_compactLog, where h = id], where h = id]],
        auto split: prod.split sum.split)
qed

lemma Store_InstallSnapshot_undecodable:
  "snapshot_state sn = Inl e \<Longrightarrow> Store_InstallSnapshot sn s = (Inl (Errorf ''decode snapshot: %w'' e), s)"
  by (auto simp: snapshot_state_def Store_InstallSnapshot_def split: if_splits)

lemmas store_commits =
  SaveTermVote_commits Store_AppendEntries_commits DeleteFrom_commits ApplySet_commits
  ApplyDelete_commits SkipTo_commits

section \<open>Views after an effect\<close>

lemma meta_string_put_meta [view_simps]:
  "meta_string (put_meta k v d) k' = (if k' = k then v else meta_string d k')"
  by (simp add: meta_string_def put_meta_def lookup_upsert)

lemma meta_u64_put_meta [view_simps]:
  "meta_u64 (put_meta k (FormatUint n) d) k' = (if k' = k then n else meta_u64 d k')"
  by (simp add: meta_u64_def meta_string_put_meta)

lemma meta_u64_put_voted_for [view_simps]:
  "k \<noteq> ''voted_for'' \<Longrightarrow> meta_u64 (put_meta ''voted_for'' v d) k = meta_u64 d k"
  by (simp add: meta_u64_def meta_string_put_meta)

lemma put_meta_tables [view_simps]:
  "log_entries (put_meta k v d) = log_entries d" "kv (put_meta k v d) = kv d"
  "snapshot (put_meta k v d) = snapshot d"
  by (simp_all add: put_meta_def)

lemma put_term_vote_tables [view_simps]:
  "log_entries (put_term_vote t v d) = log_entries d" "kv (put_term_vote t v d) = kv d"
  "snapshot (put_term_vote t v d) = snapshot d"
  by (simp_all add: put_term_vote_def view_simps)

lemma log_effect_meta [view_simps]:
  "metadata (put_entries es d) = metadata d" "kv (put_entries es d) = kv d"
  "snapshot (put_entries es d) = snapshot d"
  "metadata (drop_from i d) = metadata d" "kv (drop_from i d) = kv d"
  "snapshot (drop_from i d) = snapshot d"
  "metadata (drop_through i d) = metadata d" "kv (drop_through i d) = kv d"
  "snapshot (drop_through i d) = snapshot d"
  by (simp_all add: put_entries_def drop_from_def drop_through_def)

lemma meta_cong: "metadata d = metadata d' \<Longrightarrow> meta_u64 d k = meta_u64 d' k \<and> meta_string d k = meta_string d' k"
  by (simp add: meta_u64_def meta_string_def)

lemma meta_log_effect [view_simps]:
  "meta_u64 (put_entries es d) k = meta_u64 d k" "meta_string (put_entries es d) k = meta_string d k"
  "meta_u64 (drop_from i d) k = meta_u64 d k" "meta_string (drop_from i d) k = meta_string d k"
  "meta_u64 (drop_through i d) k = meta_u64 d k" "meta_string (drop_through i d) k = meta_string d k"
  by (simp_all add: meta_u64_def meta_string_def view_simps)

lemma meta_put_term_vote [view_simps]:
  "meta_u64 (put_term_vote t v d) k =
     (if k = ''voted_for'' then (case ParseUint v of Inr n \<Rightarrow> n | Inl _ \<Rightarrow> 0)
      else if k = ''current_term'' then t else meta_u64 d k)"
  "meta_string (put_term_vote t v d) ''voted_for'' = v"
  by (simp_all add: put_term_vote_def view_simps meta_u64_def)

lemma log_kv_effect [view_simps]:
  "log_entries (apply_set i k v d) = log_entries d" "log_entries (apply_delete i k d) = log_entries d"
  "snapshot (apply_set i k v d) = snapshot d" "snapshot (apply_delete i k d) = snapshot d"
  "log_entries (put_snapshot sn d) = log_entries d" "kv (put_snapshot sn d) = kv d"
  by (simp_all add: apply_set_def apply_delete_def put_snapshot_def view_simps)

lemma meta_kv_upd [view_simps]:
  "meta_u64 (d\<lparr>kv := x\<rparr>) k = meta_u64 d k" "meta_string (d\<lparr>kv := x\<rparr>) k = meta_string d k"
  "meta_u64 (d\<lparr>snapshot := y\<rparr>) k = meta_u64 d k" "meta_string (d\<lparr>snapshot := y\<rparr>) k = meta_string d k"
  by (simp_all add: meta_u64_def meta_string_def)

lemma meta_apply [view_simps]:
  "meta_u64 (apply_set i k v d) m = (if m = ''last_applied'' then i else meta_u64 d m)"
  "meta_u64 (apply_delete i k d) m = (if m = ''last_applied'' then i else meta_u64 d m)"
  "meta_u64 (put_snapshot sn d) m =
     (if m = ''last_applied'' \<or> m = ''snapshot_index'' then LastIncludedIndex sn
      else if m = ''snapshot_term'' then LastIncludedTerm sn else meta_u64 d m)"
  by (simp_all add: apply_set_def apply_delete_def put_snapshot_def view_simps)

lemma meta_string_apply [view_simps]:
  "meta_string (apply_set i k v d) m = (if m = ''last_applied'' then FormatUint i else meta_string d m)"
  "meta_string (apply_delete i k d) m = (if m = ''last_applied'' then FormatUint i else meta_string d m)"
  "meta_string (put_snapshot sn d) ''voted_for'' = meta_string d ''voted_for''"
  by (simp_all add: apply_set_def apply_delete_def put_snapshot_def view_simps)

lemma kv_get_cong: "kv d = kv d' \<Longrightarrow> kv_get d k = kv_get d' k"
  by (simp add: kv_get_def)

lemma kv_get_effect [view_simps]:
  "kv_get (put_meta m x d) k = kv_get d k" "kv_get (put_entries es d) k = kv_get d k"
  "kv_get (drop_from i d) k = kv_get d k" "kv_get (drop_through i d) k = kv_get d k"
  "kv_get (put_term_vote t v d) k = kv_get d k" "kv_get (put_snapshot sn d) k = kv_get d k"
  "kv_get (apply_set i j v d) k = (if k = j then Some v else kv_get d k)"
  "kv_get (apply_delete i j d) k = (if k = j then None else kv_get d k)"
  by (simp_all add: kv_get_def view_simps apply_set_def apply_delete_def lookup_upsert lookup_delete_where)

section \<open>Every operation keeps the tables well formed\<close>

lemma meta_ok_put_meta:
  "meta_ok d \<Longrightarrow> k = ''voted_for'' \<or> (\<exists>n. v = FormatUint n) \<Longrightarrow> meta_ok (put_meta k v d)"
proof -
  assume ok: "meta_ok d" and v: "k = ''voted_for'' \<or> (\<exists>n. v = FormatUint n)"
  have look: "lookup (metadata (put_meta k v d)) k' \<noteq> None" if "lookup (metadata d) k' \<noteq> None" for k'
    using that by (simp add: put_meta_def lookup_upsert)
  have num: "\<not> isl (ParseUint (meta_string (put_meta k v d) k'))"
    if "\<not> isl (ParseUint (meta_string d k'))" and "k' \<noteq> ''voted_for''" for k'
    using that v by (cases "k' = k") (auto simp: meta_string_put_meta)
  show ?thesis
    using ok unfolding meta_ok_def list.pred_inject by (intro conjI num look; simp)
qed

lemma db_ok_put_meta:
  "db_ok d \<Longrightarrow> k = ''voted_for'' \<or> (\<exists>n. v = FormatUint n) \<Longrightarrow> db_ok (put_meta k v d)"
  by (simp add: db_ok_def meta_ok_put_meta view_simps) (simp add: put_meta_def table_ok_upsert)

lemma meta_ok_cong: "metadata d = metadata d' \<Longrightarrow> meta_ok d = meta_ok d'"
  by (simp add: meta_ok_def meta_string_def)

lemma db_ok_log:
  "db_ok d \<Longrightarrow> table_ok t \<Longrightarrow> db_ok (d\<lparr>log_entries := t\<rparr>)"
  using meta_ok_cong [of "d\<lparr>log_entries := t\<rparr>" d] by (simp add: db_ok_def)

lemma db_ok_kv: "db_ok d \<Longrightarrow> table_ok t \<Longrightarrow> db_ok (d\<lparr>kv := t\<rparr>)"
  using meta_ok_cong [of "d\<lparr>kv := t\<rparr>" d] by (simp add: db_ok_def)

lemma db_ok_snapshot: "db_ok d \<Longrightarrow> db_ok (d\<lparr>snapshot := x\<rparr>)"
  using meta_ok_cong [of "d\<lparr>snapshot := x\<rparr>" d] by (simp add: db_ok_def)

lemma db_okD [dest]:
  "db_ok d \<Longrightarrow> table_ok (metadata d)" "db_ok d \<Longrightarrow> table_ok (log_entries d)"
  "db_ok d \<Longrightarrow> table_ok (kv d)" "db_ok d \<Longrightarrow> meta_ok d"
  by (simp_all add: db_ok_def)

lemma db_ok_drop_through: "db_ok d \<Longrightarrow> db_ok (drop_through i d)"
  unfolding drop_through_def by (intro db_ok_log table_ok_delete_where db_okD)

lemma db_ok_put_snapshot: "db_ok d \<Longrightarrow> db_ok (put_snapshot sn d)"
  unfolding put_snapshot_def by (intro db_ok_put_meta db_ok_snapshot disjI2 exI) (rule refl | assumption)+

lemma db_ok_put_term_vote: "db_ok d \<Longrightarrow> db_ok (put_term_vote t v d)"
  unfolding put_term_vote_def by (auto intro!: db_ok_put_meta)

lemma db_ok_put_entries: "db_ok d \<Longrightarrow> db_ok (put_entries es d)"
  unfolding put_entries_def by (intro db_ok_log table_ok_upsert_all db_okD)

lemma db_ok_drop_from: "db_ok d \<Longrightarrow> db_ok (drop_from i d)"
  unfolding drop_from_def by (intro db_ok_log table_ok_delete_where db_okD)

lemma db_ok_apply_set: "db_ok d \<Longrightarrow> db_ok (apply_set i k v d)"
  unfolding apply_set_def
  by (rule db_ok_put_meta) (auto intro: db_ok_kv table_ok_upsert)

lemma db_ok_apply_delete: "db_ok d \<Longrightarrow> db_ok (apply_delete i k d)"
  unfolding apply_delete_def
  by (rule db_ok_put_meta) (auto intro: db_ok_kv table_ok_delete_where)

lemma db_ok_last_applied: "db_ok d \<Longrightarrow> db_ok (put_meta ''last_applied'' (FormatUint i) d)"
  by (rule db_ok_put_meta) auto

lemma db_ok_restore: "db_ok d \<Longrightarrow> db_ok (restore sn state d)"
  unfolding restore_def
  by (intro db_ok_drop_through db_ok_put_snapshot db_ok_kv table_ok_upsert_all table_ok_delete_where) auto

lemmas db_ok_effects =
  db_ok_put_term_vote db_ok_put_entries db_ok_drop_from db_ok_drop_through db_ok_apply_set
  db_ok_apply_delete db_ok_last_applied db_ok_put_snapshot db_ok_restore

text \<open>The state that a snapshot encodes is the key-value table.\<close>

lemma kv_state_rows: "db_ok d \<Longrightarrow> kv_state d = map (\<lambda>(k, v, _). (k, v)) (kv d)"
proof -
  assume "db_ok d"
  then have ok: "table_ok (kv d)" by blast
  have "table_ok (map (\<lambda>(k, v, _). (k, v)) (kv d))"
    using ok by (simp add: table_ok_def comp_def case_prod_unfold)
  moreover have "select_ordered (\<lambda>_. True) (kv d) = kv d"
    using select_ordered_ok [OF ok, of "\<lambda>_. True"] by (simp add: case_prod_unfold)
  ultimately show ?thesis
    by (simp add: kv_state_def upsert_all_self)
qed

lemma lookup_map_rows: "lookup (map (\<lambda>(k, v). (k, f v)) t) k = map_option f (lookup t k)"
  by (induction t) (auto simp: lookup_def)

lemma lookup_kv_state: "db_ok d \<Longrightarrow> lookup (kv_state d) k = kv_get d k"
  using lookup_map_rows [of fst "kv d" k]
  by (simp add: kv_state_rows kv_get_def case_prod_unfold)

lemma table_ok_kv_state: "db_ok d \<Longrightarrow> table_ok (kv_state d)"
  by (auto simp: kv_state_rows table_ok_def comp_def case_prod_unfold)

lemma kv_get_restore:
  assumes "db_ok d" and "table_ok state"
  shows "kv_get (restore sn state d) k = lookup state k"
proof -
  have "table_ok (map (\<lambda>(k, v). (k, v, int64 (LastIncludedIndex sn))) state)"
    using assms(2) by (simp add: table_ok_def comp_def case_prod_unfold)
  note m = map_of_rev_table [OF this]
  have "table_ok (delete_where (\<lambda>_. True) (kv d))"
    using assms(1) table_ok_delete_where by blast
  note l = lookup_upsert_all [OF this]
  show ?thesis
    using lookup_map_rows [of "\<lambda>v. (v, int64 (LastIncludedIndex sn))" state k]
    by (simp add: restore_def kv_get_def view_simps l m lookup_delete_where option.map_comp comp_def
        option.map_ident split: option.split)
qed

lemma restore_views [view_simps]:
  "meta_u64 (restore sn state d) m = meta_u64 (put_snapshot sn d) m"
  "log_entries (restore sn state d) = delete_where (\<lambda>k. k \<le> int64 (LastIncludedIndex sn)) (log_entries d)"
  "saved_snapshot (restore sn state d) = sn"
  by (simp_all add: restore_def view_simps)
     (simp_all add: drop_through_def put_snapshot_def saved_snapshot_def view_simps)

lemma snapshot_state_now:
  assumes "db_ok d" and "utf8_map (kv_state d)"
  shows "snapshot_state (snapshot_now i t d) = Inr (kv_state d)"
  using assms
  by (simp add: snapshot_state_def snapshot_now_def json_map_roundtrip table_ok_kv_state)
     (auto simp: json_marshal_map_def json_object_def)

section \<open>Opening a store\<close>

lemma does_create_tables: "does (create_tables ts) (\<lambda>d. d)"
proof (induction ts)
  case Nil
  then show ?case using does_skip by simp
next
  case (Cons t ts)
  show ?case
    by (rule does_then [OF does_Exec Cons.IH, where h = "Errorf ''create schema: %w''"])
       (auto split: prod.split sum.split)
qed

lemma does_seed_metadata: "does (seed_metadata kvs) (seeded kvs)"
proof (induction kvs)
  case Nil
  then show ?case using does_skip by (simp add: seeded_def)
next
  case (Cons r kvs)
  obtain k v where r: "r = (k, v)" by (cases r)
  have "seeded (r # kvs) = (\<lambda>d. seeded kvs (d\<lparr>metadata := insert_or_ignore k v (metadata d)\<rparr>))"
    by (simp add: seeded_def r fun_eq_iff)
  then show ?case
    by (simp only:)
       (rule does_then [OF does_Exec Cons.IH, where h = "Errorf ''seed metadata %s: %w''"],
        auto simp: r split: prod.split sum.split)
qed

lemma does_Store_init: "does (Store_init order) (seeded order)"
  by (rule does_then [OF does_create_tables [of schema_tables] does_seed_metadata, where h = id])
     (auto simp: Store_init_def split: prod.split sum.split)

lemma lookup_seeded:
  "lookup (metadata (seeded order d)) k =
     (case lookup (metadata d) k of Some v \<Rightarrow> Some v | None \<Rightarrow> map_of order k)"
proof -
  have "lookup (fold (\<lambda>(k, v). insert_or_ignore k v) order t) k =
      (case lookup t k of Some v \<Rightarrow> Some v | None \<Rightarrow> map_of order k)" for t
  proof (induction order arbitrary: t)
    case (Cons r order)
    obtain a b where r: "r = (a, b)" by (cases r)
    have "lookup (insert_or_ignore a b t) k =
        (case lookup t k of Some v \<Rightarrow> Some v | None \<Rightarrow> if k = a then Some b else None)"
      by (auto simp: insert_or_ignore_def lookup_upsert split: option.split)
    then show ?case by (simp add: r Cons.IH split: option.split)
  qed (simp split: option.split)
  then show ?thesis by (simp add: seeded_def)
qed

lemma table_ok_seeded: "table_ok (metadata d) \<Longrightarrow> table_ok (metadata (seeded order d))"
proof -
  have "table_ok t \<Longrightarrow> table_ok (fold (\<lambda>(k, v). insert_or_ignore k v) order t)" for t
    by (induction order arbitrary: t) (auto simp: insert_or_ignore_def table_ok_upsert)
  then show "table_ok (metadata d) \<Longrightarrow> table_ok (metadata (seeded order d))"
    by (simp add: seeded_def)
qed

lemma defaults_order_map_of: "defaults_order order \<Longrightarrow> map_of order = map_of metadata_defaults"
  by (rule map_of_inject_set [THEN iffD2])
     (auto simp: defaults_order_def metadata_defaults_def)

lemma seeded_tables [simp]:
  "log_entries (seeded order d) = log_entries d" "kv (seeded order d) = kv d"
  "snapshot (seeded order d) = snapshot d"
  by (simp_all add: seeded_def)

lemma meta_ok_lookup: "meta_ok d \<Longrightarrow> map_of metadata_defaults k \<noteq> None \<Longrightarrow> lookup (metadata d) k \<noteq> None"
  by (auto simp: meta_ok_def metadata_defaults_def split: if_splits)

text \<open>The order of the map iteration is immaterial, and an initialised database is left as it is.\<close>

lemma seeded_order:
  "table_ok (metadata d) \<Longrightarrow> defaults_order order \<Longrightarrow> seeded order d = seeded metadata_defaults d"
proof -
  assume ok: "table_ok (metadata d)" and o: "defaults_order order"
  have "metadata (seeded order d) = metadata (seeded metadata_defaults d)"
    using ok o by (intro table_ext table_ok_seeded) (simp_all add: lookup_seeded defaults_order_map_of fun_eq_iff
        split: option.split)
  then show ?thesis by (simp add: seeded_def)
qed

lemma seeded_ok: "db_ok d \<Longrightarrow> defaults_order order \<Longrightarrow> seeded order d = d"
proof -
  assume ok: "db_ok d" and o: "defaults_order order"
  have "lookup (metadata (seeded order d)) k = lookup (metadata d) k" for k
    using meta_ok_lookup [OF db_okD(4) [OF ok], of k]
    by (cases "lookup (metadata d) k"; cases "map_of metadata_defaults k") (simp_all add: lookup_seeded defaults_order_map_of [OF o])
  then have "metadata (seeded order d) = metadata d"
    using db_okD(1) [OF ok] by (intro table_ext table_ok_seeded) auto
  then show ?thesis by (simp add: seeded_def)
qed

lemma ParseUint_zero: "ParseUint ''0'' = Inr 0"
proof -
  have "digit_char 0 = CHR ''0''"
    by (simp add: digit_char_def char_of_eq_iff)
  then show ?thesis
    using ParseUint_FormatUint [of 0] by (simp add: FormatUint_def format_nat.simps)
qed

lemma db_ok_seeded_empty: "db_ok (seeded metadata_defaults empty_db)"
  by (simp add: db_ok_def table_ok_seeded empty_db_def meta_ok_def meta_string_def lookup_seeded)
     (simp add: metadata_defaults_def ParseUint_zero)

end
