(* ===== verification/Raft_Log.thy ===== *)
theory Raft_Log imports Store_Laws
begin

text \<open>
  The replicated log of a node as the store keeps it: the rows of \<open>log_entries\<close> are the
  consecutive indices after the snapshot.  The theory states this shape, what the views of
  \<open>Store_Laws\<close> are on it, and that appending at the end, truncating and compacting keep it.
\<close>

definition last_index :: "db \<Rightarrow> u64" where
  "last_index d = fst (last_entry d)"

text \<open>
  Consecutive indices, none above \<open>math.MaxInt64\<close> (the casts to SQL integers are monotone up to
  there), and no snapshot at index 0 with a term.
\<close>

definition log_ok :: "db \<Rightarrow> bool" where
  "log_ok d \<longleftrightarrow>
     db_ok d \<and> snap_index d \<le> last_index d \<and> last_index d \<le> max_int64
     \<and> (snap_index d = 0 \<longrightarrow> snap_term d = 0)
     \<and> map fst (log_entries d) = [int64 (snap_index d) + 1 .. int64 (last_index d)]"

text \<open>The entries continue the log after position \<open>i\<close> without a gap.\<close>

fun follows :: "u64 \<Rightarrow> Entry list \<Rightarrow> bool" where
  "follows i [] = True"
| "follows i (e # es) = (i < max_int64 \<and> Entry_Index e = i + 1 \<and> follows (i + 1) es)"

fun end_index :: "u64 \<Rightarrow> Entry list \<Rightarrow> u64" where
  "end_index i [] = i"
| "end_index i (e # es) = end_index (Entry_Index e) es"

section \<open>Shape\<close>

lemma log_okD [dest]:
  "log_ok d \<Longrightarrow> db_ok d" "log_ok d \<Longrightarrow> snap_index d \<le> last_index d" "log_ok d \<Longrightarrow> last_index d \<le> max_int64"
  by (simp_all add: log_ok_def)

lemma log_ok_snap: "log_ok d \<Longrightarrow> snap_index d \<le> max_int64"
  by (meson log_okD order_trans)

lemma log_ok_snap_term: "log_ok d \<Longrightarrow> snap_index d = 0 \<Longrightarrow> snap_term d = 0"
  by (simp add: log_ok_def)

lemma log_ok_meta: "log_ok d \<Longrightarrow> meta_ok d"
  by blast

lemma log_keys: "log_ok d \<Longrightarrow> map fst (log_entries d) = [int64 (snap_index d) + 1 .. int64 (last_index d)]"
  by (simp add: log_ok_def)

lemma last_of_keys:
  assumes "db_ok d" and "map fst (log_entries d) = [int64 (snap_index d) + 1 .. int64 n]"
    and "snap_index d \<le> n" and "n \<le> max_int64"
  shows "last_index d = n"
proof (cases "log_entries d")
  case Nil
  with assms have "int64 n < int64 (snap_index d) + 1" by simp
  moreover have "int64 (snap_index d) \<le> int64 n"
    using assms(3,4) by (simp add: order_trans [OF assms(3,4)])
  ultimately have "int64 n = int64 (snap_index d)" by linarith
  with Nil show ?thesis
    by (simp add: last_index_def last_entry_def select_last_def)
next
  case (Cons r rs)
  then have ne: "log_entries d \<noteq> []" by simp
  then have "fst (last (log_entries d)) = last (map fst (log_entries d))"
    by (simp add: last_map)
  also have "\<dots> = int64 n"
    using assms(2) ne by (cases "int64 (snap_index d) + 1 \<le> int64 n") (simp_all add: upto_rec2)
  finally have "fst (last (log_entries d)) = int64 n" .
  moreover have "select_last (log_entries d) = Some (last (log_entries d))"
    using select_last_ok [OF db_okD(2) [OF assms(1)]] ne by simp
  ultimately show ?thesis
    by (cases "last (log_entries d)") (auto simp: last_index_def last_entry_def)
qed

lemma log_okI:
  assumes "db_ok d" and "map fst (log_entries d) = [int64 (snap_index d) + 1 .. int64 n]"
    and "snap_index d \<le> n" and "n \<le> max_int64" and "snap_index d = 0 \<Longrightarrow> snap_term d = 0"
  shows "log_ok d" and "last_index d = n"
  using last_of_keys [OF assms(1-4)] assms by (auto simp: log_ok_def)

lemma log_lookup:
  assumes "log_ok d"
  shows "lookup (log_entries d) k \<noteq> None \<longleftrightarrow> int64 (snap_index d) < k \<and> k \<le> int64 (last_index d)"
proof -
  have "lookup (log_entries d) k \<noteq> None \<longleftrightarrow> k \<in> set (map fst (log_entries d))"
    using lookup_keys [of "log_entries d" k] by simp
  then show ?thesis
    by (simp add: log_keys [OF assms]) linarith
qed

lemma log_lookup64:
  "log_ok d \<Longrightarrow> i \<le> max_int64 \<Longrightarrow>
     lookup (log_entries d) (int64 i) \<noteq> None \<longleftrightarrow> snap_index d < i \<and> i \<le> last_index d"
  using log_lookup [of d "int64 i"] by (simp add: log_ok_snap log_okD(3))

text \<open>Beyond the signed range no row is found: the cast makes the key negative.\<close>

lemma int64_neg: "max_int64 < i \<Longrightarrow> int64 i < 0"
proof -
  assume "max_int64 < i"
  then have "0x7FFFFFFFFFFFFFFF < uint i"
    by (simp add: max_int64_def word_less_def)
  then have "2 ^ 63 \<le> uint i" by simp
  moreover have "uint i < 2 ^ 64" using unsigned_less [of i] by simp
  ultimately have "uint i div 2 ^ 63 = 1"
    by (auto intro: div_pos_geq simp: div_pos_geq div_pos_pos_trivial)
  then show ?thesis
    by (simp add: int64_def sint_uint signed_take_bit_negative_iff bit_iff_odd)
qed

section \<open>Views\<close>

lemma int64_zero [simp]: "int64 0 = 0"
  by (simp add: int64_def)

lemma log_lookup_iff:
  assumes "log_ok d"
  shows "lookup (log_entries d) (int64 i) \<noteq> None \<longleftrightarrow> snap_index d < i \<and> i \<le> last_index d"
proof (cases "i \<le> max_int64")
  case True
  with assms show ?thesis by (rule log_lookup64)
next
  case False
  then have "int64 i < 0" by (simp add: int64_neg)
  moreover have "int64 0 \<le> int64 (snap_index d)"
    by (subst int64_le_iff) (simp_all add: log_ok_snap [OF assms])
  ultimately have "lookup (log_entries d) (int64 i) = None"
    using log_lookup [OF assms, of "int64 i"] by (cases "lookup (log_entries d) (int64 i)") auto
  with False log_okD(3) [OF assms] show ?thesis by auto
qed

lemma entry_at_iff: "log_ok d \<Longrightarrow> entry_at d i \<noteq> None \<longleftrightarrow> snap_index d < i \<and> i \<le> last_index d"
  by (simp only: log_lookup_iff [symmetric]) (simp add: entry_at_def)

lemma term_at_iff:
  "log_ok d \<Longrightarrow> term_at d i \<noteq> None \<longleftrightarrow> i = 0 \<or> (snap_index d \<le> i \<and> i \<le> last_index d)"
  using log_lookup_iff [of d i] log_okD(2) [of d]
  by (cases "i = snap_index d") (auto simp: term_at_def)

lemma entry_at_index: "entry_at d i = Some e \<Longrightarrow> Entry_Index e = i"
  by (auto simp: entry_at_def)

lemma entry_at_term:
  assumes "log_ok d" and "entry_at d i = Some e"
  shows "term_at d i = Some (Entry_Term e)"
proof -
  from assms have "snap_index d < i" using entry_at_iff [of d i] by simp
  moreover from this have "i \<noteq> 0" by (auto simp: word_gt_0)
  ultimately show ?thesis
    using assms(2) by (auto simp: entry_at_def term_at_def)
qed

lemma term_at_entry:
  assumes "snap_index d < i"
  shows "term_at d i = map_option Entry_Term (entry_at d i)"
proof -
  have "i \<noteq> 0" "i \<noteq> snap_index d" "\<not> i < snap_index d" using assms by (auto simp: word_gt_0)
  then show ?thesis by (simp add: term_at_def entry_at_def option.map_comp comp_def case_prod_unfold)
qed

lemma last_entry_eq: "last_entry d = (last_index d, snd (last_entry d))"
  by (simp add: last_index_def)

lemma term_at_last:
  assumes "log_ok d"
  shows "term_at d (last_index d) = Some (snd (last_entry d))"
proof (cases "select_last (log_entries d)")
  case None
  then show ?thesis
    using log_ok_snap_term [OF assms] by (simp add: last_index_def last_entry_def term_at_def)
next
  case (Some r)
  obtain i t c where r: "r = (i, t, c)" by (cases r)
  note ok = db_okD(2) [OF log_okD(1) [OF assms]]
  have l: "lookup (log_entries d) i = Some (t, c)"
    using select_last_Some(1) [OF ok] Some r by simp
  then have "int64 (snap_index d) < i" "i \<le> int64 (last_index d)"
    using log_lookup [OF assms, of i] by auto
  moreover have "int64 0 \<le> int64 (snap_index d)" "int64 (last_index d) \<le> int64 max_int64"
    by (subst int64_le_iff; simp add: log_ok_snap [OF assms] log_okD(3) [OF assms])+
  ultimately have "int64 (uint64 i) = i"
    by (intro int64_uint64) auto
  then have e: "entry_at d (uint64 i) = Some \<lparr>Entry_Index = uint64 i, Entry_Term = uint64 t, Entry_Command = c\<rparr>"
    using l by (simp add: entry_at_def)
  moreover have "last_entry d = (uint64 i, uint64 t)"
    using Some r by (simp add: last_entry_def)
  ultimately show ?thesis
    using entry_at_term [OF assms e] by (simp add: last_index_def)
qed

section \<open>Appending\<close>

lemma upsert_last: "table_ok (t @ [(k, v)]) \<Longrightarrow> upsert k v t = t @ [(k, v)]"
  by (induction k v t rule: upsert.induct) (auto simp: table_ok_Cons)

lemma upsert_all_append: "table_ok (t @ rs) \<Longrightarrow> upsert_all rs t = t @ rs"
proof (induction rs arbitrary: t)
  case (Cons r rs)
  obtain k v where r: "r = (k, v)" by (cases r)
  have "table_ok ((t @ [(k, v)]) @ rs)" using Cons.prems r by simp
  moreover from this have "table_ok (t @ [(k, v)])"
    by (simp add: table_ok_def sorted_wrt_append)
  ultimately show ?case
    using Cons.IH [of "t @ [(k, v)]"] r by (simp add: upsert_all_simps upsert_last)
qed (simp add: upsert_all_simps)

lemma follows_end: "follows i es \<Longrightarrow> i \<le> max_int64 \<Longrightarrow> i \<le> end_index i es \<and> end_index i es \<le> max_int64"
proof (induction es arbitrary: i)
  case (Cons e es)
  then have i: "i < max_int64" and m: "i + 1 \<le> max_int64" and f: "follows (i + 1) es"
    and e: "Entry_Index e = i + 1" by (auto intro: inc_le)
  have "i < i + 1" using u64_less_not_max [OF i] by simp
  then show ?case
    using Cons.IH [OF f m] e by (simp add: order.trans [OF order.strict_implies_order])
qed simp

lemma follows_keys:
  "follows i es \<Longrightarrow> i \<le> max_int64 \<Longrightarrow>
     map (\<lambda>e. int64 (Entry_Index e)) es = [int64 i + 1 .. int64 (end_index i es)]"
proof (induction es arbitrary: i)
  case (Cons e es)
  then have i: "i < max_int64" and e: "Entry_Index e = i + 1" and f: "follows (i + 1) es"
    and m: "i + 1 \<le> max_int64" by (auto intro: inc_le)
  have "int64 (i + 1) \<le> int64 (end_index (i + 1) es)"
    using follows_end [OF f m] m by simp
  then show ?case
    using Cons.IH [OF f m] e by (simp add: u64_inc_int64 [OF i] upto_rec1 [of "int64 i + 1"])
qed simp

lemma upto_append: "a \<le> b + 1 \<Longrightarrow> b \<le> c \<Longrightarrow> [a .. b] @ [b + 1 .. c] = [a .. c]" for a b c :: int
  using upto_split1 [of a "b + 1" c] order_antisym [of c b] by (cases "c \<le> b") simp_all

lemma put_entries_rows:
  assumes "log_ok d" and "follows (last_index d) es"
  shows "map fst (log_entries (put_entries es d)) =
      [int64 (snap_index d) + 1 .. int64 (end_index (last_index d) es)]"
    and "log_entries (put_entries es d) =
      log_entries d @ map (\<lambda>e. (int64 (Entry_Index e), int64 (Entry_Term e), Entry_Command e)) es"
proof -
  let ?rows = "map (\<lambda>e. (int64 (Entry_Index e), int64 (Entry_Term e), Entry_Command e)) es"
  have "map fst ?rows = [int64 (last_index d) + 1 .. int64 (end_index (last_index d) es)]"
    using follows_keys [OF assms(2) log_okD(3) [OF assms(1)]] by (simp add: comp_def)
  moreover have "int64 (snap_index d) \<le> int64 (last_index d)"
    and "int64 (last_index d) \<le> int64 (end_index (last_index d) es)"
    using follows_end [OF assms(2)] log_okD(2,3) [OF assms(1)] log_ok_snap [OF assms(1)] by simp_all
  ultimately have keys: "map fst (log_entries d @ ?rows) =
      [int64 (snap_index d) + 1 .. int64 (end_index (last_index d) es)]"
    by (simp add: log_keys [OF assms(1)] upto_append)
  then have "table_ok (log_entries d @ ?rows)"
    by (simp only: table_ok_def sorted_wrt_upto)
  then show rows: "log_entries (put_entries es d) = log_entries d @ ?rows"
    by (simp add: put_entries_def upsert_all_append)
  show "map fst (log_entries (put_entries es d)) =
      [int64 (snap_index d) + 1 .. int64 (end_index (last_index d) es)]"
    unfolding rows by (rule keys)
qed

lemma put_entries_log:
  assumes "log_ok d" and "follows (last_index d) es"
  shows "log_ok (put_entries es d)" and "last_index (put_entries es d) = end_index (last_index d) es"
proof -
  have "end_index (last_index d) es \<le> max_int64" and "snap_index d \<le> end_index (last_index d) es"
    using follows_end [OF assms(2)] log_okD(2,3) [OF assms(1)] by (auto intro: order_trans)
  then show "log_ok (put_entries es d)" and "last_index (put_entries es d) = end_index (last_index d) es"
    using log_okI [of "put_entries es d" "end_index (last_index d) es"] put_entries_rows(1) [OF assms]
      db_ok_put_entries [OF log_okD(1) [OF assms(1)]] log_ok_snap_term [OF assms(1)]
    by (simp_all add: view_simps)
qed

lemma entry_at_put_entries:
  assumes "table_ok (log_entries d)"
  shows "entry_at (put_entries es d) i =
    (case find (\<lambda>e. Entry_Index e = i) (rev es) of Some e \<Rightarrow> Some (e\<lparr>Entry_Index := i\<rparr>) | None \<Rightarrow> entry_at d i)"
proof -
  let ?row = "\<lambda>e. (int64 (Entry_Index e), int64 (Entry_Term e), Entry_Command e)"
  have "map_of (map ?row xs) (int64 i) =
      map_option (\<lambda>e. (int64 (Entry_Term e), Entry_Command e)) (find (\<lambda>e. Entry_Index e = i) xs)" for xs
    by (induction xs) auto
  from this [of "rev es"] show ?thesis
    using assms
    by (auto simp: entry_at_def put_entries_def lookup_upsert_all rev_map split: option.split)
qed

section \<open>Truncating and compacting\<close>

lemma filter_upto:
  fixes a b c :: int
  shows "c \<le> b \<Longrightarrow> filter (\<lambda>k. \<not> c < k) [a .. b] = [a .. c]"
    and "a \<le> c + 1 \<Longrightarrow> filter (\<lambda>k. \<not> k \<le> c) [a .. b] = [c + 1 .. b]"
  by (rule sorted_distinct_set_unique; auto simp: sorted_wrt_filter)+

lemma keys_delete_where: "map fst (delete_where P t) = filter (\<lambda>k. \<not> P k) (map fst t)"
  by (induction t) (auto simp: delete_where_def)

lemma drop_from_log:
  assumes "log_ok d" and "snap_index d \<le> i" and "i < last_index d"
  shows "log_ok (drop_from (i + 1) d)" and "last_index (drop_from (i + 1) d) = i"
proof -
  have i: "i < max_int64" and im: "i \<le> max_int64" using assms(3) log_okD(3) [OF assms(1)] by auto
  have le: "int64 i \<le> int64 (last_index d)"
    using assms(3) im log_okD(3) [OF assms(1)] by simp
  have "(\<lambda>k. \<not> int64 (i + 1) \<le> k) = (\<lambda>k. \<not> int64 i < k)"
    by (auto simp: u64_inc_int64 [OF i])
  then have "map fst (log_entries (drop_from (i + 1) d)) = [int64 (snap_index d) + 1 .. int64 i]"
    by (simp add: drop_from_def keys_delete_where log_keys [OF assms(1)] filter_upto(1) [OF le])
  then show "log_ok (drop_from (i + 1) d)" and "last_index (drop_from (i + 1) d) = i"
    using log_okI [of "drop_from (i + 1) d" i] db_ok_drop_from [OF log_okD(1) [OF assms(1)]]
      log_ok_snap_term [OF assms(1)] assms(2) im
    by (simp_all add: view_simps)
qed

lemma entry_at_drop_from:
  assumes "i \<le> max_int64" and "j \<le> max_int64"
  shows "entry_at (drop_from i d) j = (if i \<le> j then None else entry_at d j)"
  using assms by (simp add: entry_at_def drop_from_def lookup_delete_where)

lemma entry_at_drop_through:
  assumes "i \<le> max_int64" and "j \<le> max_int64"
  shows "entry_at (drop_through i d) j = (if j \<le> i then None else entry_at d j)"
  using assms by (simp add: entry_at_def drop_through_def lookup_delete_where)

text \<open>A snapshot at or beyond the last one keeps the suffix of the log that it does not cover.\<close>

lemma snapshot_log:
  assumes "log_ok d" and "snap_index d \<le> LastIncludedIndex sn" and "LastIncludedIndex sn \<le> max_int64"
    and "LastIncludedIndex sn \<noteq> 0" and "db_ok d'"
    and "snap_index d' = LastIncludedIndex sn"
    and "log_entries d' = delete_where (\<lambda>k. k \<le> int64 (LastIncludedIndex sn)) (log_entries d)"
  shows "log_ok d'" and "last_index d' = max (last_index d) (LastIncludedIndex sn)"
proof -
  let ?i = "LastIncludedIndex sn" and ?n = "max (last_index d) (LastIncludedIndex sn)"
  have "int64 (snap_index d) \<le> int64 ?i"
    using assms(2,3) log_ok_snap [OF assms(1)] by simp
  then have "map fst (log_entries d') = [int64 ?i + 1 .. int64 (last_index d)]"
    by (simp add: assms(7) keys_delete_where log_keys [OF assms(1)] filter_upto(2))
  also have "\<dots> = [int64 ?i + 1 .. int64 ?n]"
    using log_okD(3) [OF assms(1)] assms(3)
    by (cases "?i \<le> last_index d") (simp_all add: max_def)
  finally show "log_ok d'" and "last_index d' = ?n"
    using log_okI [of d' ?n] assms(3-6) log_okD(3) [OF assms(1)] by simp_all
qed

lemma restore_log:
  assumes "log_ok d" and "snap_index d \<le> LastIncludedIndex sn" and "LastIncludedIndex sn \<le> max_int64"
    and "LastIncludedIndex sn \<noteq> 0"
  shows "log_ok (restore sn state d)"
    and "last_index (restore sn state d) = max (last_index d) (LastIncludedIndex sn)"
  using snapshot_log [OF assms, of "restore sn state d"] db_ok_restore [OF log_okD(1) [OF assms(1)]]
  by (simp_all add: view_simps)

lemma compact_log:
  assumes "log_ok d" and "snap_index d \<le> i" and "i \<le> last_index d" and "i \<noteq> 0"
    and "LastIncludedIndex sn = i"
  shows "log_ok (drop_through i (put_snapshot sn d))"
    and "last_index (drop_through i (put_snapshot sn d)) = last_index d"
proof -
  let ?d = "drop_through i (put_snapshot sn d)"
  have "i \<le> max_int64" using assms(3) log_okD(3) [OF assms(1)] by (rule order_trans)
  moreover have "db_ok ?d"
    using log_okD(1) [OF assms(1)] by (intro db_ok_drop_through db_ok_put_snapshot)
  moreover have "log_entries ?d = delete_where (\<lambda>k. k \<le> int64 i) (log_entries d)"
    by (simp add: drop_through_def view_simps)
  ultimately show "log_ok ?d" and "last_index ?d = last_index d"
    using snapshot_log [of d sn ?d] assms by (simp_all add: view_simps max_def)
qed

text \<open>Effects that do not touch the log.\<close>

lemma log_frame:
  assumes "log_entries d' = log_entries d" and "snap_index d' = snap_index d" and "snap_term d' = snap_term d"
  shows "last_entry d' = last_entry d" and "last_index d' = last_index d" and "term_at d' = term_at d"
    and "entry_at d' = entry_at d"
  using assms
  by (simp_all add: last_entry_def last_index_def term_at_def entry_at_def fun_eq_iff split: option.split)

lemma log_ok_frame:
  assumes "log_ok d" and "db_ok d'" and "log_entries d' = log_entries d"
    and "snap_index d' = snap_index d" and "snap_term d' = snap_term d"
  shows "log_ok d'"
  using assms log_frame(2) [OF assms(3-5)] by (simp add: log_ok_def)

lemma log_frame_effects [view_simps]:
  "last_entry (put_term_vote t v d) = last_entry d" "last_index (put_term_vote t v d) = last_index d"
  "term_at (put_term_vote t v d) = term_at d" "entry_at (put_term_vote t v d) = entry_at d"
  "last_entry (apply_set i k x d) = last_entry d" "last_index (apply_set i k x d) = last_index d"
  "term_at (apply_set i k x d) = term_at d" "entry_at (apply_set i k x d) = entry_at d"
  "last_entry (apply_delete i k d) = last_entry d" "last_index (apply_delete i k d) = last_index d"
  "term_at (apply_delete i k d) = term_at d" "entry_at (apply_delete i k d) = entry_at d"
  "last_entry (put_meta ''last_applied'' (FormatUint i) d) = last_entry d"
  "last_index (put_meta ''last_applied'' (FormatUint i) d) = last_index d"
  "term_at (put_meta ''last_applied'' (FormatUint i) d) = term_at d"
  "entry_at (put_meta ''last_applied'' (FormatUint i) d) = entry_at d"
  by (rule log_frame; simp add: view_simps)+

lemma log_ok_effects:
  assumes "log_ok d"
  shows "log_ok (put_term_vote t v d)" and "log_ok (apply_set i k x d)" and "log_ok (apply_delete i k d)"
    and "log_ok (put_meta ''last_applied'' (FormatUint i) d)"
  by (rule log_ok_frame [OF assms]; simp add: view_simps db_ok_effects log_okD(1) [OF assms])+

section \<open>Reading ranges\<close>

lemma follows_index: "follows i es \<Longrightarrow> i \<le> max_int64 \<Longrightarrow> e \<in> set es \<Longrightarrow> i < Entry_Index e \<and> Entry_Index e \<le> max_int64"
proof (induction es arbitrary: i)
  case (Cons x es)
  then have i: "i < max_int64" and m: "i + 1 \<le> max_int64" and f: "follows (i + 1) es"
    and x: "Entry_Index x = i + 1" by (auto intro: inc_le)
  have "i < i + 1" using u64_less_not_max [OF i] by simp
  then show ?case
    using Cons.IH [OF f m] Cons.prems(3) x m by (auto intro: less_trans)
qed simp

lemma end_index_append: "end_index i (xs @ ys) = end_index (end_index i xs) ys"
  by (induction xs arbitrary: i) simp_all

lemma follows_append: "follows i (xs @ ys) \<longleftrightarrow> follows i xs \<and> follows (end_index i xs) ys"
proof (induction xs arbitrary: i)
  case (Cons x xs)
  show ?case by (cases "Entry_Index x = i + 1") (simp_all add: Cons.IH)
qed simp

lemma follows_index_end:
  "follows i es \<Longrightarrow> i \<le> max_int64 \<Longrightarrow> e \<in> set es \<Longrightarrow> Entry_Index e \<le> end_index i es"
proof (induction es arbitrary: i)
  case (Cons x es)
  then have m: "i + 1 \<le> max_int64" and f: "follows (i + 1) es" and x: "Entry_Index x = i + 1"
    by (auto intro: inc_le)
  show ?case
    using Cons.IH [OF f m] Cons.prems(3) conjunct1 [OF follows_end [OF f m]]
    by (cases "e = x") (simp_all add: x)
qed simp

lemma follows_distinct: "follows i es \<Longrightarrow> i \<le> max_int64 \<Longrightarrow> distinct (map Entry_Index es)"
proof (induction es arbitrary: i)
  case (Cons x es)
  then have m: "i + 1 \<le> max_int64" and f: "follows (i + 1) es" and x: "Entry_Index x = i + 1"
    by (auto intro: inc_le)
  then show ?case
    using Cons.IH [OF f m] follows_index [OF f m] by force
qed simp

lemma find_distinct:
  "distinct (map f es) \<Longrightarrow> e \<in> set es \<Longrightarrow> find (\<lambda>x. f x = f e) es = Some e"
  by (induction es) (auto simp: image_iff)

lemma entry_at_appended:
  assumes "log_ok d" and "follows (last_index d) es" and "e \<in> set es"
  shows "entry_at (put_entries es d) (Entry_Index e) = Some e"
proof -
  have "distinct (map Entry_Index (rev es))"
    using follows_distinct [OF assms(2)] log_okD(3) [OF assms(1)] by (simp flip: rev_map)
  then have "find (\<lambda>x. Entry_Index x = Entry_Index e) (rev es) = Some e"
    using assms(3) by (intro find_distinct) simp_all
  then show ?thesis
    using entry_at_put_entries [OF db_okD(2) [OF log_okD(1) [OF assms(1)]], of es "Entry_Index e"] by simp
qed

lemma entries_from_log:
  assumes "log_ok d" and "snap_index d < i" and "i \<le> max_int64"
  shows "entries_from i 0 d = map entry_of_row (filter (\<lambda>(k, _). int64 i \<le> k) (log_entries d))"
  using assms select_ordered_ok [OF db_okD(2) [OF log_okD(1) [OF assms(1)]], of "\<lambda>k. int64 i \<le> k"]
  by (simp add: entries_from_def sql_limit_def Let_def linorder_not_le [THEN iffD2, OF assms(2)])

lemma end_index_last: "es \<noteq> [] \<Longrightarrow> end_index i es = Entry_Index (last es)"
  by (induction es arbitrary: i) auto

lemma entries_from_appended:
  assumes "log_ok d" and "follows (last_index d) es" and "last_index d < max_int64"
  shows "entries_from (last_index d + 1) 0 (put_entries es d) = es"
proof -
  let ?i = "last_index d" and ?row = "\<lambda>e. (int64 (Entry_Index e), int64 (Entry_Term e), Entry_Command e)"
  note put = put_entries_log [OF assms(1,2)] put_entries_rows(2) [OF assms(1,2)]
  have i: "?i + 1 \<le> max_int64" "snap_index d < ?i + 1"
    using assms(3) log_okD(2) [OF assms(1)] u64_less_not_max [OF assms(3)]
    by (auto intro: inc_le simp: u64_less_inc_iff)
  have old: "filter (\<lambda>(k, _). int64 (?i + 1) \<le> k) (log_entries d) = []"
  proof -
    have "k \<le> int64 ?i" if "(k, v) \<in> set (log_entries d)" for k v
      using that log_lookup [OF assms(1), of k] lookup_in_rows [OF db_okD(2) [OF log_okD(1) [OF assms(1)]]]
      by auto
    then show ?thesis by (force simp: filter_empty_conv u64_inc_int64 [OF assms(3)])
  qed
  have new: "int64 (?i + 1) \<le> int64 (Entry_Index e)" if "e \<in> set es" for e
    using follows_index [OF assms(2) log_okD(3) [OF assms(1)] that] i
    by (simp add: u64_inc_le_iff u64_less_not_max [OF assms(3)])
  have "filter (\<lambda>(k, _). int64 (?i + 1) \<le> k) (map ?row es) = map ?row es"
    using new by (auto simp: filter_id_conv)
  moreover have "map entry_of_row (map ?row es) = es"
    by (induction es) auto
  ultimately show ?thesis
    using i put by (simp add: entries_from_log view_simps old)
qed

section \<open>Applying and compacting keep the readable part of the log\<close>

definition compacts :: "db \<Rightarrow> db \<Rightarrow> bool" where
  "compacts d' d \<longleftrightarrow>
     log_ok d' \<and> last_entry d' = last_entry d \<and> snap_index d \<le> snap_index d'
     \<and> meta_u64 d' ''current_term'' = meta_u64 d ''current_term''
     \<and> meta_string d' ''voted_for'' = meta_string d ''voted_for''
     \<and> (\<forall>i. snap_index d' \<le> i \<longrightarrow> term_at d' i = term_at d i)
     \<and> (\<forall>i. snap_index d' < i \<longrightarrow> entry_at d' i = entry_at d i)"

lemma compactsD:
  assumes "compacts d' d"
  shows "log_ok d'" and "last_entry d' = last_entry d" and "last_index d' = last_index d"
    and "snap_index d \<le> snap_index d'"
    and "meta_u64 d' ''current_term'' = meta_u64 d ''current_term''"
    and "meta_string d' ''voted_for'' = meta_string d ''voted_for''"
    and "\<And>i. snap_index d' \<le> i \<Longrightarrow> term_at d' i = term_at d i"
    and "\<And>i. snap_index d' < i \<Longrightarrow> entry_at d' i = entry_at d i"
  using assms by (simp_all add: compacts_def last_index_def)

lemma compacts_refl: "log_ok d \<Longrightarrow> compacts d d"
  by (simp add: compacts_def)

lemma compacts_trans: "compacts d'' d' \<Longrightarrow> compacts d' d \<Longrightarrow> compacts d'' d"
  unfolding compacts_def by (auto intro: order_trans order.strict_trans1)

lemma compacts_frame:
  assumes "log_ok d" and "db_ok d'" and "log_entries d' = log_entries d"
    and "snap_index d' = snap_index d" and "snap_term d' = snap_term d"
    and "meta_u64 d' ''current_term'' = meta_u64 d ''current_term''"
    and "meta_string d' ''voted_for'' = meta_string d ''voted_for''"
  shows "compacts d' d"
  using assms log_frame [OF assms(3-5)] log_ok_frame [OF assms(1-5)] by (simp add: compacts_def)

lemma compacts_effects:
  assumes "log_ok d"
  shows "compacts (apply_set i k x d) d" and "compacts (apply_delete i k d) d"
    and "compacts (put_meta ''last_applied'' (FormatUint i) d) d"
proof -
  show "compacts (put_meta ''last_applied'' (FormatUint i) d) d"
    by (rule compacts_frame [OF assms])
       (simp_all add: view_simps db_ok_effects log_okD(1) [OF assms])
  show "compacts (apply_set i k x d) d"
    by (rule compacts_frame [OF assms]) (simp_all add: view_simps db_ok_effects log_okD(1) [OF assms])
  show "compacts (apply_delete i k d) d"
    by (rule compacts_frame [OF assms]) (simp_all add: view_simps db_ok_effects log_okD(1) [OF assms])
qed

lemma compacts_snapshot:
  assumes "log_ok d" and "snap_index d \<le> i" and "term_at d i = Some t" and "i \<noteq> 0"
    and "sn = \<lparr>LastIncludedIndex = i, LastIncludedTerm = t, Snapshot_Data = x\<rparr>"
  shows "compacts (drop_through i (put_snapshot sn d)) d"
proof -
  let ?d = "drop_through i (put_snapshot sn d)"
  have il: "i \<le> last_index d" using term_at_iff [OF assms(1), of i] assms(3,4) by auto
  note L = compact_log [OF assms(1,2) il assms(4), of sn]
  have ok: "log_ok ?d" and last: "last_index ?d = last_index d" using L assms(5) by simp_all
  have im: "i \<le> max_int64" using il log_okD(3) [OF assms(1)] by (rule order_trans)
  have snap: "snap_index ?d = i" and st: "snap_term ?d = t" using assms(5) by (simp_all add: view_simps)
  have e: "entry_at ?d j = entry_at d j" if "i < j" for j
  proof (cases "j \<le> max_int64")
    case True
    then show ?thesis
      using that entry_at_drop_through [OF im True, of "put_snapshot sn d"]
      by (simp add: linorder_not_le [THEN iffD2, OF that]) (simp add: entry_at_def view_simps)
  next
    case False
    then have "\<not> j \<le> last_index d" using log_okD(3) [OF assms(1)] by auto
    then show ?thesis
      using entry_at_iff [OF ok, of j] entry_at_iff [OF assms(1), of j] last
      by (cases "entry_at ?d j"; cases "entry_at d j") auto
  qed
  have t: "term_at ?d j = term_at d j" if "i \<le> j" for j
  proof (cases "j = i")
    case True
    then show ?thesis using assms(3,4) snap st by (simp add: term_at_def)
  next
    case False
    with that have ij: "i < j" by simp
    then have "snap_index d < j" using assms(2) by (rule order.strict_trans1 [rotated])
    then have "term_at d j = map_option Entry_Term (entry_at d j)" by (rule term_at_entry)
    moreover have "term_at ?d j = map_option Entry_Term (entry_at ?d j)"
      by (rule term_at_entry) (simp only: snap ij)
    ultimately show ?thesis using e [OF ij] by simp
  qed
  have "last_entry ?d = last_entry d"
    using term_at_last [OF ok] term_at_last [OF assms(1)] t [OF il] last
    by (intro prod_eqI) (simp_all add: last_index_def)
  then show ?thesis
    using ok snap assms(2) t e by (simp add: compacts_def view_simps)
qed

end
