(* ===== verification/Store_Props.thy ===== *)
theory Store_Props imports Raft_Log
begin

text \<open>
  The properties of the store that the node relies on: writes are all or nothing under driver
  faults, what is written survives a restart and is read back, and a snapshot carries the state
  machine of one node to another.
\<close>

text \<open>Outcome of a write whose effect on the tables is \<open>eff\<close>.\<close>

definition all_or_nothing :: "(db \<Rightarrow> db) \<Rightarrow> Store \<Rightarrow> 'a outcome \<Rightarrow> bool" where
  "all_or_nothing eff s out =
     (case out of
        (Inl _, s') \<Rightarrow> db s' = db s
      | (Inr _, s') \<Rightarrow> db s' = eff (db s))"

text \<open>The process stops and the database file is opened again.\<close>

definition reopen :: "(string \<times> string) list \<Rightarrow> Store \<Rightarrow> unit outcome" where
  "reopen order s = Open order None None (s\<lparr>faults := []\<rparr>)"

text \<open>A database that has just been created.\<close>

definition fresh_store :: "string option list \<Rightarrow> Store" where
  "fresh_store fs = \<lparr>db = seeded metadata_defaults empty_db, faults = fs\<rparr>"

text \<open>Two entries and a store with one key, for the examples below.\<close>

definition demo_entries :: "Entry list" where
  "demo_entries = [\<lparr>Entry_Index = 1, Entry_Term = 1, Entry_Command = ''a''\<rparr>,
                   \<lparr>Entry_Index = 2, Entry_Term = 1, Entry_Command = ''b''\<rparr>]"

definition demo_store :: Store where
  "demo_store = \<lparr>db = apply_set 1 ''a'' ''1'' (db (fresh_store [])), faults = []\<rparr>"

section \<open>Lemmas\<close>

lemma commits_all_or_nothing: "commits op eff \<Longrightarrow> all_or_nothing eff s (op s)"
proof -
  assume c: "commits op eff"
  obtain r s' where run: "op s = (r, s')" by fastforce
  show ?thesis
    using commitsD(1,2) [OF c run] by (cases r) (simp_all add: all_or_nothing_def run)
qed

lemma reopen_ok:
  assumes "db_ok (db s)" and "defaults_order order"
  shows "reopen order s = (Inr (), s\<lparr>faults := []\<rparr>)"
proof -
  obtain r s' where run: "Store_init order (s\<lparr>faults := []\<rparr>) = (r, s')" by fastforce
  have "r = Inr ()" and "s' = s\<lparr>faults := [], db := seeded order (db s)\<rparr>"
    using doesD(3) [OF does_Store_init run] by simp_all
  moreover have "s\<lparr>faults := [], db := db s\<rparr> = s\<lparr>faults := []\<rparr>" by simp
  ultimately show ?thesis
    using run seeded_ok [OF assms] by (simp only: reopen_def Open_def option.case)
qed

lemma answers_clean:
  "answers op view \<Longrightarrow> meta_ok (db s) \<Longrightarrow> faults s = [] \<Longrightarrow> op s = (Inr (view (db s)), s)"
  using answersD(4) [of op view s "fst (op s)" "snd (op s)"] by (cases "op s") auto

lemma fresh_store_ok: "db_ok (db (fresh_store fs))"
  using db_ok_seeded_empty by (simp add: fresh_store_def)

lemma defaults_order_refl: "defaults_order metadata_defaults"
  by (simp add: defaults_order_def metadata_defaults_def)

lemma all_or_nothing_keeps:
  "all_or_nothing eff s out \<Longrightarrow> P (db s) \<Longrightarrow> P (eff (db s)) \<Longrightarrow> P (db (snd out))"
  by (auto simp: all_or_nothing_def split: prod.splits sum.splits)

lemmas store_atomic = store_commits [THEN commits_all_or_nothing]

lemma InstallSnapshot_keeps:
  assumes "P (db s)" and "\<And>state. snapshot_state sn = Inr state \<Longrightarrow> P (restore sn state (db s))"
  shows "P (db (snd (Store_InstallSnapshot sn s)))"
proof (cases "snapshot_state sn")
  case (Inl e)
  with assms(1) show ?thesis by (simp add: Store_InstallSnapshot_undecodable)
next
  case (Inr state)
  with assms show ?thesis
    using all_or_nothing_keeps [OF commits_all_or_nothing [OF Store_InstallSnapshot_commits [OF Inr]], of P s]
    by blast
qed

lemma CreateSnapshot_keeps:
  assumes "meta_ok (db s)" and "P (db s)"
    and "P (drop_through i (put_snapshot (snapshot_now i t (db s)) (db s)))"
  shows "P (db (snd (CreateSnapshot i t s)))"
proof -
  obtain r s' where run: "CreateSnapshot i t s = (r, s')" by fastforce
  show ?thesis
    using CreateSnapshot_cases(1,2) [OF assms(1) run] assms(2,3) by (cases r) (simp_all add: run)
qed

lemma log_ok_fresh: "log_ok (db (fresh_store fs))"
  and last_index_fresh: "last_index (db (fresh_store fs)) = 0"
  and snap_index_fresh: "snap_index (db (fresh_store fs)) = 0"
proof -
  have m: "snap_index (db (fresh_store fs)) = 0" "snap_term (db (fresh_store fs)) = 0"
    by (simp_all add: fresh_store_def meta_u64_def meta_string_def lookup_seeded)
       (simp_all add: empty_db_def metadata_defaults_def ParseUint_zero)
  have "log_entries (db (fresh_store fs)) = []"
    by (simp add: fresh_store_def empty_db_def)
  then show "log_ok (db (fresh_store fs))" and "last_index (db (fresh_store fs)) = 0"
    and "snap_index (db (fresh_store fs)) = 0"
    using log_okI [OF fresh_store_ok, of fs 0] m by simp_all
qed

lemma Store_All_result:
  assumes "Store_All s = (r, s')"
  shows "db s' = db s" and "\<And>x. r = Inr x \<Longrightarrow> x = kv_state (db s)"
proof -
  obtain r1 s1 where q: "sql s = (r1, s1)" by fastforce
  obtain r2 s2 where t: "scan_rows ''scan key/value: %w''
      (map (\<lambda>(k, v, _). (k, v)) (select_ordered (\<lambda>_. True) (kv (db s1)))) s1 = (r2, s2)" by fastforce
  note S = scan_rows_cases [OF t] sql_cases(1) [OF q]
  have "db s' = db s \<and> (\<forall>x. r = Inr x \<longrightarrow> x = kv_state (db s))"
  proof (cases r1)
    case (Inl e)
    then show ?thesis using assms S(2) by (auto simp: Store_All_def q)
  next
    case (Inr u)
    then have "(r, s') = (case r2 of Inl e \<Rightarrow> (Inl e, s2) | Inr rows \<Rightarrow> (Inr (upsert_all rows []), s2))"
      using assms t by (simp add: Store_All_def q split: sum.split)
    then show ?thesis using S by (cases r2) (simp_all add: kv_state_def)
  qed
  then show "db s' = db s" and "\<And>x. r = Inr x \<Longrightarrow> x = kv_state (db s)" by blast+
qed

lemma CreateSnapshot_atomic:
  "all_or_nothing (\<lambda>d. drop_through i (put_snapshot (snapshot_now i t d) d)) s (CreateSnapshot i t s)"
proof -
  obtain r s1 where a: "Store_All s = (r, s1)" by fastforce
  note A = Store_All_result [OF a]
  let ?sn = "snapshot_now i t (db s)"
  let ?tx = "\<lambda>tx. case saveSnapshot ?sn tx of (Inl e, tx1) \<Rightarrow> (Inl e, tx1) | (Inr _, tx1) \<Rightarrow> compactLog i tx1"
  have "commits (inTx ?tx) (\<lambda>d. drop_through i (put_snapshot ?sn d))"
    by (rule commits_inTx, rule does_then [OF does_saveSnapshot does_compactLog, where h = id])
       (auto split: prod.split sum.split)
  note T = commits_all_or_nothing [OF this, of s1]
  show ?thesis
  proof (cases r)
    case (Inl e)
    then show ?thesis using A(1) a by (simp add: CreateSnapshot_def all_or_nothing_def)
  next
    case (Inr state)
    then have "\<lparr>LastIncludedIndex = i, LastIncludedTerm = t, Snapshot_Data = json_marshal_map state\<rparr> = ?sn"
      using A(2) by (simp add: snapshot_now_def)
    then show ?thesis
      using T A(1) a Inr by (auto simp: CreateSnapshot_def all_or_nothing_def Let_def split: prod.splits sum.splits)
  qed
qed

text \<open>Opening is not a transaction: a fault leaves a database in which only some of the defaults are seeded.\<close>

lemma seed_metadata_prefix: "\<exists>k. db (snd (seed_metadata kvs s)) = seeded (take k kvs) (db s)"
proof (induction kvs arbitrary: s)
  case (Cons r kvs)
  obtain k v where r: "r = (k, v)" by (cases r)
  obtain q s1 where x: "Exec (\<lambda>d. d\<lparr>metadata := insert_or_ignore k v (metadata d)\<rparr>) s = (q, s1)" by fastforce
  show ?case
  proof (cases q)
    case (Inl e)
    then have "db s1 = db s" using commitsD(2) [OF commits_Exec x] by simp
    then show ?thesis using x Inl by (intro exI [of _ 0]) (simp add: r seeded_def)
  next
    case (Inr u)
    then have "db s1 = (db s)\<lparr>metadata := insert_or_ignore k v (metadata (db s))\<rparr>" using commitsD(1) [OF commits_Exec x] by simp
    moreover obtain j where "db (snd (seed_metadata kvs s1)) = seeded (take j kvs) (db s1)" using Cons.IH by blast
    ultimately show ?thesis using x Inr by (intro exI [of _ "Suc j"]) (simp add: r seeded_def)
  qed
qed (simp add: seeded_def)

lemma create_tables_db: "db (snd (create_tables ts s)) = db s"
proof (induction ts arbitrary: s)
  case (Cons t ts)
  obtain q s1 where x: "Exec (\<lambda>d. d) s = (q, s1)" by fastforce
  have "db s1 = db s" using commitsD(1,2) [OF commits_Exec x] by (cases q) simp_all
  then show ?case using x Cons.IH by (cases q) simp_all
qed simp

lemma Open_seeds:
  "\<exists>k. db (snd (Open order mkdir sqlopen s)) = seeded (take k order) (db s)
     \<and> (isl (fst (Open order mkdir sqlopen s)) \<or> k = length order)"
proof -
  obtain q s1 where c: "create_tables schema_tables s = (q, s1)" by fastforce
  have s1: "db s1 = db s" using create_tables_db [of schema_tables s] c by simp
  obtain r s2 where m: "seed_metadata order s1 = (r, s2)" by fastforce
  obtain k where k: "db s2 = seeded (take k order) (db s)" using seed_metadata_prefix [of order s1] m s1 by auto
  have full: "db s2 = seeded (take (length order) order) (db s)" if "r = Inr ()"
    using doesD(1) [OF does_seed_metadata m that] s1 by simp
  have none: "db s = seeded (take 0 order) (db s)" by (simp add: seeded_def)
  show ?thesis
  proof (cases "mkdir = None \<and> sqlopen = None \<and> \<not> isl q")
    case True
    then have o: "Open order mkdir sqlopen s = (r, s2)" by (cases q) (simp_all add: Open_def Store_init_def c m)
    show ?thesis
    proof (cases r)
      case (Inl e)
      then show ?thesis unfolding o using k by (intro exI [of _ k]) simp
    next
      case (Inr u)
      then show ?thesis unfolding o using full by (intro exI [of _ "length order"]) simp
    qed
  next
    case False
    then have "isl (fst (Open order mkdir sqlopen s)) \<and> db (snd (Open order mkdir sqlopen s)) = db s"
      using s1 by (cases q) (auto simp: Open_def Store_init_def c split: option.splits)
    then show ?thesis using none by (intro exI [of _ 0]) simp
  qed
qed

section \<open>Atomicity and well-formedness\<close>

text \<open>
  C3: every write of an open store is all or nothing: whichever statement of it the driver refuses,
  an error is returned with the four tables exactly as before, and a success has changed them by
  exactly the intended effect.  Opening, which is no transaction, has seeded the first of the missing defaults
  when it fails and all of them when it succeeds, and never touches a row that exists.
\<close>

theorem store_writes_atomic:
  "all_or_nothing (put_term_vote t v) s (SaveTermVote t v s)
   \<and> all_or_nothing (put_entries es) s (Store_AppendEntries es s)
   \<and> all_or_nothing (drop_from i) s (DeleteFrom i s)
   \<and> all_or_nothing (apply_set i k x) s (ApplySet i k x s)
   \<and> all_or_nothing (apply_delete i k) s (ApplyDelete i k s)
   \<and> all_or_nothing (put_meta ''last_applied'' (FormatUint i)) s (SkipTo i s)
   \<and> all_or_nothing (\<lambda>d. case snapshot_state sn of Inr state \<Rightarrow> restore sn state d | Inl _ \<Rightarrow> d) s
       (Store_InstallSnapshot sn s)
   \<and> all_or_nothing (\<lambda>d. drop_through i (put_snapshot (snapshot_now i t d) d)) s (CreateSnapshot i t s)
   \<and> (\<exists>n. db (snd (Open order mkdir sqlopen s)) = seeded (take n order) (db s)
        \<and> (isl (fst (Open order mkdir sqlopen s)) \<or> n = length order))"
proof -
  have inst: "all_or_nothing (\<lambda>d. case snapshot_state sn of Inr state \<Rightarrow> restore sn state d | Inl _ \<Rightarrow> d) s
       (Store_InstallSnapshot sn s)"
  proof (cases "snapshot_state sn")
    case (Inl e)
    then show ?thesis by (simp add: Store_InstallSnapshot_undecodable all_or_nothing_def)
  next
    case (Inr state)
    then show ?thesis
      using commits_all_or_nothing [OF Store_InstallSnapshot_commits [OF Inr], of s] by simp
  qed
  show ?thesis
    by (intro conjI inst CreateSnapshot_atomic Open_seeds; rule commits_all_or_nothing, rule store_commits)
qed

text \<open>
  C4: whatever the driver does, every operation that changes the database leaves it well formed:
  rows in key order without duplicates and readable metadata.
\<close>

theorem store_writes_keep_tables_ok:
  assumes "db_ok (db s)"
  shows "db_ok (db (snd (SaveTermVote t v s))) \<and> db_ok (db (snd (Store_AppendEntries es s)))
    \<and> db_ok (db (snd (DeleteFrom i s))) \<and> db_ok (db (snd (ApplySet i k x s)))
    \<and> db_ok (db (snd (ApplyDelete i k s))) \<and> db_ok (db (snd (SkipTo i s)))
    \<and> db_ok (db (snd (CreateSnapshot i t s))) \<and> db_ok (db (snd (Store_InstallSnapshot sn s)))"
proof -
  have create: "db_ok (db (snd (CreateSnapshot i t s)))"
    by (rule CreateSnapshot_keeps [where P = db_ok, OF db_okD(4) [OF assms] assms])
       (intro db_ok_drop_through db_ok_put_snapshot assms)
  have install: "db_ok (db (snd (Store_InstallSnapshot sn s)))"
    by (rule InstallSnapshot_keeps [where P = db_ok, OF assms]) (rule db_ok_restore [OF assms])
  show ?thesis
    by (intro conjI create install;
        rule all_or_nothing_keeps [where P = db_ok, OF _ assms], rule store_atomic,
        rule db_ok_effects [OF assms])
qed

theorem store_writes_keep_tables_ok_witness:
  "db_ok (db (snd (SaveTermVote 3 ''n2'' (fresh_store [None, None, Some ''disk I/O error'']))))"
  using store_writes_keep_tables_ok [OF fresh_store_ok] by blast

section \<open>Durability\<close>

text \<open>
  C5: a term and a vote that \<open>SaveTermVote\<close> has accepted are what the node reads after a restart,
  in whatever order the schema defaults are seeded; a refused one leaves the previous term and
  vote in place.
\<close>

theorem term_vote_survives_restart:
  assumes "db_ok (db s)" and "defaults_order order"
  shows "\<exists>s''. reopen order (snd (SaveTermVote t v s)) = (Inr (), s'')
    \<and> CurrentTermVote s'' =
        (Inr (if isl (fst (SaveTermVote t v s))
              then (meta_u64 (db s) ''current_term'', meta_string (db s) ''voted_for'') else (t, v)), s'')"
proof -
  obtain r s' where run: "SaveTermVote t v s = (r, s')" by fastforce
  note C = commitsD [OF SaveTermVote_commits run]
  have ok: "db_ok (db s')"
    using C(1,2) assms(1) by (cases r) (simp_all add: db_ok_effects)
  then have "CurrentTermVote (s'\<lparr>faults := []\<rparr>) =
      (Inr (meta_u64 (db s') ''current_term'', meta_string (db s') ''voted_for''), s'\<lparr>faults := []\<rparr>)"
    using answers_clean [OF CurrentTermVote_answers, of "s'\<lparr>faults := []\<rparr>"] by auto
  moreover have "reopen order s' = (Inr (), s'\<lparr>faults := []\<rparr>)"
    by (rule reopen_ok [OF ok assms(2)])
  ultimately show ?thesis
    using C(1,2) run by (cases r) (simp_all add: view_simps)
qed

theorem term_vote_survives_restart_witness:
  "\<exists>s''. reopen metadata_defaults (snd (SaveTermVote 3 ''n2'' (fresh_store []))) = (Inr (), s'')
    \<and> CurrentTermVote s'' = (Inr (3, ''n2''), s'')"
proof -
  have "\<not> isl (fst (SaveTermVote 3 ''n2'' (fresh_store [])))"
    using commitsD(3) [OF SaveTermVote_commits, of 3 "''n2''" "fresh_store []"]
    by (cases "SaveTermVote 3 ''n2'' (fresh_store [])") (simp add: fresh_store_def)
  then show ?thesis
    using term_vote_survives_restart [OF fresh_store_ok [of "[]"] defaults_order_refl, where t = 3 and v = "''n2''"] by simp
qed

section \<open>Reading back\<close>

text \<open>
  C6: entries appended after the last index are all found again, by index, by term and as a range,
  the last position is that of the last one, and the log stays gap free.
\<close>

theorem appended_entries_read_back:
  assumes "log_ok (db s)" and "follows (last_index (db s)) es" and "last_index (db s) < max_int64"
    and "Store_AppendEntries es s = (Inr (), s')" and "faults s' = []" and "e \<in> set es"
  shows "Store_Entry (Entry_Index e) s' = (Inr (Some e), s')
    \<and> Store_Term (Entry_Index e) s' = (Inr (Some (Entry_Term e)), s')
    \<and> EntriesFrom (last_index (db s) + 1) 0 s' = (Inr es, s')
    \<and> LastIndexAndTerm s' = (Inr (Entry_Index (last es), Entry_Term (last es)), s')
    \<and> log_ok (db s')"
proof -
  have d: "db s' = put_entries es (db s)"
    using commitsD(1) [OF Store_AppendEntries_commits assms(4)] by blast
  have ok: "log_ok (db s')"
    unfolding d by (rule put_entries_log(1) [OF assms(1,2)])
  note read = answers_clean [OF _ log_ok_meta [OF ok] assms(5)]
  have at: "entry_at (db s') (Entry_Index x) = Some x" if "x \<in> set es" for x
    unfolding d by (rule entry_at_appended [OF assms(1,2) that])
  have ne: "es \<noteq> []" using assms(6) by auto
  have "last_index (db s') = Entry_Index (last es)"
    unfolding d put_entries_log(2) [OF assms(1,2)] by (rule end_index_last [OF ne])
  moreover from this have "snd (last_entry (db s')) = Entry_Term (last es)"
    using term_at_last [OF ok] entry_at_term [OF ok at [OF last_in_set [OF ne]]] by simp
  ultimately have last: "last_entry (db s') = (Entry_Index (last es), Entry_Term (last es))"
    by (subst last_entry_eq) simp
  show ?thesis
    using read [OF Store_Entry_answers] read [OF Store_Term_answers] read [OF EntriesFrom_answers]
      read [OF LastIndexAndTerm_answers] at [OF assms(6)] entry_at_term [OF ok at [OF assms(6)]]
      entries_from_appended [OF assms(1-3)] last ok
    by (simp add: d)
qed

theorem appended_entries_read_back_witness:
  "\<exists>s'. Store_AppendEntries demo_entries (fresh_store []) = (Inr (), s')
    \<and> EntriesFrom 1 0 s' = (Inr demo_entries, s') \<and> LastIndexAndTerm s' = (Inr (2, 1), s')"
proof -
  obtain r s' where run: "Store_AppendEntries demo_entries (fresh_store []) = (r, s')" by fastforce
  then have r: "r = Inr ()" and f: "faults s' = []"
    using commitsD(3) [OF Store_AppendEntries_commits run] by (simp_all add: fresh_store_def)
  have "follows 0 demo_entries" and "0 < max_int64"
    by (simp_all add: demo_entries_def max_int64_def)
  then show ?thesis
    using appended_entries_read_back [OF log_ok_fresh [of "[]"], where es = demo_entries and s' = s'
          and e = "hd demo_entries"]
      run r f last_index_fresh
    by (simp add: demo_entries_def)
qed

text \<open>
  C7: a snapshot taken on one node and installed on another reproduces the state machine key by
  key, on both nodes it is the saved snapshot, and both count its index as applied and compacted.
  Keys and values are the UTF-8 strings that protobuf lets through.
\<close>

theorem snapshot_transfers_state:
  assumes "db_ok (db a)" and "utf8_map (kv_state (db a))" and "CreateSnapshot i t a = (Inr sn, a')"
    and "db_ok (db b)" and "Store_InstallSnapshot sn b = (Inr (), b')"
  shows "kv_get (db b') = kv_get (db a) \<and> kv_get (db a') = kv_get (db a)
    \<and> saved_snapshot (db a') = sn \<and> saved_snapshot (db b') = sn
    \<and> snap_index (db a') = i \<and> snap_index (db b') = i \<and> snap_term (db a') = t \<and> snap_term (db b') = t
    \<and> meta_u64 (db a') ''last_applied'' = i \<and> meta_u64 (db b') ''last_applied'' = i"
proof -
  have sn: "sn = snapshot_now i t (db a)" and a': "db a' = drop_through i (put_snapshot sn (db a))"
    using CreateSnapshot_cases(1) [OF db_okD(4) [OF assms(1)] assms(3)] by auto
  have "snapshot_state sn = Inr (kv_state (db a))"
    unfolding sn by (rule snapshot_state_now [OF assms(1,2)])
  then have b': "db b' = restore sn (kv_state (db a)) (db b)"
    using commitsD(1) [OF Store_InstallSnapshot_commits assms(5)] by blast
  have "kv_get (db b') = kv_get (db a)"
    by (simp add: b' fun_eq_iff kv_get_restore [OF assms(4) table_ok_kv_state [OF assms(1)]]
        lookup_kv_state [OF assms(1)])
  moreover have "kv_get (db a') = kv_get (db a)"
    by (simp add: a' fun_eq_iff view_simps)
  moreover have "saved_snapshot (db a') = sn"
    by (simp add: a' drop_through_def put_snapshot_def saved_snapshot_def view_simps)
  moreover have "LastIncludedIndex sn = i" "LastIncludedTerm sn = t"
    by (simp_all add: sn snapshot_now_def)
  ultimately show ?thesis
    by (simp add: a' b' view_simps)
qed

lemma demo_store_ok: "db_ok (db demo_store)" and demo_store_utf8: "utf8_map (kv_state (db demo_store))"
proof -
  show ok: "db_ok (db demo_store)"
    by (simp add: demo_store_def db_ok_effects fresh_store_ok)
  have "kv (db demo_store) = [(''a'', ''1'', 1)]"
    by (simp add: demo_store_def apply_set_def put_meta_def fresh_store_def empty_db_def int64_def)
  then show "utf8_map (kv_state (db demo_store))"
    by (simp add: kv_state_rows [OF ok] utf8_map_def) (simp add: utf8_valid.simps utf8_size_def utf8_first_def)
qed

theorem snapshot_transfers_state_witness:
  "\<exists>sn a' b'. CreateSnapshot 1 1 demo_store = (Inr sn, a')
    \<and> Store_InstallSnapshot sn (fresh_store []) = (Inr (), b') \<and> kv_get (db b') ''a'' = Some ''1''"
proof -
  obtain r a' where run: "CreateSnapshot 1 1 demo_store = (r, a')" by fastforce
  then obtain sn where r: "r = Inr sn" and sn: "sn = snapshot_now 1 1 (db demo_store)"
    using CreateSnapshot_cases(3) [OF db_okD(4) [OF demo_store_ok] run] by (auto simp: demo_store_def)
  have "snapshot_state sn = Inr (kv_state (db demo_store))"
    unfolding sn by (rule snapshot_state_now [OF demo_store_ok demo_store_utf8])
  note inst = commitsD(3) [OF Store_InstallSnapshot_commits [OF this]]
  obtain q b' where "Store_InstallSnapshot sn (fresh_store []) = (q, b')" by fastforce
  moreover from this have "q = Inr ()" using inst by (simp add: fresh_store_def)
  ultimately have b': "Store_InstallSnapshot sn (fresh_store []) = (Inr (), b')" by simp
  have "kv_get (db demo_store) ''a'' = Some ''1''"
    by (simp add: demo_store_def view_simps)
  then show ?thesis
    using snapshot_transfers_state [OF demo_store_ok demo_store_utf8 run [unfolded r] fresh_store_ok b'] run r b'
    by auto
qed

end
