(* ===== verification/Metrics.thy ===== *)
theory Metrics imports Table
begin

text \<open>
  The Prometheus series of a node (internal/metrics/metrics.go): the value each gauge, counter and
  histogram holds.  Gauges hold \<open>float64\<close> values, so a \<open>uint64\<close> above \<open>2 ^ 53\<close> is rounded; the
  histograms are kept as the list of the durations observed.  The HTTP handler is third-party code.
\<close>

text \<open>\<open>float64(x)\<close> of a \<open>uint64\<close>: round to 53 significant bits, ties to even.\<close>

fun bit_length :: "nat \<Rightarrow> nat" where
  "bit_length n = (if n = 0 then 0 else Suc (bit_length (n div 2)))"

declare bit_length.simps [simp del]

definition float64 :: "u64 \<Rightarrow> nat" where
  "float64 w =
     (let n = unat w; e = bit_length n - 53 in
      if e = 0 then n
      else let q = n div 2 ^ e; r = n mod 2 ^ e; half = 2 ^ (e - 1)
           in (if half < r \<or> (r = half \<and> odd q) then q + 1 else q) * 2 ^ e)"

record Metrics =
  metrics_node_id :: string
  m_isLeader :: nat
  m_term :: nat
  m_commitIndex :: nat
  m_lastApplied :: nat
  m_lastLogIndex :: nat
  m_snapshotIndex :: nat
  m_elections :: nat
  m_rpcs :: "(string \<times> string) \<Rightarrow> nat"
  m_replicationLag :: "string \<rightharpoonup> nat"
  m_commitLatency :: "duration list"
  m_applyLatency :: "duration list"

definition Metrics_New :: "string \<Rightarrow> Metrics" where
  "Metrics_New nodeID =
     \<lparr>metrics_node_id = nodeID, m_isLeader = 0, m_term = 0, m_commitIndex = 0, m_lastApplied = 0,
      m_lastLogIndex = 0, m_snapshotIndex = 0, m_elections = 0, m_rpcs = (\<lambda>_. 0),
      m_replicationLag = Map.empty, m_commitLatency = [], m_applyLatency = []\<rparr>"

definition SetState :: "bool \<Rightarrow> u64 \<Rightarrow> u64 \<Rightarrow> u64 \<Rightarrow> u64 \<Rightarrow> u64 \<Rightarrow> Metrics \<Rightarrow> Metrics" where
  "SetState isLeader term commitIndex lastApplied lastLogIndex snapshotIndex m =
     m\<lparr>m_isLeader := (if isLeader then 1 else 0), m_term := float64 term,
       m_commitIndex := float64 commitIndex, m_lastApplied := float64 lastApplied,
       m_lastLogIndex := float64 lastLogIndex, m_snapshotIndex := float64 snapshotIndex\<rparr>"

definition ElectionStarted :: "Metrics \<Rightarrow> Metrics" where
  "ElectionStarted m = m\<lparr>m_elections := m_elections m + 1\<rparr>"

definition RPCHandled :: "string \<Rightarrow> string \<Rightarrow> Metrics \<Rightarrow> Metrics" where
  "RPCHandled method result m =
     m\<lparr>m_rpcs := (m_rpcs m)((method, result) := m_rpcs m (method, result) + 1)\<rparr>"

definition SetReplicationLag :: "string \<Rightarrow> u64 \<Rightarrow> Metrics \<Rightarrow> Metrics" where
  "SetReplicationLag peerID entries m =
     m\<lparr>m_replicationLag := (m_replicationLag m)(peerID \<mapsto> float64 entries)\<rparr>"

definition ClearReplicationLag :: "Metrics \<Rightarrow> Metrics" where
  "ClearReplicationLag m = m\<lparr>m_replicationLag := Map.empty\<rparr>"

definition CommitLatency :: "duration \<Rightarrow> Metrics \<Rightarrow> Metrics" where
  "CommitLatency d m = m\<lparr>m_commitLatency := m_commitLatency m @ [d]\<rparr>"

definition ApplyLatency :: "duration \<Rightarrow> Metrics \<Rightarrow> Metrics" where
  "ApplyLatency d m = m\<lparr>m_applyLatency := m_applyLatency m @ [d]\<rparr>"

section \<open>Precision of the gauges\<close>

lemma bit_length_bound: "n < 2 ^ bit_length n"
proof (induction n rule: bit_length.induct)
  case (1 n)
  then show ?case
    by (cases "n = 0") (simp_all add: bit_length.simps [of n] bit_length.simps [of 0])
qed

lemma bit_length_le: "n < 2 ^ k \<Longrightarrow> bit_length n \<le> k"
proof (induction k arbitrary: n)
  case 0
  then show ?case by (simp add: bit_length.simps)
next
  case (Suc k)
  then have "n div 2 < 2 ^ k" by (simp add: less_mult_imp_div_less mult.commute)
  with Suc.IH show ?case by (simp add: bit_length.simps [of n])
qed

lemma float64_exact: "unat w < 2 ^ 53 \<Longrightarrow> float64 w = unat w"
  using bit_length_le [of "unat w" 53] by (simp add: float64_def Let_def)

lemma float64_zero [simp]: "float64 0 = 0"
  by (simp add: float64_exact)

end
