(* ===== verification/Messages.thy ===== *)
theory Messages imports Prelude
begin

text \<open>
  The messages of the two gRPC services (internal/raftpb/raft.pb.go, generated from
  api/proto/raft/v1/raft.proto).  A getter of a generated message returns the field; the messages
  built by the node are never nil.
\<close>

record LogEntry =
  LogEntry_Index :: u64
  LogEntry_Term :: u64
  LogEntry_Command :: bytes

record RequestVoteRequest =
  VoteReq_Term :: u64
  VoteReq_CandidateId :: string
  VoteReq_LastLogIndex :: u64
  VoteReq_LastLogTerm :: u64

record RequestVoteResponse =
  VoteResp_Term :: u64
  VoteResp_VoteGranted :: bool

record AppendEntriesRequest =
  AppendReq_Term :: u64
  AppendReq_LeaderId :: string
  AppendReq_PrevLogIndex :: u64
  AppendReq_PrevLogTerm :: u64
  AppendReq_Entries :: "LogEntry list"
  AppendReq_LeaderCommit :: u64

record AppendEntriesResponse =
  AppendResp_Term :: u64
  AppendResp_Success :: bool
  AppendResp_MatchIndex :: u64

record InstallSnapshotRequest =
  SnapReq_Term :: u64
  SnapReq_LeaderId :: string
  SnapReq_LastIncludedIndex :: u64
  SnapReq_LastIncludedTerm :: u64
  SnapReq_Data :: bytes

record InstallSnapshotResponse =
  SnapResp_Term :: u64

record WriteRequest =
  WriteReq_Key :: string
  WriteReq_Value :: string

record DeleteRequest =
  DeleteReq_Key :: string

record WriteResponse =
  WriteResp_LeaderId :: string
  WriteResp_Index :: u64
  WriteResp_Term :: u64

record ReadRequest =
  ReadReq_Key :: string

record ReadResponse =
  ReadResp_LeaderId :: string
  ReadResp_Value :: string

record PeerStatus =
  PeerStatus_Id :: string
  PeerStatus_Address :: string
  PeerStatus_MatchIndex :: u64
  PeerStatus_NextIndex :: u64

record StatusResponse =
  StatusResp_Id :: string
  StatusResp_Role :: string
  StatusResp_Term :: u64
  StatusResp_LeaderId :: string
  StatusResp_CommitIndex :: u64
  StatusResp_LastApplied :: u64
  StatusResp_LastLogIndex :: u64
  StatusResp_SnapshotIndex :: u64
  StatusResp_Peers :: "PeerStatus list"

record InspectLogResponse =
  InspectResp_Id :: string
  InspectResp_Role :: string
  InspectResp_Term :: u64
  InspectResp_CommitIndex :: u64
  InspectResp_LastApplied :: u64
  InspectResp_SnapshotIndex :: u64
  InspectResp_Entries :: "LogEntry list"
  InspectResp_State :: "(string \<times> string) list"

section \<open>Status errors\<close>

text \<open>
  The gRPC status a handler returns: a code with a message, where \<open>Statusf\<close> is \<open>status.Errorf\<close>, a
  format with its arguments in their decimal or unquoted form, and \<open>StatusInternal\<close> is
  \<open>internalError\<close>, which keeps only the text of the error it wraps.
\<close>

datatype code = InvalidArgument | NotFound | Unavailable | DeadlineExceeded | Canceled | Internal

datatype status = Status code string | Statusf code string "string list" | StatusInternal error

fun status_code :: "status \<Rightarrow> code" where
  "status_code (Status c m) = c"
| "status_code (Statusf c m args) = c"
| "status_code (StatusInternal e) = Internal"

definition internalError :: "error \<Rightarrow> status" where
  "internalError e = StatusInternal e"

end
