(* ===== verification/Command.thy ===== *)
theory Command imports Store_Laws
begin

text \<open>
  The payload of a log entry (internal/raft/command.go): its JSON form, the checks on decoding and
  its effect on the state machine.
\<close>

record command =
  Op :: string
  Key :: string
  Value :: string

definition opSet :: string where
  "opSet = ''set''"

definition opDelete :: string where
  "opDelete = ''delete''"

definition zero_command :: command where
  "zero_command = \<lparr>Op = [], Key = [], Value = []\<rparr>"

definition setCommand :: "string \<Rightarrow> string \<Rightarrow> command" where
  "setCommand key val = \<lparr>Op = opSet, Key = key, Value = val\<rparr>"

definition deleteCommand :: "string \<Rightarrow> command" where
  "deleteCommand key = \<lparr>Op = opDelete, Key = key, Value = []\<rparr>"

text \<open>\<open>json.Marshal\<close> of a struct of strings cannot fail; \<open>value\<close> is left out when it is empty.\<close>

definition encode :: "command \<Rightarrow> error + bytes" where
  "encode c =
     Inr (json_object ([(''op'', Op c), (''key'', Key c)] @ (if Value c = [] then [] else [(''value'', Value c)])))"

section \<open>Decoding\<close>

text \<open>
  \<open>encoding/json\<close> finds the field of a member by its exact name, else by its folded name: ASCII
  letters in upper case and U+212A (Kelvin sign) as K.  No field name holds another letter with a
  fold outside ASCII.
\<close>

definition upper_char :: "char \<Rightarrow> char" where
  "upper_char c = (let n = (of_char c :: nat) in if 97 \<le> n \<and> n \<le> 122 then char_of (n - 32) else c)"

definition kelvin :: string where
  "kelvin = [CHR 0xE2, CHR 0x84, CHR 0xAA]"

fun fold_name :: "string \<Rightarrow> string" where
  "fold_name [] = []"
| "fold_name (c # s) =
     (if take 3 (c # s) = kelvin then CHR ''K'' # fold_name (drop 2 s) else upper_char c # fold_name s)"

definition field_of :: "string \<Rightarrow> string option" where
  "field_of k =
     (let names = [''op'', ''key'', ''value'']
      in if k \<in> set names then Some k else find (\<lambda>n. fold_name n = fold_name k) names)"

text \<open>One member of the object: \<open>None\<close> is an \<open>UnmarshalTypeError\<close>; JSON null leaves a string alone.\<close>

definition set_field :: "string \<Rightarrow> json \<Rightarrow> command \<Rightarrow> command option" where
  "set_field k j c =
     (case field_of k of
        None \<Rightarrow> Some c
      | Some f \<Rightarrow>
          (case j of
             JNull \<Rightarrow> Some c
           | JStr v \<Rightarrow>
               Some (if f = ''op'' then c\<lparr>Op := v\<rparr> else if f = ''key'' then c\<lparr>Key := v\<rparr> else c\<lparr>Value := v\<rparr>)
           | _ \<Rightarrow> None))"

fun set_fields :: "(string \<times> json) list \<Rightarrow> command \<Rightarrow> command option" where
  "set_fields [] c = Some c"
| "set_fields ((k, j) # ms) c = (case set_field k j c of None \<Rightarrow> None | Some c' \<Rightarrow> set_fields ms c')"

definition json_unmarshal_command :: "bytes \<Rightarrow> error + command" where
  "json_unmarshal_command raw =
     (case json_parse raw of
        None \<Rightarrow> Inl (ErrorNew ''invalid JSON'')
      | Some JNull \<Rightarrow> Inr zero_command
      | Some (JObj ms) \<Rightarrow>
          (case set_fields ms zero_command of
             None \<Rightarrow> Inl (ErrorNew ''cannot unmarshal'')
           | Some c \<Rightarrow> Inr c)
      | Some _ \<Rightarrow> Inl (ErrorNew ''cannot unmarshal''))"

definition decodeCommand :: "bytes \<Rightarrow> error + command" where
  "decodeCommand raw =
     (case json_unmarshal_command raw of
        Inl e \<Rightarrow> Inl (Errorf ''decode command: %w'' e)
      | Inr cmd \<Rightarrow>
          if Op cmd \<noteq> opSet \<and> Op cmd \<noteq> opDelete then Inl (ErrorNew ''unsupported command %q'')
          else if Key cmd = [] then Inl (ErrorNew ''command %q has an empty key'')
          else Inr cmd)"

section \<open>Applying\<close>

definition applyTo :: "command \<Rightarrow> u64 \<Rightarrow> Store \<Rightarrow> unit outcome" where
  "applyTo c index store =
     (if Op c = opDelete then ApplyDelete index (Key c) store else ApplySet index (Key c) (Value c) store)"

text \<open>The effect of a command on the tables, and on the state machine as a map.\<close>

definition apply_command :: "command \<Rightarrow> u64 \<Rightarrow> db \<Rightarrow> db" where
  "apply_command c i = (if Op c = opDelete then apply_delete i (Key c) else apply_set i (Key c) (Value c))"

definition run_command :: "command \<Rightarrow> (string \<rightharpoonup> string) \<Rightarrow> (string \<rightharpoonup> string)" where
  "run_command c m = (if Op c = opDelete then m(Key c := None) else m(Key c \<mapsto> Value c))"

section \<open>The contract of a replicated state machine\<close>

text \<open>
  Applying a command at an index changes the visible state by the command alone and records the
  index.  Replaying a run of indexed commands is then a fold over the commands.
\<close>

locale state_machine =
  fixes step :: "'c \<Rightarrow> u64 \<Rightarrow> 'd \<Rightarrow> 'd" and view :: "'d \<Rightarrow> 's" and run :: "'c \<Rightarrow> 's \<Rightarrow> 's"
    and applied :: "'d \<Rightarrow> u64"
  assumes view_step: "view (step c i d) = run c (view d)"
    and applied_step: "applied (step c i d) = i"
begin

lemma view_replay: "view (fold (\<lambda>(i, c). step c i) ics d) = fold run (map snd ics) (view d)"
  by (induction ics arbitrary: d) (auto simp: view_step)

lemma applied_replay: "ics \<noteq> [] \<Longrightarrow> applied (fold (\<lambda>(i, c). step c i) ics d) = fst (last ics)"
  by (induction ics arbitrary: d) (auto simp: applied_step)

text \<open>Two replicas that replay the same commands from the same state agree.\<close>

lemma replicas_agree:
  "view d = view d' \<Longrightarrow> map snd ics = map snd jcs \<Longrightarrow>
     view (fold (\<lambda>(i, c). step c i) ics d) = view (fold (\<lambda>(i, c). step c i) jcs d')"
  by (simp add: view_replay)

end

lemma kv_get_apply_command: "kv_get (apply_command c i d) = run_command c (kv_get d)"
  by (auto simp: apply_command_def run_command_def view_simps fun_eq_iff)

lemma last_applied_apply_command: "meta_u64 (apply_command c i d) ''last_applied'' = i"
  by (simp add: apply_command_def view_simps)

interpretation kvm: state_machine apply_command kv_get run_command "\<lambda>d. meta_u64 d ''last_applied''"
  by unfold_locales (rule kv_get_apply_command, rule last_applied_apply_command)

lemma applyTo_commits: "commits (applyTo c i) (apply_command c i)"
  using ApplyDelete_commits ApplySet_commits
  by (cases "Op c = opDelete") (simp_all add: applyTo_def [abs_def] apply_command_def)

lemma db_ok_apply_command: "db_ok d \<Longrightarrow> db_ok (apply_command c i d)"
  by (simp add: apply_command_def db_ok_effects)

section \<open>The encoding\<close>

lemma field_of_names [simp]:
  "field_of ''op'' = Some ''op''" "field_of ''key'' = Some ''key''" "field_of ''value'' = Some ''value''"
  by (simp_all add: field_of_def)

lemma utf8_ascii: "list_all (\<lambda>c. (of_char c :: nat) < 128) s \<Longrightarrow> utf8_valid s"
proof (induction s)
  case (Cons c s)
  then have "utf8_size (c # s) = 1"
    by (simp add: utf8_size_def utf8_first_def)
  with Cons show ?case by (simp add: utf8_valid_Cons)
qed (simp add: utf8_valid.simps)

lemma utf8_names [simp]:
  "utf8_valid ''op''" "utf8_valid ''key''" "utf8_valid ''value''" "utf8_valid opSet" "utf8_valid opDelete"
  by (rule utf8_ascii, simp add: opSet_def opDelete_def)+

definition command_ok :: "command \<Rightarrow> bool" where
  "command_ok c \<longleftrightarrow> (Op c = opSet \<or> Op c = opDelete) \<and> Key c \<noteq> [] \<and> utf8_valid (Key c) \<and> utf8_valid (Value c)"

lemma unmarshal_encode:
  assumes "command_ok c"
  shows "json_unmarshal_command (projr (encode c)) = Inr c"
proof -
  let ?ms = "[(''op'', Op c), (''key'', Key c)] @ (if Value c = [] then [] else [(''value'', Value c)])"
  have "utf8_map ?ms"
    using assms by (auto simp: utf8_map_def command_ok_def)
  then have "json_parse (json_object ?ms) = Some (JObj (str_members ?ms))"
    by (rule json_parse_object)
  then show ?thesis
    by (auto simp: json_unmarshal_command_def encode_def set_field_def zero_command_def)
qed

lemma decode_encode: "command_ok c \<Longrightarrow> decodeCommand (projr (encode c)) = Inr c"
  using unmarshal_encode [of c] by (auto simp: decodeCommand_def command_ok_def)

lemma decodeCommand_checked:
  "decodeCommand raw = Inr c \<Longrightarrow> (Op c = opSet \<or> Op c = opDelete) \<and> Key c \<noteq> []"
  by (auto simp: decodeCommand_def split: sum.splits if_splits)

end
