(* ===== verification/Node.thy ===== *)
theory Node imports Store_Props Metrics Messages Command
begin

text \<open>
  The state of a node and the operations every part of it shares (internal/raft/node.go and
  options.go).  A function models one critical section: it maps the node at \<open>mu.Lock\<close> to the node
  at \<open>mu.Unlock\<close>.  The clock and the random source are part of the state: \<open>ticks\<close> says how far the
  clock moves before each of the coming readings and \<open>rands\<close> what the source will deliver (zero
  once a list is used up).  Log messages are not modelled.
\<close>

section \<open>Data\<close>

datatype Role = RoleFollower | RoleCandidate | RoleLeader

fun role_string :: "Role \<Rightarrow> string" where
  "role_string RoleFollower = ''follower''"
| "role_string RoleCandidate = ''candidate''"
| "role_string RoleLeader = ''leader''"

record Peer =
  Peer_ID :: string
  Peer_Address :: string

record Options =
  Opt_NodeID :: string
  Opt_GRPCAddr :: string
  Opt_HTTPAddr :: string
  Opt_DataDir :: string
  Opt_Peers :: "Peer list"
  Opt_ElectionMin :: duration
  Opt_ElectionMax :: duration
  Opt_HeartbeatInterval :: duration
  Opt_SnapshotThreshold :: u64

record Node =
  node_id :: string
  grpcAddr :: string
  httpAddr :: string
  peers :: "Peer list"
  store :: Store
  metrics :: Metrics
  electionMin :: duration
  electionMax :: duration
  heartbeat :: duration
  snapshotThreshold :: u64
  role :: Role
  currentTerm :: u64
  votedFor :: string
  leaderID :: string
  commitIndex :: u64
  lastApplied :: u64
  nextIndex :: "string \<rightharpoonup> u64"
  matchIndex :: "string \<rightharpoonup> u64"
  electionDeadline :: int
  unreachable :: "string \<rightharpoonup> bool"
  kvClients :: "string \<rightharpoonup> string"
  replicateNow :: "string \<rightharpoonup> bool"
  clock :: int
  ticks :: "nat list"
  rands :: "u64 list"

definition millisecond :: duration where
  "millisecond = 1000000"

definition defaultMinElectionTimeout :: duration where
  "defaultMinElectionTimeout = 500 * millisecond"

definition defaultMaxElectionTimeout :: duration where
  "defaultMaxElectionTimeout = 900 * millisecond"

definition defaultHeartbeatInterval :: duration where
  "defaultHeartbeatInterval = 100 * millisecond"

definition appendBatchSize :: int where
  "appendBatchSize = 128"

section \<open>Clock, random source and store access\<close>

text \<open>\<open>time.Duration\<close> arithmetic is \<open>int64\<close> arithmetic.\<close>

definition duration_add :: "duration \<Rightarrow> duration \<Rightarrow> duration" where
  "duration_add a b = int64 (uint64 (a + b))"

definition duration_sub :: "duration \<Rightarrow> duration \<Rightarrow> duration" where
  "duration_sub a b = int64 (uint64 (a - b))"

definition time_Now :: "Node \<Rightarrow> int \<times> Node" where
  "time_Now n =
     (case ticks n of
        [] \<Rightarrow> (clock n, n)
      | t # ts \<Rightarrow> (clock n + int t, n\<lparr>clock := clock n + int t, ticks := ts\<rparr>))"

text \<open>\<open>rand.Int63n(w)\<close> for positive \<open>w\<close>.\<close>

definition rand_Int63n :: "int \<Rightarrow> Node \<Rightarrow> int \<times> Node" where
  "rand_Int63n w n =
     (case rands n of
        [] \<Rightarrow> (0, n)
      | r # rs \<Rightarrow> (uint r mod w, n\<lparr>rands := rs\<rparr>))"

text \<open>A call of a method of \<open>n.store\<close>.\<close>

definition on_store :: "(Store \<Rightarrow> 'a outcome) \<Rightarrow> Node \<Rightarrow> (error + 'a) \<times> Node" where
  "on_store op n = (case op (store n) of (r, s) \<Rightarrow> (r, n\<lparr>store := s\<rparr>))"

definition on_metrics :: "(Metrics \<Rightarrow> Metrics) \<Rightarrow> Node \<Rightarrow> Node" where
  "on_metrics f n = n\<lparr>metrics := f (metrics n)\<rparr>"

section \<open>Operations\<close>

definition resetElectionDeadlineLocked :: "Node \<Rightarrow> Node" where
  "resetElectionDeadlineLocked n =
     (let window = duration_sub (electionMax n) (electionMin n);
          (timeout, n1) =
            (if 0 < window
             then (case rand_Int63n window n of (r, n1) \<Rightarrow> (duration_add (electionMin n) r, n1))
             else (electionMin n, n));
          (now, n2) = time_Now n1
      in n2\<lparr>electionDeadline := now + timeout\<rparr>)"

definition publishStateLocked :: "Node \<Rightarrow> Node" where
  "publishStateLocked n =
     (case on_store LastIndexAndTerm n of
        (Inl e, n1) \<Rightarrow> n1
      | (Inr (lastLogIndex, _), n1) \<Rightarrow>
          (case on_store SnapshotIndexTerm n1 of
             (Inl e, n2) \<Rightarrow> n2
           | (Inr (snapshotIndex, _), n2) \<Rightarrow>
               on_metrics (SetState (role n2 = RoleLeader) (currentTerm n2) (commitIndex n2)
                             (lastApplied n2) lastLogIndex snapshotIndex) n2))"

definition stepDownLocked :: "u64 \<Rightarrow> string \<Rightarrow> Node \<Rightarrow> Node" where
  "stepDownLocked term lid n =
     (let n1 = (if currentTerm n < term
                then snd (on_store (SaveTermVote term []) (n\<lparr>currentTerm := term, votedFor := []\<rparr>))
                else n);
          n2 = (if role n1 = RoleLeader then on_metrics ClearReplicationLag n1 else n1);
          n3 = n2\<lparr>role := RoleFollower, leaderID := lid\<rparr>
      in publishStateLocked (resetElectionDeadlineLocked n3))"

definition majorityLocked :: "Node \<Rightarrow> nat" where
  "majorityLocked n = (length (peers n) + 1) div 2 + 1"

definition Node_ID :: "Node \<Rightarrow> string" where
  "Node_ID n = node_id n"

definition Leader :: "Node \<Rightarrow> string \<times> bool" where
  "Leader n = (if role n = RoleLeader then (node_id n, True) else (leaderID n, False))"

definition isLeader :: "Node \<Rightarrow> bool" where
  "isLeader n \<longleftrightarrow> role n = RoleLeader"

definition electionDue :: "Node \<Rightarrow> bool \<times> Node" where
  "electionDue n =
     (if role n = RoleLeader then (False, n)
      else case time_Now n of (now, n1) \<Rightarrow> (electionDeadline n1 < now, n1))"

definition dialTarget :: "string \<Rightarrow> string" where
  "dialTarget address = (if Contains address ''://'' then address else ''passthrough:///'' @ address)"

text \<open>
  \<open>dialPeers\<close>: \<open>newClient\<close> is \<open>grpc.NewClient\<close>, which may refuse a target; a client is named by its
  target.  The consensus clients of a peer are created together with the client of its key/value
  service.
\<close>

fun dial :: "(string \<Rightarrow> error option) \<Rightarrow> Peer list \<Rightarrow> Node \<Rightarrow> (error + unit) \<times> Node" where
  "dial newClient [] n = (Inr (), n)"
| "dial newClient (p # ps) n =
     (case newClient (dialTarget (Peer_Address p)) of
        Some e \<Rightarrow> (Inl (Errorf ''create client for %s: %w'' e), n)
      | None \<Rightarrow> dial newClient ps (n\<lparr>kvClients := (kvClients n)(Peer_ID p \<mapsto> dialTarget (Peer_Address p))\<rparr>))"

definition dialPeers :: "(string \<Rightarrow> error option) \<Rightarrow> Node \<Rightarrow> (error + unit) \<times> Node" where
  "dialPeers newClient n = dial newClient (peers n) n"

section \<open>Creation\<close>

text \<open>What a process finds when it starts: the results of the system calls, its disk, its clock.\<close>

record boot =
  boot_mkdir :: "error option"
  boot_sqlopen :: "error option"
  boot_order :: "(string \<times> string) list"
  boot_disk :: Store
  boot_clock :: int
  boot_ticks :: "nat list"
  boot_rands :: "u64 list"

definition new_node :: "Options \<Rightarrow> boot \<Rightarrow> Store \<Rightarrow> u64 \<Rightarrow> string \<Rightarrow> u64 \<Rightarrow> Node" where
  "new_node opts b s term vote applied =
     \<lparr>node_id = Opt_NodeID opts, grpcAddr = Opt_GRPCAddr opts, httpAddr = Opt_HTTPAddr opts,
      peers = Opt_Peers opts, store = s, metrics = Metrics_New (Opt_NodeID opts),
      electionMin = Opt_ElectionMin opts, electionMax = Opt_ElectionMax opts,
      heartbeat = Opt_HeartbeatInterval opts, snapshotThreshold = Opt_SnapshotThreshold opts,
      role = RoleFollower, currentTerm = term, votedFor = vote, leaderID = [],
      commitIndex = applied, lastApplied = applied, nextIndex = Map.empty, matchIndex = Map.empty,
      electionDeadline = 0, unreachable = Map.empty, kvClients = Map.empty,
      replicateNow = map_of (map (\<lambda>p. (Peer_ID p, False)) (Opt_Peers opts)),
      clock = boot_clock b, ticks = boot_ticks b, rands = boot_rands b\<rparr>"

definition with_defaults :: "Options \<Rightarrow> Options" where
  "with_defaults opts =
     opts\<lparr>Opt_ElectionMin := (if Opt_ElectionMin opts = 0 then defaultMinElectionTimeout else Opt_ElectionMin opts),
          Opt_ElectionMax := (if Opt_ElectionMax opts = 0 then defaultMaxElectionTimeout else Opt_ElectionMax opts),
          Opt_HeartbeatInterval :=
            (if Opt_HeartbeatInterval opts = 0 then defaultHeartbeatInterval else Opt_HeartbeatInterval opts)\<rparr>"

definition Node_New :: "Options \<Rightarrow> boot \<Rightarrow> error + Node" where
  "Node_New opts0 b =
     (if Opt_NodeID opts0 = [] then Inl (ErrorNew ''node id is required'')
      else if Opt_GRPCAddr opts0 = [] then Inl (ErrorNew ''grpc address is required'')
      else if Opt_DataDir opts0 = [] then Inl (ErrorNew ''data directory is required'')
      else let opts = with_defaults opts0 in
        case Open (boot_order b) (boot_mkdir b) (boot_sqlopen b) (boot_disk b) of
          (Inl e, _) \<Rightarrow> Inl e
        | (Inr _, s1) \<Rightarrow>
            (case CurrentTermVote s1 of
               (Inl e, _) \<Rightarrow> Inl e
             | (Inr (term, vote), s2) \<Rightarrow>
                 (case LastApplied s2 of
                    (Inl e, _) \<Rightarrow> Inl e
                  | (Inr applied, s3) \<Rightarrow>
                      Inr (publishStateLocked (resetElectionDeadlineLocked
                             (new_node opts b s3 term vote applied))))))"

section \<open>What an operation leaves alone\<close>

text \<open>
  \<open>erase\<close> blanks what no decision about the protocol depends on: the metrics, the clock, the random
  source, the election deadline and the coming driver faults.  An operation that only touches those
  is the identity under \<open>erase\<close>.
\<close>

definition erase :: "Node \<Rightarrow> Node" where
  "erase n = n\<lparr>store := (store n)\<lparr>faults := []\<rparr>, metrics := Metrics_New [], electionDeadline := 0,
               clock := 0, ticks := [], rands := []\<rparr>"

definition same :: "Node \<Rightarrow> Node \<Rightarrow> bool" where
  "same m n \<longleftrightarrow> erase m = erase n"

abbreviation ndb :: "Node \<Rightarrow> db" where
  "ndb n \<equiv> db (store n)"

lemma same_refl [simp]: "same n n"
  by (simp add: same_def)

lemma same_sym: "same m n \<Longrightarrow> same n m"
  by (simp add: same_def)

lemma same_trans [trans]: "same l m \<Longrightarrow> same m n \<Longrightarrow> same l n"
  by (simp add: same_def)

lemma same_iff:
  "same m n \<longleftrightarrow>
     ndb m = ndb n \<and> node_id m = node_id n \<and> grpcAddr m = grpcAddr n \<and> httpAddr m =
     httpAddr n \<and> peers m = peers n \<and> electionMin m = electionMin n \<and> electionMax m =
     electionMax n \<and> heartbeat m = heartbeat n \<and> snapshotThreshold m = snapshotThreshold n
     \<and> role m = role n \<and> currentTerm m = currentTerm n \<and> votedFor m = votedFor n
     \<and> leaderID m = leaderID n \<and> commitIndex m = commitIndex n \<and> lastApplied m =
     lastApplied n \<and> nextIndex m = nextIndex n \<and> matchIndex m = matchIndex n \<and>
     unreachable m = unreachable n \<and> kvClients m = kvClients n \<and> replicateNow m =
     replicateNow n"
  by (cases m; cases n; cases "store m"; cases "store n") (auto simp: same_def erase_def)

lemma sameD:
  assumes "same m n"
  shows "ndb m = ndb n"
    and "node_id m = node_id n"
    and "grpcAddr m = grpcAddr n"
    and "httpAddr m = httpAddr n"
    and "peers m = peers n"
    and "electionMin m = electionMin n"
    and "electionMax m = electionMax n"
    and "heartbeat m = heartbeat n"
    and "snapshotThreshold m = snapshotThreshold n"
    and "role m = role n"
    and "currentTerm m = currentTerm n"
    and "votedFor m = votedFor n"
    and "leaderID m = leaderID n"
    and "commitIndex m = commitIndex n"
    and "lastApplied m = lastApplied n"
    and "nextIndex m = nextIndex n"
    and "matchIndex m = matchIndex n"
    and "unreachable m = unreachable n"
    and "kvClients m = kvClients n"
    and "replicateNow m = replicateNow n"
  using assms by (simp_all add: same_iff)

text \<open>Congruence: a protocol field set to the same value on both sides.\<close>

lemma same_upd:
  assumes "same m n"
    shows "same (m\<lparr>role := r\<rparr>) (n\<lparr>role := r\<rparr>)"
    and "same (m\<lparr>currentTerm := t\<rparr>) (n\<lparr>currentTerm := t\<rparr>)"
    and "same (m\<lparr>votedFor := v\<rparr>) (n\<lparr>votedFor := v\<rparr>)"
    and "same (m\<lparr>leaderID := l\<rparr>) (n\<lparr>leaderID := l\<rparr>)"
    and "same (m\<lparr>commitIndex := c\<rparr>) (n\<lparr>commitIndex := c\<rparr>)"
    and "same (m\<lparr>lastApplied := a\<rparr>) (n\<lparr>lastApplied := a\<rparr>)"
    and "same (m\<lparr>nextIndex := nx\<rparr>) (n\<lparr>nextIndex := nx\<rparr>)"
    and "same (m\<lparr>matchIndex := mt\<rparr>) (n\<lparr>matchIndex := mt\<rparr>)"
    and "same (m\<lparr>unreachable := un\<rparr>) (n\<lparr>unreachable := un\<rparr>)"
    and "same (m\<lparr>replicateNow := rn\<rparr>) (n\<lparr>replicateNow := rn\<rparr>)"
  using assms by (simp_all add: same_iff)

lemma same_blank [simp]:
  "same (on_metrics f n) n" "same (n\<lparr>electionDeadline := x\<rparr>) n" "same (n\<lparr>clock := y\<rparr>) n"
  "same (n\<lparr>ticks := z\<rparr>) n" "same (n\<lparr>rands := w\<rparr>) n"
  by (simp_all add: same_iff on_metrics_def)

text \<open>\<open>frame n' n\<close>: in addition no driver fault has appeared.\<close>

abbreviation clean :: "Node \<Rightarrow> bool" where
  "clean n \<equiv> faults (store n) = []"

definition frame :: "Node \<Rightarrow> Node \<Rightarrow> bool" where
  "frame n' n \<longleftrightarrow> same n' n \<and> (clean n \<longrightarrow> clean n')"

definition with_db :: "db \<Rightarrow> Node \<Rightarrow> Node" where
  "with_db d n = n\<lparr>store := (store n)\<lparr>db := d\<rparr>\<rparr>"

lemma frame_refl [simp]: "frame n n"
  by (simp add: frame_def)

lemma frame_trans [trans]: "frame l m \<Longrightarrow> frame m n \<Longrightarrow> frame l n"
  by (auto simp: frame_def intro: same_trans)

lemma frame_same: "frame m n \<Longrightarrow> same m n"
  by (simp add: frame_def)

lemma frame_clean: "frame m n \<Longrightarrow> clean n \<Longrightarrow> clean m"
  by (simp add: frame_def)

lemmas frameD = sameD [OF frame_same]

lemma with_db_fields [simp]:
  "ndb (with_db d n) = d" "node_id (with_db d n) = node_id n" "peers (with_db d n) = peers n"
  "snapshotThreshold (with_db d n) = snapshotThreshold n"
  "role (with_db d n) = role n" "currentTerm (with_db d n) = currentTerm n"
  "votedFor (with_db d n) = votedFor n" "leaderID (with_db d n) = leaderID n"
  "commitIndex (with_db d n) = commitIndex n" "lastApplied (with_db d n) = lastApplied n"
  "nextIndex (with_db d n) = nextIndex n" "matchIndex (with_db d n) = matchIndex n"
  "clean (with_db d n) = clean n"
  by (simp_all add: with_db_def)

lemma with_db_with_db [simp]: "with_db d (with_db d' n) = with_db d n"
  by (simp add: with_db_def)

lemma with_db_self [simp]: "with_db (ndb n) n = n"
  by (simp add: with_db_def)

lemma frame_with_db: "frame m n \<Longrightarrow> frame (with_db d m) (with_db d n)"
  by (auto simp: frame_def same_iff with_db_def)

lemma frame_upd:
  assumes "frame m n"
    shows "frame (m\<lparr>role := r\<rparr>) (n\<lparr>role := r\<rparr>)"
    and "frame (m\<lparr>currentTerm := t\<rparr>) (n\<lparr>currentTerm := t\<rparr>)"
    and "frame (m\<lparr>votedFor := v\<rparr>) (n\<lparr>votedFor := v\<rparr>)"
    and "frame (m\<lparr>leaderID := l\<rparr>) (n\<lparr>leaderID := l\<rparr>)"
    and "frame (m\<lparr>commitIndex := c\<rparr>) (n\<lparr>commitIndex := c\<rparr>)"
    and "frame (m\<lparr>lastApplied := a\<rparr>) (n\<lparr>lastApplied := a\<rparr>)"
    and "frame (m\<lparr>nextIndex := nx\<rparr>) (n\<lparr>nextIndex := nx\<rparr>)"
    and "frame (m\<lparr>matchIndex := mt\<rparr>) (n\<lparr>matchIndex := mt\<rparr>)"
    and "frame (m\<lparr>unreachable := un\<rparr>) (n\<lparr>unreachable := un\<rparr>)"
    and "frame (m\<lparr>replicateNow := rn\<rparr>) (n\<lparr>replicateNow := rn\<rparr>)"
  using assms same_upd by (simp_all add: frame_def)

lemma frame_metrics [simp]: "frame (on_metrics f n) n"
  by (simp add: frame_def) (simp add: on_metrics_def)

lemma time_Now_frame: "time_Now n = (t, n') \<Longrightarrow> frame n' n"
  by (auto simp: time_Now_def frame_def same_iff split: list.splits)

lemma rand_Int63n_frame: "rand_Int63n w n = (r, n') \<Longrightarrow> frame n' n"
  by (auto simp: rand_Int63n_def frame_def same_iff split: list.splits)

lemma deadline_frame: "frame m n \<Longrightarrow> frame (m\<lparr>electionDeadline := x\<rparr>) n"
  by (simp add: frame_def same_iff)

lemma resetElectionDeadlineLocked_frame [simp]: "frame (resetElectionDeadlineLocked n) n"
proof -
  obtain timeout n1 where a: "(if 0 < duration_sub (electionMax n) (electionMin n)
      then (case rand_Int63n (duration_sub (electionMax n) (electionMin n)) n of
              (r, n1) \<Rightarrow> (duration_add (electionMin n) r, n1))
      else (electionMin n, n)) = (timeout, n1)" by fastforce
  then have "frame n1 n"
    using rand_Int63n_frame by (auto split: if_splits prod.splits)
  obtain t n2 where b: "time_Now n1 = (t, n2)" by fastforce
  then have "frame n2 n" using time_Now_frame \<open>frame n1 n\<close> by (blast intro: frame_trans)
  then show ?thesis
    by (simp add: resetElectionDeadlineLocked_def a b deadline_frame)
qed

section \<open>Store access from a node\<close>

lemma on_store_answers:
  assumes "answers op view" and "meta_ok (ndb n)" and "on_store op n = (r, n')"
  shows "frame n' n" and "\<And>x. r = Inr x \<Longrightarrow> x = view (ndb n)" and "\<And>e. r = Inl e \<Longrightarrow> \<not> clean n"
    and "clean n \<Longrightarrow> r = Inr (view (ndb n)) \<and> n' = n"
proof -
  obtain s' where run: "op (store n) = (r, s')" and n': "n' = n\<lparr>store := s'\<rparr>"
    using assms(3) by (auto simp: on_store_def split: prod.splits)
  note A = answersD [OF assms(1,2) run]
  show "frame n' n"
    using A(1,4) n' by (auto simp: frame_def same_iff)
  show "\<And>x. r = Inr x \<Longrightarrow> x = view (ndb n)" and "\<And>e. r = Inl e \<Longrightarrow> \<not> clean n"
    and "clean n \<Longrightarrow> r = Inr (view (ndb n)) \<and> n' = n"
    using A(2-4) n' by auto
qed

lemma on_store_commits:
  assumes "commits op eff" and "on_store op n = (r, n')"
  shows "\<And>x. r = Inr x \<Longrightarrow> frame n' (with_db (eff (ndb n)) n)"
    and "\<And>e. r = Inl e \<Longrightarrow> frame n' n \<and> \<not> clean n"
    and "clean n \<Longrightarrow> r = Inr () \<and> n' = with_db (eff (ndb n)) n"
proof -
  obtain s' where run: "op (store n) = (r, s')" and n': "n' = n\<lparr>store := s'\<rparr>"
    using assms(2) by (auto simp: on_store_def split: prod.splits)
  note C = commitsD [OF assms(1) run]
  show "\<And>x. r = Inr x \<Longrightarrow> frame n' (with_db (eff (ndb n)) n)"
    and "\<And>e. r = Inl e \<Longrightarrow> frame n' n \<and> \<not> clean n"
    and "clean n \<Longrightarrow> r = Inr () \<and> n' = with_db (eff (ndb n)) n"
    using C n' by (auto simp: frame_def same_iff with_db_def)
qed

lemma publishStateLocked_frame [simp]:
  assumes "meta_ok (ndb n)"
  shows "frame (publishStateLocked n) n"
proof -
  obtain r1 n1 where a: "on_store LastIndexAndTerm n = (r1, n1)" by fastforce
  obtain r2 n2 where b: "on_store SnapshotIndexTerm n1 = (r2, n2)" by fastforce
  have 1: "frame n1 n" by (rule on_store_answers(1) [OF LastIndexAndTerm_answers assms a])
  have "meta_ok (ndb n1)" using assms by (simp add: frameD(1) [OF 1])
  then have "frame n2 n1" by (rule on_store_answers(1) [OF SnapshotIndexTerm_answers _ b])
  then have 2: "frame n2 n" using 1 by (rule frame_trans)
  show ?thesis
    using 1 2 by (auto simp: publishStateLocked_def a b intro: frame_trans [OF frame_metrics] split: sum.split prod.split)
qed

section \<open>Stepping down and starting\<close>

lemma meta_ok_put_term_vote: "meta_ok d \<Longrightarrow> meta_ok (put_term_vote t v d)"
  unfolding put_term_vote_def by (intro meta_ok_put_meta) auto

text \<open>The node that \<open>stepDownLocked\<close> leaves, up to what \<open>erase\<close> hides; \<open>d\<close> is the database then.\<close>

definition stepped_down :: "u64 \<Rightarrow> string \<Rightarrow> db \<Rightarrow> Node \<Rightarrow> Node" where
  "stepped_down term lid d n =
     with_db d (n\<lparr>role := RoleFollower, currentTerm := max (currentTerm n) term,
                  votedFor := (if currentTerm n < term then [] else votedFor n), leaderID := lid\<rparr>)"

lemma stepped_down_fields [simp]:
  "ndb (stepped_down t l d n) = d" "node_id (stepped_down t l d n) = node_id n"
  "peers (stepped_down t l d n) = peers n" "role (stepped_down t l d n) = RoleFollower"
  "currentTerm (stepped_down t l d n) = max (currentTerm n) t" "leaderID (stepped_down t l d n) = l"
  "votedFor (stepped_down t l d n) = (if currentTerm n < t then [] else votedFor n)"
  "commitIndex (stepped_down t l d n) = commitIndex n" "lastApplied (stepped_down t l d n) = lastApplied n"
  "nextIndex (stepped_down t l d n) = nextIndex n" "matchIndex (stepped_down t l d n) = matchIndex n"
  "snapshotThreshold (stepped_down t l d n) = snapshotThreshold n"
  "clean (stepped_down t l d n) = clean n"
  by (simp_all add: stepped_down_def)

lemma stepDownLocked_frame:
  assumes "meta_ok (ndb n)"
  obtains d where "frame (stepDownLocked t l n) (stepped_down t l d n)"
    and "d = (if currentTerm n < t then put_term_vote t [] (ndb n) else ndb n) \<or> (d = ndb n \<and> \<not> clean n)"
    and "meta_ok d"
proof -
  let ?n = "n\<lparr>currentTerm := max (currentTerm n) t, votedFor := (if currentTerm n < t then [] else votedFor n)\<rparr>"
  let ?m = "if currentTerm n < t
      then snd (on_store (SaveTermVote t []) (n\<lparr>currentTerm := t, votedFor := []\<rparr>)) else n"
  have "\<exists>d. frame ?m (with_db d ?n)
      \<and> (d = (if currentTerm n < t then put_term_vote t [] (ndb n) else ndb n) \<or> (d = ndb n \<and> \<not> clean n))"
  proof (cases "currentTerm n < t")
    case False
    then have "?n = n" by (simp add: max_def)
    then have "frame ?m (with_db (ndb n) ?n)" using False by simp
    with False show ?thesis by (intro exI [of _ "ndb n"]) simp
  next
    case True
    then have n: "?n = n\<lparr>currentTerm := t, votedFor := []\<rparr>" by (simp add: max_def)
    let ?k = "n\<lparr>currentTerm := t, votedFor := []\<rparr>"
    obtain r n' where run: "on_store (SaveTermVote t []) ?k = (r, n')" by fastforce
    note C = on_store_commits [OF SaveTermVote_commits run]
    have "\<exists>d. frame n' (with_db d ?k) \<and> (d = put_term_vote t [] (ndb n) \<or> (d = ndb n \<and> \<not> clean n))"
    proof (cases r)
      case (Inl e)
      then have "frame n' ?k" and "\<not> clean n" using C(2) by auto
      moreover have "with_db (ndb n) ?k = ?k" by (simp add: with_db_def)
      ultimately show ?thesis by (intro exI [of _ "ndb n"]) simp
    next
      case (Inr x)
      then show ?thesis using C(1) by (intro exI [of _ "put_term_vote t [] (ndb n)"]) simp
    qed
    then show ?thesis using True run by (simp add: max_absorb2)
  qed
  then obtain d where d: "frame ?m (with_db d ?n)"
    and dd: "d = (if currentTerm n < t then put_term_vote t [] (ndb n) else ndb n) \<or> (d = ndb n \<and> \<not> clean n)"
    by blast
  let ?m2 = "if role ?m = RoleLeader then on_metrics ClearReplicationLag ?m else ?m"
  have "frame ?m2 (with_db d ?n)"
    using d frame_trans [OF frame_metrics d] by (cases "role ?m = RoleLeader") simp_all
  then have "frame (?m2\<lparr>role := RoleFollower, leaderID := l\<rparr>) (with_db d ?n\<lparr>role := RoleFollower, leaderID := l\<rparr>)"
    by (intro frame_upd)
  moreover have "with_db d ?n\<lparr>role := RoleFollower, leaderID := l\<rparr> = stepped_down t l d n"
    by (simp add: stepped_down_def with_db_def)
  ultimately have m3: "frame (?m2\<lparr>role := RoleFollower, leaderID := l\<rparr>) (stepped_down t l d n)" by simp
  let ?m4 = "resetElectionDeadlineLocked (?m2\<lparr>role := RoleFollower, leaderID := l\<rparr>)"
  have m4: "frame ?m4 (stepped_down t l d n)" using m3 by (rule frame_trans [OF resetElectionDeadlineLocked_frame])
  have ok: "meta_ok d" using dd assms by (auto simp: meta_ok_put_term_vote split: if_splits)
  then have "frame (publishStateLocked ?m4) ?m4"
    using frameD(1) [OF m4] by (intro publishStateLocked_frame) simp
  then have "frame (stepDownLocked t l n) (stepped_down t l d n)"
    using m4 unfolding stepDownLocked_def Let_def by (rule frame_trans)
  then show ?thesis using dd ok by (rule that)
qed

text \<open>A node that starts on a well-formed disk restores exactly the persistent state.\<close>

lemma Node_New_restores:
  assumes "Node_New opts b = Inr n" and "db_ok (db (boot_disk b))" and "defaults_order (boot_order b)"
  shows "ndb n = db (boot_disk b)" and "node_id n = Opt_NodeID opts" and "peers n = Opt_Peers opts"
    and "role n = RoleFollower" and "currentTerm n = meta_u64 (ndb n) ''current_term''"
    and "votedFor n = meta_string (ndb n) ''voted_for''"
    and "lastApplied n = meta_u64 (ndb n) ''last_applied''" and "commitIndex n = lastApplied n"
    and "leaderID n = []" and "Opt_NodeID opts \<noteq> []"
    and "snapshotThreshold n = Opt_SnapshotThreshold opts"
proof -
  from assms(1) obtain s1 trm vote s2 applied s3
    where o: "Open (boot_order b) (boot_mkdir b) (boot_sqlopen b) (boot_disk b) = (Inr (), s1)"
      and c: "CurrentTermVote s1 = (Inr (trm, vote), s2)" and l: "LastApplied s2 = (Inr applied, s3)"
      and n: "n = publishStateLocked (resetElectionDeadlineLocked
                    (new_node (with_defaults opts) b s3 trm vote applied))"
      and id: "Opt_NodeID opts \<noteq> []"
    by (auto simp: Node_New_def Let_def split: if_splits prod.splits sum.splits)
  have "Store_init (boot_order b) (boot_disk b) = (Inr (), s1)"
    using o by (auto simp: Open_def split: option.splits)
  then have d1: "db s1 = db (boot_disk b)"
    using doesD(1) [OF does_Store_init] seeded_ok [OF assms(2,3)] by metis
  then have m1: "meta_ok (db s1)" using db_okD(4) [OF assms(2)] by simp
  have d2: "db s2 = db s1" and tv: "trm = meta_u64 (db s1) ''current_term'' \<and> vote = meta_string (db s1) ''voted_for''"
    using answersD(1,2) [OF CurrentTermVote_answers m1 c] by simp_all
  have d3: "db s3 = db s2" and ap: "applied = meta_u64 (db s2) ''last_applied''"
    using answersD(1,2) [OF LastApplied_answers _ l] m1 d2 by simp_all
  let ?n0 = "new_node (with_defaults opts) b s3 trm vote applied"
  have f1: "frame (resetElectionDeadlineLocked ?n0) ?n0" by simp
  then have "meta_ok (ndb (resetElectionDeadlineLocked ?n0))"
    using m1 d2 d3 frameD(1) [OF f1] by (simp add: new_node_def)
  then have f: "frame n ?n0"
    unfolding n using f1 by (blast intro: frame_trans publishStateLocked_frame)
  show "ndb n = db (boot_disk b)" and "node_id n = Opt_NodeID opts" and "peers n = Opt_Peers opts"
    and "role n = RoleFollower" and "currentTerm n = meta_u64 (ndb n) ''current_term''"
    and "votedFor n = meta_string (ndb n) ''voted_for''"
    and "lastApplied n = meta_u64 (ndb n) ''last_applied''" and "commitIndex n = lastApplied n"
    and "leaderID n = []" and "Opt_NodeID opts \<noteq> []"
    and "snapshotThreshold n = Opt_SnapshotThreshold opts"
    using frameD [OF f] d1 d2 d3 tv ap id by (simp_all add: new_node_def with_defaults_def)
qed

text \<open>Without faults, and with the required options, a node does start.\<close>

lemma Node_New_clean:
  assumes "db_ok (db (boot_disk b))" and "defaults_order (boot_order b)" and "faults (boot_disk b) = []"
    and "boot_mkdir b = None" and "boot_sqlopen b = None"
    and "Opt_NodeID opts \<noteq> []" and "Opt_GRPCAddr opts \<noteq> []" and "Opt_DataDir opts \<noteq> []"
  shows "\<exists>n. Node_New opts b = Inr n"
proof -
  let ?s = "boot_disk b"
  have s: "?s\<lparr>faults := []\<rparr> = ?s" using assms(3) by simp
  have "Open (boot_order b) (boot_mkdir b) (boot_sqlopen b) ?s = (Inr (), ?s)"
    using reopen_ok [OF assms(1,2)] assms(4,5) by (simp add: reopen_def s)
  moreover note answers_clean [OF CurrentTermVote_answers db_okD(4) [OF assms(1)] assms(3)]
    answers_clean [OF LastApplied_answers db_okD(4) [OF assms(1)] assms(3)]
  ultimately show ?thesis using assms(6-8) by (simp add: Node_New_def Let_def)
qed

lemma Node_New_keeps_clean:
  assumes "Node_New opts b = Inr n" and "db_ok (db (boot_disk b))" and "defaults_order (boot_order b)"
    and "faults (boot_disk b) = []"
  shows "clean n"
proof -
  let ?s = "boot_disk b"
  have s: "?s\<lparr>faults := []\<rparr> = ?s" using assms(4) by simp
  have "boot_mkdir b = None" "boot_sqlopen b = None"
    using assms(1) by (auto simp: Node_New_def Open_def Let_def split: if_splits option.splits)
  then have "Open (boot_order b) (boot_mkdir b) (boot_sqlopen b) ?s = (Inr (), ?s)"
    using reopen_ok [OF assms(2,3)] by (simp add: reopen_def s)
  moreover note answers_clean [OF CurrentTermVote_answers db_okD(4) [OF assms(2)] assms(4)]
    answers_clean [OF LastApplied_answers db_okD(4) [OF assms(2)] assms(4)]
  ultimately obtain t v a where n: "n = publishStateLocked (resetElectionDeadlineLocked (new_node (with_defaults opts) b ?s t v a))"
    using assms(1) by (auto simp: Node_New_def Let_def split: if_splits)
  let ?new = "new_node (with_defaults opts) b ?s t v a"
  have f: "frame (resetElectionDeadlineLocked ?new) ?new" by simp
  have "meta_ok (ndb (resetElectionDeadlineLocked ?new))" using frameD(1) [OF f] db_okD(4) [OF assms(2)] by (simp add: new_node_def)
  then have "frame n ?new" unfolding n using f by (blast intro: frame_trans publishStateLocked_frame)
  then show ?thesis by (rule frame_clean) (simp add: new_node_def assms(4))
qed

section \<open>Example nodes\<close>

text \<open>A node in a given term with a given database and no driver faults, for the examples.\<close>

definition example_node :: "string \<Rightarrow> string list \<Rightarrow> u64 \<Rightarrow> db \<Rightarrow> Node" where
  "example_node i ps t d =
     new_node
       \<lparr>Opt_NodeID = i, Opt_GRPCAddr = '':9001'', Opt_HTTPAddr = [], Opt_DataDir = ''data'',
        Opt_Peers = map (\<lambda>p. \<lparr>Peer_ID = p, Peer_Address = p\<rparr>) ps, Opt_ElectionMin = defaultMinElectionTimeout,
        Opt_ElectionMax = defaultMaxElectionTimeout, Opt_HeartbeatInterval = defaultHeartbeatInterval,
        Opt_SnapshotThreshold = 0\<rparr>
       \<lparr>boot_mkdir = None, boot_sqlopen = None, boot_order = metadata_defaults,
        boot_disk = \<lparr>db = d, faults = []\<rparr>, boot_clock = 0, boot_ticks = [], boot_rands = []\<rparr>
       \<lparr>db = d, faults = []\<rparr> t [] 0"

lemma example_node_fields [simp]:
  "ndb (example_node i ps t d) = d" "clean (example_node i ps t d)" "node_id (example_node i ps t d) = i"
  "peers (example_node i ps t d) = map (\<lambda>p. \<lparr>Peer_ID = p, Peer_Address = p\<rparr>) ps"
  "role (example_node i ps t d) = RoleFollower" "currentTerm (example_node i ps t d) = t"
  "votedFor (example_node i ps t d) = []" "leaderID (example_node i ps t d) = []"
  "commitIndex (example_node i ps t d) = 0" "lastApplied (example_node i ps t d) = 0"
  "matchIndex (example_node i ps t d) = Map.empty" "nextIndex (example_node i ps t d) = Map.empty"
  "snapshotThreshold (example_node i ps t d) = 0" "kvClients (example_node i ps t d) = Map.empty"
  "store (example_node i ps t d) = \<lparr>db = d, faults = []\<rparr>"
  by (simp_all add: example_node_def new_node_def)

text \<open>A log of set commands for one key, one entry per term in the list.\<close>

definition example_entry :: "u64 \<Rightarrow> u64 \<Rightarrow> Entry" where
  "example_entry i t = \<lparr>Entry_Index = i, Entry_Term = t, Entry_Command = projr (encode (setCommand ''a'' ''1''))\<rparr>"

definition example_log :: "u64 list \<Rightarrow> db" where
  "example_log ts =
     put_entries (map (\<lambda>(i, t). example_entry (of_nat i) t) (zip [1 ..< Suc (length ts)] ts)) (db (fresh_store []))"

lemma command_ok_example: "command_ok (setCommand ''a'' ''1'')"
  by (simp add: command_ok_def setCommand_def utf8_ascii)

lemma decode_example [simp]: "decodeCommand (Entry_Command (example_entry i t)) = Inr (setCommand ''a'' ''1'')"
  using decode_encode [OF command_ok_example] by (simp add: example_entry_def)

lemma fresh_meta:
  "meta_u64 (db (fresh_store fs)) ''current_term'' = 0" "meta_string (db (fresh_store fs)) ''voted_for'' = []"
  "meta_u64 (db (fresh_store fs)) ''last_applied'' = 0" "snap_term (db (fresh_store fs)) = 0"
  "kv_get (db (fresh_store fs)) k = None"
  by (simp_all add: fresh_store_def meta_u64_def meta_string_def lookup_seeded kv_get_def)
     (simp_all add: empty_db_def metadata_defaults_def ParseUint_zero)

lemma example_log_follows:
  "follows 0 [example_entry 1 t]" "follows 0 [example_entry 1 t, example_entry 2 u]"
  "follows 0 [example_entry 1 t, example_entry 2 u, example_entry 3 v]"
  by (simp_all add: example_entry_def max_int64_def)

lemma example_log_eq:
  "example_log [t] = put_entries [example_entry 1 t] (db (fresh_store []))"
  "example_log [t, u] = put_entries [example_entry 1 t, example_entry 2 u] (db (fresh_store []))"
  "example_log [t, u, v] =
     put_entries [example_entry 1 t, example_entry 2 u, example_entry 3 v] (db (fresh_store []))"
  by (simp_all add: example_log_def upt_conv_Cons del: upt_Suc)

lemma example_log_views [simp]:
  "log_ok (example_log [t])" "log_ok (example_log [t, u])" "log_ok (example_log [t, u, v])"
  "last_index (example_log [t]) = 1" "last_index (example_log [t, u]) = 2"
  "last_index (example_log [t, u, v]) = 3"
  "entry_at (example_log [t]) 1 = Some (example_entry 1 t)"
  "entry_at (example_log [t, u]) 1 = Some (example_entry 1 t)"
  "entry_at (example_log [t, u]) 2 = Some (example_entry 2 u)"
  "entry_at (example_log [t, u, v]) 1 = Some (example_entry 1 t)"
  "entry_at (example_log [t, u, v]) 2 = Some (example_entry 2 u)"
  "entry_at (example_log [t, u, v]) 3 = Some (example_entry 3 v)"
proof -
  note put = put_entries_log [OF log_ok_fresh] and at = entry_at_appended [OF log_ok_fresh]
  have i: "Entry_Index (example_entry i x) = i" for i x by (simp add: example_entry_def)
  note f = example_log_follows [unfolded last_index_fresh [of "[]", symmetric]]
  show "log_ok (example_log [t])" "log_ok (example_log [t, u])" "log_ok (example_log [t, u, v])"
    unfolding example_log_eq using put(1) f by blast+
  show "last_index (example_log [t]) = 1" "last_index (example_log [t, u]) = 2"
    "last_index (example_log [t, u, v]) = 3"
    unfolding example_log_eq using put(2) [OF f(1)] put(2) [OF f(2)] put(2) [OF f(3)] by (simp_all add: i)
  show "entry_at (example_log [t]) 1 = Some (example_entry 1 t)"
    unfolding example_log_eq using at [OF f(1), of "example_entry 1 t"] by (simp add: i)
  show "entry_at (example_log [t, u]) 1 = Some (example_entry 1 t)"
    "entry_at (example_log [t, u]) 2 = Some (example_entry 2 u)"
    unfolding example_log_eq using at [OF f(2), of "example_entry 1 t"] at [OF f(2), of "example_entry 2 u"]
    by (simp_all add: i)
  show "entry_at (example_log [t, u, v]) 1 = Some (example_entry 1 t)"
    "entry_at (example_log [t, u, v]) 2 = Some (example_entry 2 u)"
    "entry_at (example_log [t, u, v]) 3 = Some (example_entry 3 v)"
    unfolding example_log_eq
    using at [OF f(3), of "example_entry 1 t"] at [OF f(3), of "example_entry 2 u"]
      at [OF f(3), of "example_entry 3 v"] by (simp_all add: i)
qed

lemma example_log_meta [simp]:
  "meta_u64 (example_log ts) ''current_term'' = 0" "meta_string (example_log ts) ''voted_for'' = []"
  "meta_u64 (example_log ts) ''last_applied'' = 0" "snap_index (example_log ts) = 0"
  "kv_get (example_log ts) k = None"
  by (simp_all add: example_log_def view_simps fresh_meta snap_index_fresh)

end
