(* ===== verification/Commit.thy ===== *)
theory Commit imports Node
begin

text \<open>
  Committing and applying (the second half of internal/raft/replication.go): the leader's commit
  rule, the loop that feeds committed entries to the state machine, and log compaction.
\<close>

section \<open>Operations\<close>

definition replicaCountLocked :: "u64 \<Rightarrow> Node \<Rightarrow> nat" where
  "replicaCountLocked index n = 1 + length (filter (\<lambda>p. index \<le> u64_at (matchIndex n) (Peer_ID p)) (peers n))"

definition compactIfNeededLocked :: "Node \<Rightarrow> Node" where
  "compactIfNeededLocked n =
     (if snapshotThreshold n = 0 \<or> lastApplied n = 0 then n
      else case on_store SnapshotIndexTerm n of
        (Inl e, n1) \<Rightarrow> n1
      | (Inr (snapshotIndex, _), n1) \<Rightarrow>
          if lastApplied n1 \<le> snapshotIndex \<or> lastApplied n1 - snapshotIndex < snapshotThreshold n1 then n1
          else case on_store (Store_Term (lastApplied n1)) n1 of
            (Inl e, n2) \<Rightarrow> n2
          | (Inr None, n2) \<Rightarrow> n2
          | (Inr (Some term), n2) \<Rightarrow> snd (on_store (CreateSnapshot (lastApplied n2) term) n2))"

definition skipCompactedLocked :: "u64 \<Rightarrow> Node \<Rightarrow> bool \<times> Node" where
  "skipCompactedLocked index n =
     (case on_store SnapshotIndexTerm n of
        (Inl e, n1) \<Rightarrow> (False, n1)
      | (Inr (snapshotIndex, _), n1) \<Rightarrow>
          if snapshotIndex < index then (False, n1)
          else case on_store (SkipTo snapshotIndex) n1 of
            (Inl e, n2) \<Rightarrow> (False, n2)
          | (Inr _, n2) \<Rightarrow> (True, n2\<lparr>lastApplied := snapshotIndex\<rparr>))"

text \<open>The body of the loop for an entry that was found; \<open>False\<close> is an early return.\<close>

definition apply_entry :: "u64 \<Rightarrow> Entry \<Rightarrow> Node \<Rightarrow> bool \<times> Node" where
  "apply_entry index entry n =
     (case decodeCommand (Entry_Command entry) of
        Inl e \<Rightarrow> (False, n)
      | Inr cmd \<Rightarrow>
          (case time_Now n of
             (started, n1) \<Rightarrow>
               (case on_store (applyTo cmd index) n1 of
                  (Inl e, n2) \<Rightarrow> (False, n2)
                | (Inr _, n2) \<Rightarrow>
                    (case time_Now n2 of
                       (now, n3) \<Rightarrow>
                         (True, (on_metrics (ApplyLatency (duration_sub now started)) n3)\<lparr>lastApplied := index\<rparr>)))))"

text \<open>One turn of the loop; the flag says whether it goes on.\<close>

definition apply_step :: "Node \<Rightarrow> bool \<times> Node" where
  "apply_step n =
     (let index = lastApplied n + 1 in
      case on_store (Store_Entry index) n of
        (Inl e, n1) \<Rightarrow> (False, n1)
      | (Inr None, n1) \<Rightarrow> skipCompactedLocked index n1
      | (Inr (Some entry), n1) \<Rightarrow> apply_entry index entry n1)"

lemma on_store_positions:
  "on_store op n = (r, n') \<Longrightarrow> commitIndex n' = commitIndex n \<and> lastApplied n' = lastApplied n"
  by (auto simp: on_store_def split: prod.splits)

lemma time_Now_positions:
  "time_Now n = (t, n') \<Longrightarrow> commitIndex n' = commitIndex n \<and> lastApplied n' = lastApplied n"
  by (auto simp: time_Now_def split: list.splits)

lemma skipCompacted_positions:
  "skipCompactedLocked i n = (b, n') \<Longrightarrow>
     commitIndex n' = commitIndex n \<and> (if b then i \<le> lastApplied n' else lastApplied n' = lastApplied n)"
  by (auto simp: skipCompactedLocked_def not_less split: prod.splits sum.splits if_splits dest!: on_store_positions)

lemma apply_entry_positions:
  "apply_entry i e n = (b, n') \<Longrightarrow>
     commitIndex n' = commitIndex n \<and> lastApplied n' = (if b then i else lastApplied n)"
  by (auto simp: apply_entry_def on_metrics_def split: prod.splits sum.splits
      dest!: on_store_positions time_Now_positions)

lemma apply_step_positions:
  assumes "apply_step n = (b, n')"
  shows "commitIndex n' = commitIndex n"
    and "if b then lastApplied n + 1 \<le> lastApplied n' else lastApplied n' = lastApplied n"
  using assms
  by (auto simp: apply_step_def Let_def split: prod.splits sum.splits option.splits if_splits
      dest!: on_store_positions skipCompacted_positions apply_entry_positions)

function applyCommittedLocked :: "Node \<Rightarrow> Node" where
  "applyCommittedLocked n =
     (if lastApplied n < commitIndex n
      then (case apply_step n of (False, n1) \<Rightarrow> n1 | (True, n1) \<Rightarrow> applyCommittedLocked n1)
      else compactIfNeededLocked n)"
  by pat_completeness auto
termination
proof (relation "measure (\<lambda>n. unat (commitIndex n) - unat (lastApplied n))", goal_cases)
  case (2 n b n')
  then have step: "apply_step n = (True, n')" and lt: "lastApplied n < commitIndex n" by auto
  have "unat (lastApplied n) < unat (lastApplied n')"
    using apply_step_positions(2) [OF step] u64_less_inc [OF u64_less_not_max [OF lt]]
    by (simp add: unat_mono order.strict_trans2)
  moreover have "unat (lastApplied n) < unat (commitIndex n)" using lt by (rule unat_mono)
  ultimately show ?case
    using apply_step_positions(1) [OF step] by simp
qed simp

declare applyCommittedLocked.simps [simp del]

text \<open>
  The indices \<open>a, a + 1, ..., b\<close> in the order in which \<open>for index := a; index <= b; index++\<close> visits
  them, for \<open>b\<close> below \<open>math.MaxUint64\<close>.
\<close>

definition index_range :: "u64 \<Rightarrow> u64 \<Rightarrow> u64 list" where
  "index_range a b = map of_nat [unat a ..< Suc (unat b)]"

text \<open>The scan of \<open>advanceCommitLocked\<close>; \<open>None\<close> is the early return on an error.\<close>

fun scan_commit :: "nat \<Rightarrow> u64 list \<Rightarrow> u64 \<Rightarrow> Node \<Rightarrow> u64 option \<times> Node" where
  "scan_commit majority [] committed n = (Some committed, n)"
| "scan_commit majority (index # rest) committed n =
     (case on_store (Store_Term index) n of
        (Inl e, n1) \<Rightarrow> (None, n1)
      | (Inr known, n1) \<Rightarrow>
          if known \<noteq> Some (currentTerm n1) then scan_commit majority rest committed n1
          else if majority \<le> replicaCountLocked index n1 then scan_commit majority rest index n1
          else scan_commit majority rest committed n1)"

definition advanceCommitLocked :: "Node \<Rightarrow> Node" where
  "advanceCommitLocked n =
     (case on_store LastIndexAndTerm n of
        (Inl e, n1) \<Rightarrow> n1
      | (Inr (lastLogIndex, _), n1) \<Rightarrow>
          (case scan_commit (majorityLocked n1) (index_range (commitIndex n1 + 1) lastLogIndex) (commitIndex n1) n1 of
             (None, n2) \<Rightarrow> n2
           | (Some committed, n2) \<Rightarrow>
               if committed = commitIndex n2 then n2
               else applyCommittedLocked (n2\<lparr>commitIndex := committed\<rparr>)))"

definition commitAndApply :: "Node \<Rightarrow> Node" where
  "commitAndApply n = publishStateLocked (advanceCommitLocked n)"

text \<open>Reference: the commands in \<open>(a, c]\<close> of the log, when all of them are there and decode.\<close>

definition command_at :: "db \<Rightarrow> u64 \<Rightarrow> error + command" where
  "command_at d i =
     (case entry_at d i of None \<Rightarrow> Inl (ErrorNew ''missing'') | Some e \<Rightarrow> decodeCommand (Entry_Command e))"

definition decodable :: "db \<Rightarrow> u64 \<Rightarrow> u64 \<Rightarrow> bool" where
  "decodable d a c \<longleftrightarrow> list_all (\<lambda>i. \<not> isl (command_at d i)) (index_range (a + 1) c)"

definition commands_between :: "db \<Rightarrow> u64 \<Rightarrow> u64 \<Rightarrow> command list" where
  "commands_between d a c = map (\<lambda>i. projr (command_at d i)) (index_range (a + 1) c)"

text \<open>Reference for the commit rule: the last index of the scan that the rule accepts.\<close>

definition committable :: "Node \<Rightarrow> u64 \<Rightarrow> bool" where
  "committable n i \<longleftrightarrow>
     term_at (ndb n) i = Some (currentTerm n) \<and> majorityLocked n \<le> replicaCountLocked i n"

definition commit_target :: "Node \<Rightarrow> u64" where
  "commit_target n =
     last (commitIndex n # filter (committable n) (index_range (commitIndex n + 1) (last_index (ndb n))))"

text \<open>The invariant of a running node: applied up to committed up to stored, and compacted only what is applied.\<close>

definition node_ok :: "Node \<Rightarrow> bool" where
  "node_ok n \<longleftrightarrow>
     log_ok (ndb n) \<and> lastApplied n \<le> commitIndex n \<and> commitIndex n \<le> last_index (ndb n)
     \<and> snap_index (ndb n) \<le> lastApplied n"

section \<open>What applying changes\<close>

text \<open>
  \<open>advanced n' n\<close>: only the commit index, the applied index and the database differ; the indices do
  not go back and the database differs by applied commands and compaction.
\<close>

definition advanced :: "Node \<Rightarrow> Node \<Rightarrow> bool" where
  "advanced n' n \<longleftrightarrow>
     frame n' (with_db (ndb n') (n\<lparr>commitIndex := commitIndex n', lastApplied := lastApplied n'\<rparr>))
     \<and> compacts (ndb n') (ndb n) \<and> commitIndex n \<le> commitIndex n' \<and> lastApplied n \<le> lastApplied n'"

lemma advancedD:
  assumes "advanced n' n"
  shows "compacts (ndb n') (ndb n)" and "commitIndex n \<le> commitIndex n'" and "lastApplied n \<le> lastApplied n'"
    and "node_id n' = node_id n" and "peers n' = peers n" and "role n' = role n"
    and "currentTerm n' = currentTerm n" and "votedFor n' = votedFor n" and "leaderID n' = leaderID n"
    and "nextIndex n' = nextIndex n" and "matchIndex n' = matchIndex n" and "clean n \<Longrightarrow> clean n'"
    and "snapshotThreshold n' = snapshotThreshold n"
proof -
  have f: "frame n' (with_db (ndb n') (n\<lparr>commitIndex := commitIndex n', lastApplied := lastApplied n'\<rparr>))"
    and "compacts (ndb n') (ndb n)" "commitIndex n \<le> commitIndex n'" "lastApplied n \<le> lastApplied n'"
    using assms by (simp_all add: advanced_def)
  then show "compacts (ndb n') (ndb n)" and "commitIndex n \<le> commitIndex n'" and "lastApplied n \<le> lastApplied n'"
    by simp_all
  show "node_id n' = node_id n" and "peers n' = peers n" and "role n' = role n"
    and "currentTerm n' = currentTerm n" and "votedFor n' = votedFor n" and "leaderID n' = leaderID n"
    and "nextIndex n' = nextIndex n" and "matchIndex n' = matchIndex n"
    and "snapshotThreshold n' = snapshotThreshold n"
    using frameD [OF f] by simp_all
  show "clean n \<Longrightarrow> clean n'" using frame_clean [OF f] by simp
qed

lemma advanced_refl: "log_ok (ndb n) \<Longrightarrow> advanced n n"
  by (simp add: advanced_def compacts_refl)

lemma advanced_trans: "advanced n'' n' \<Longrightarrow> advanced n' n \<Longrightarrow> advanced n'' n"
  unfolding advanced_def
  by (auto simp: frame_def same_iff with_db_def intro: compacts_trans order_trans)

lemma advanced_frame:
  assumes "log_ok (ndb n)" and "frame n' n"
  shows "advanced n' n"
  using assms frameD [OF assms(2)] by (simp add: advanced_def compacts_refl)

lemma advanced_store:
  assumes "frame n' (with_db d n)" and "compacts d (ndb n)"
  shows "advanced n' n"
proof -
  have "n\<lparr>commitIndex := commitIndex n', lastApplied := lastApplied n'\<rparr> = n"
    using frameD(14,15) [OF assms(1)] by simp
  then show ?thesis
    using assms frameD [OF assms(1)] by (simp add: advanced_def)
qed

lemma advanced_applied:
  assumes "advanced n' n" and "lastApplied n' \<le> i"
  shows "advanced (n'\<lparr>lastApplied := i\<rparr>) n"
  using assms by (auto simp: advanced_def frame_def same_iff with_db_def intro: order_trans)

lemma advanced_log_ok: "advanced n' n \<Longrightarrow> log_ok (ndb n')"
  by (blast dest: advancedD(1) compactsD(1))

lemma on_store_read_advanced:
  assumes "answers op view" and "log_ok (ndb n)" and "on_store op n = (r, n')"
  shows "advanced n' n" and "ndb n' = ndb n" and "\<And>x. r = Inr x \<Longrightarrow> x = view (ndb n)"
  using on_store_answers [OF assms(1) log_ok_meta [OF assms(2)] assms(3)] assms(2)
  by (auto intro: advanced_frame dest: frameD(1))

lemma on_store_write_advanced:
  assumes "commits op eff" and "compacts (eff (ndb n)) (ndb n)" and "log_ok (ndb n)"
    and "on_store op n = (r, n')"
  shows "advanced n' n"
  using on_store_commits(1,2) [OF assms(1,4)] assms(2,3)
  by (cases r) (auto intro: advanced_store advanced_frame)

lemma on_store_CreateSnapshot:
  assumes "meta_ok (ndb n)" and "on_store (CreateSnapshot i t) n = (r, n')"
  defines "d \<equiv> drop_through i (put_snapshot (snapshot_now i t (ndb n)) (ndb n))"
  shows "\<And>x. r = Inr x \<Longrightarrow> frame n' (with_db d n)" and "\<And>e. r = Inl e \<Longrightarrow> frame n' n"
    and "clean n \<Longrightarrow> n' = with_db d n"
proof -
  obtain s' where run: "CreateSnapshot i t (store n) = (r, s')" and n': "n' = n\<lparr>store := s'\<rparr>"
    using assms(2) by (auto simp: on_store_def split: prod.splits)
  note C = CreateSnapshot_cases [OF assms(1) run]
  show "\<And>x. r = Inr x \<Longrightarrow> frame n' (with_db d n)"
    using C(1,3) n' by (auto simp: frame_def same_iff with_db_def d_def)
  show "\<And>e. r = Inl e \<Longrightarrow> frame n' n"
    using C(2) n' by (auto simp: frame_def same_iff)
  show "clean n \<Longrightarrow> n' = with_db d n"
    using C(3) n' by (simp add: with_db_def d_def)
qed

lemma compactIfNeededLocked_advanced:
  assumes "log_ok (ndb n)"
  shows "advanced (compactIfNeededLocked n) n"
proof (cases "snapshotThreshold n = 0 \<or> lastApplied n = 0")
  case True
  then show ?thesis using assms by (simp add: compactIfNeededLocked_def advanced_refl)
next
  case guard: False
  obtain r1 n1 where a: "on_store SnapshotIndexTerm n = (r1, n1)" by fastforce
  note A = on_store_read_advanced [OF SnapshotIndexTerm_answers assms a]
  obtain r2 n2 where b: "on_store (Store_Term (lastApplied n1)) n1 = (r2, n2)" by fastforce
  have ok1: "log_ok (ndb n1)" using assms A(2) by simp
  note B = on_store_read_advanced [OF Store_Term_answers ok1 b]
  note n2 = advanced_trans [OF B(1) A(1)]
  have l: "lastApplied n2 = lastApplied n1" "lastApplied n1 = lastApplied n"
    using on_store_positions [OF a] on_store_positions [OF b] by simp_all
  have snap: "advanced (snd (on_store (CreateSnapshot (lastApplied n2) t) n2)) n"
    if "r2 = Inr (Some t)" and "r1 = Inr (si, st)" and "\<not> lastApplied n1 \<le> si" for t si st
  proof -
    obtain r3 n3 where c: "on_store (CreateSnapshot (lastApplied n2) t) n2 = (r3, n3)" by fastforce
    have ok2: "log_ok (ndb n2)" and d2: "ndb n2 = ndb n" using B(2) A(2) assms by simp_all
    have "snap_index (ndb n2) \<le> lastApplied n2"
      using A(3) [OF that(2)] that(3) l d2 by simp
    moreover have "term_at (ndb n2) (lastApplied n2) = Some t"
      using B(3) [OF that(1)] B(2) l by simp
    moreover have "lastApplied n2 \<noteq> 0" using guard l by simp
    ultimately have "compacts (drop_through (lastApplied n2)
        (put_snapshot (snapshot_now (lastApplied n2) t (ndb n2)) (ndb n2))) (ndb n2)"
      using ok2 by (intro compacts_snapshot) (simp_all add: snapshot_now_def)
    then have "advanced n3 n2"
      using on_store_CreateSnapshot(1,2) [OF log_ok_meta [OF ok2] c] ok2
      by (cases r3) (auto intro: advanced_store advanced_frame)
    then show ?thesis using n2 by (simp add: c advanced_trans)
  qed
  show ?thesis
    using guard A(1) n2 snap a b
    by (auto simp: compactIfNeededLocked_def split: sum.split prod.split option.split)
qed

lemma compacts_apply_command: "log_ok d \<Longrightarrow> compacts (apply_command c i d) d"
  by (simp add: apply_command_def compacts_effects)

lemma skipCompactedLocked_advanced:
  assumes "log_ok (ndb n)" and "lastApplied n \<le> i" and "skipCompactedLocked i n = (b, n')"
  shows "advanced n' n"
proof -
  obtain r1 n1 where a: "on_store SnapshotIndexTerm n = (r1, n1)" by fastforce
  note A = on_store_read_advanced [OF SnapshotIndexTerm_answers assms(1) a]
  have skip: "advanced n2 n" if "on_store (SkipTo si) n1 = (r2, n2)" for si r2 n2
    using on_store_write_advanced [OF SkipTo_commits _ _ that] compacts_effects(3) assms(1) A(1,2)
    by (auto intro: advanced_trans)
  have up: "advanced (n2\<lparr>lastApplied := si\<rparr>) n"
    if "on_store (SkipTo si) n1 = (r2, n2)" and "\<not> si < i" for si r2 n2
  proof -
    have "lastApplied n2 = lastApplied n"
      using on_store_positions [OF a] on_store_positions [OF that(1)] by simp
    then show ?thesis
      using that(2) assms(2) by (intro advanced_applied [OF skip [OF that(1)]]) auto
  qed
  show ?thesis
    using assms(3) A(1) skip up
    by (auto simp: skipCompactedLocked_def a split: sum.splits prod.splits if_splits)
qed

lemma apply_entry_advanced:
  assumes "log_ok (ndb n)" and "lastApplied n \<le> i" and "apply_entry i e n = (b, n')"
  shows "advanced n' n"
proof (cases "decodeCommand (Entry_Command e)")
  case (Inl err)
  then show ?thesis using assms(1,3) by (auto simp: apply_entry_def advanced_refl)
next
  case (Inr cmd)
  obtain t n1 where a: "time_Now n = (t, n1)" by fastforce
  note A = time_Now_frame [OF a]
  have ok1: "log_ok (ndb n1)" using frameD(1) [OF A] assms(1) by simp
  obtain r n2 where b: "on_store (applyTo cmd i) n1 = (r, n2)" by fastforce
  have "advanced n2 n1"
    by (rule on_store_write_advanced [OF applyTo_commits compacts_apply_command [OF ok1] ok1 b])
  then have n2: "advanced n2 n"
    using advanced_frame [OF assms(1) A] by (rule advanced_trans)
  show ?thesis
  proof (cases r)
    case (Inl err)
    then show ?thesis using assms(3) Inr a b n2 by (simp add: apply_entry_def)
  next
    case r: (Inr u)
    obtain t' n3 where c: "time_Now n2 = (t', n3)" by fastforce
    let ?n4 = "on_metrics (ApplyLatency (duration_sub t' t)) n3"
    have "frame ?n4 n2" using time_Now_frame [OF c] by (rule frame_trans [OF frame_metrics])
    then have "advanced ?n4 n2" by (rule advanced_frame [OF advanced_log_ok [OF n2]])
    then have "advanced ?n4 n" using n2 by (rule advanced_trans)
    moreover have "lastApplied ?n4 = lastApplied n"
      using on_store_positions [OF b] time_Now_positions [OF a] time_Now_positions [OF c]
      by (simp add: on_metrics_def)
    ultimately have "advanced (?n4\<lparr>lastApplied := i\<rparr>) n"
      using assms(2) by (intro advanced_applied) simp_all
    then show ?thesis using assms(3) Inr r a b c by (auto simp: apply_entry_def)
  qed
qed

lemma apply_step_advanced:
  assumes "log_ok (ndb n)" and "lastApplied n < commitIndex n" and "apply_step n = (b, n')"
  shows "advanced n' n"
proof -
  let ?i = "lastApplied n + 1"
  obtain r n1 where a: "on_store (Store_Entry ?i) n = (r, n1)" by fastforce
  note A = on_store_read_advanced [OF Store_Entry_answers assms(1) a]
  have ok1: "log_ok (ndb n1)" using A(2) assms(1) by simp
  have "lastApplied n1 \<le> ?i"
    using on_store_positions [OF a] u64_less_inc [OF u64_less_not_max [OF assms(2)]] by simp
  note steps = skipCompactedLocked_advanced [OF ok1 this] apply_entry_advanced [OF ok1 this]
  show ?thesis
    using assms(3) a A(1) steps [THEN advanced_trans, OF _ A(1)]
    by (auto simp: apply_step_def Let_def split: sum.splits option.splits)
qed

lemma applyCommittedLocked_advanced: "log_ok (ndb n) \<Longrightarrow> advanced (applyCommittedLocked n) n"
proof (induction n rule: applyCommittedLocked.induct)
  case (1 n)
  show ?case
  proof (cases "lastApplied n < commitIndex n")
    case True
    obtain b n1 where step: "apply_step n = (b, n1)" by fastforce
    note A = apply_step_advanced [OF "1.prems" True step]
    have "b \<Longrightarrow> advanced (applyCommittedLocked n1) n1"
      using "1.IH" [OF True] step advanced_log_ok [OF A] by simp
    then have "b \<Longrightarrow> advanced (applyCommittedLocked n1) n"
      using A by (blast intro: advanced_trans)
    then show ?thesis
      using A True step by (cases b) (simp_all add: applyCommittedLocked.simps [of n])
  next
    case False
    then show ?thesis
      using compactIfNeededLocked_advanced [OF "1.prems"] by (simp add: applyCommittedLocked.simps [of n])
  qed
qed

section \<open>The applied state\<close>

lemma index_range_set: "set (index_range a b) = {a .. b}"
proof (intro set_eqI iffI)
  fix i assume "i \<in> {a .. b}"
  then have "unat i \<in> {unat a ..< Suc (unat b)}" by (simp add: word_le_nat_alt)
  then have "i \<in> (of_nat :: nat \<Rightarrow> u64) ` {unat a ..< Suc (unat b)}"
    by (intro image_eqI [where x = "unat i"]) simp_all
  then show "i \<in> set (index_range a b)" by (simp only: index_range_def set_map set_upt)
next
  fix i assume "i \<in> set (index_range a b)"
  then obtain k where k: "i = of_nat k" "unat a \<le> k" "k < Suc (unat b)"
    by (auto simp: index_range_def)
  have "k < 2 ^ 64" using k(3) unat_lt2p64 [of b] by linarith
  then have "unat i = k" by (simp add: k(1) unat_of_nat take_bit_nat_eq_self)
  then show "i \<in> {a .. b}" using k by (simp add: word_le_nat_alt)
qed

lemma index_range_empty: "b < a \<Longrightarrow> index_range a b = []"
  by (simp add: index_range_def word_less_nat_alt)

lemma index_range_Cons: "a \<le> b \<Longrightarrow> a \<noteq> - 1 \<Longrightarrow> index_range a b = a # index_range (a + 1) b"
  by (simp add: index_range_def word_le_nat_alt u64_unat_inc upt_conv_Cons del: upt_Suc)

lemma decodable_bound:
  assumes "log_ok d" and "decodable d a c" and "a < c"
  shows "c \<le> last_index d" and "snap_index d \<le> a"
proof -
  have all: "entry_at d i \<noteq> None" if "a + 1 \<le> i" and "i \<le> c" for i
    using assms(2) that index_range_set [of "a + 1" c]
    by (auto simp: decodable_def list_all_iff command_at_def split: option.splits)
  have c: "a + 1 \<le> c" using assms(3) by (rule inc_le)
  show "c \<le> last_index d" using all [OF c] entry_at_iff [OF assms(1), of c] by simp
  have "snap_index d < a + 1" using all [OF _ c] entry_at_iff [OF assms(1), of "a + 1"] by simp
  then show "snap_index d \<le> a" by (simp add: u64_less_inc_iff u64_less_not_max [OF assms(3)])
qed

lemma decodable_Cons:
  assumes "log_ok d" and "decodable d a c" and "a < c"
  obtains e cmd where "entry_at d (a + 1) = Some e" and "decodeCommand (Entry_Command e) = Inr cmd"
    and "decodable d (a + 1) c" and "commands_between d a c = cmd # commands_between d (a + 1) c"
proof -
  have c: "a + 1 \<le> c" using assms(3) by (rule inc_le)
  have "c \<le> max_int64"
    using decodable_bound(1) [OF assms] log_okD(3) [OF assms(1)] by (rule order_trans)
  then have "a + 1 \<noteq> - 1" using c max_int64_not_max by (meson order_trans)
  then have r: "index_range (a + 1) c = (a + 1) # index_range (a + 1 + 1) c"
    using c by (simp add: index_range_Cons)
  then obtain e where e: "entry_at d (a + 1) = Some e" and "\<not> isl (decodeCommand (Entry_Command e))"
    using assms(2) by (auto simp: decodable_def command_at_def split: option.splits)
  then obtain cmd where cmd: "decodeCommand (Entry_Command e) = Inr cmd"
    by (cases "decodeCommand (Entry_Command e)") auto
  show ?thesis
    using that [OF e cmd] assms(2) e cmd by (simp add: r decodable_def commands_between_def command_at_def)
qed

lemma with_db_lastApplied: "with_db d (n\<lparr>lastApplied := i\<rparr>) = (with_db d n)\<lparr>lastApplied := i\<rparr>"
  by (simp add: with_db_def)

lemma apply_step_found:
  assumes "log_ok (ndb n)" and "entry_at (ndb n) (lastApplied n + 1) = Some e"
    and "decodeCommand (Entry_Command e) = Inr cmd" and "apply_step n = (b, n')"
  shows "b \<Longrightarrow> frame n' (with_db (apply_command cmd (lastApplied n + 1) (ndb n)) (n\<lparr>lastApplied := lastApplied n + 1\<rparr>))"
    and "\<not> b \<Longrightarrow> frame n' n \<and> \<not> clean n"
proof -
  let ?i = "lastApplied n + 1"
  obtain r1 n1 where a: "on_store (Store_Entry ?i) n = (r1, n1)" by fastforce
  note A = on_store_answers [OF Store_Entry_answers log_ok_meta [OF assms(1)] a]
  obtain t n2 where b: "time_Now n1 = (t, n2)" by fastforce
  have f2: "frame n2 n" using time_Now_frame [OF b] A(1) by (rule frame_trans)
  obtain r3 n3 where c: "on_store (applyTo cmd ?i) n2 = (r3, n3)" by fastforce
  note C = on_store_commits [OF applyTo_commits c]
  obtain t' n4 where d: "time_Now n3 = (t', n4)" by fastforce
  let ?n5 = "on_metrics (ApplyLatency (duration_sub t' t)) n4"
  have step: "apply_step n = (case r1 of Inl _ \<Rightarrow> (False, n1) | Inr _ \<Rightarrow>
      (case r3 of Inl _ \<Rightarrow> (False, n3) | Inr _ \<Rightarrow> (True, ?n5\<lparr>lastApplied := ?i\<rparr>)))"
    using a b c d A(2) assms(2,3) by (auto simp: apply_step_def apply_entry_def Let_def split: sum.split)
  show "frame n' (with_db (apply_command cmd ?i (ndb n)) (n\<lparr>lastApplied := ?i\<rparr>))" if b
  proof -
    from step assms(4) that obtain u where r3: "r3 = Inr u" and n': "n' = ?n5\<lparr>lastApplied := ?i\<rparr>"
      by (auto split: sum.splits)
    have "frame ?n5 n3" using time_Now_frame [OF d] by (rule frame_trans [OF frame_metrics])
    also have "frame n3 (with_db (apply_command cmd ?i (ndb n)) n2)"
      using C(1) [OF r3] frameD(1) [OF f2] by simp
    also have "frame \<dots> (with_db (apply_command cmd ?i (ndb n)) n)" by (rule frame_with_db [OF f2])
    finally show ?thesis
      unfolding n' with_db_lastApplied by (rule frame_upd(6))
  qed
  show "frame n' n \<and> \<not> clean n" if "\<not> b"
  proof (cases r1)
    case (Inl x)
    then show ?thesis using step assms(4) A(1,3) by auto
  next
    case (Inr x)
    with step assms(4) that obtain y where r3: "r3 = Inl y" and n': "n' = n3"
      by (auto split: sum.splits)
    then show ?thesis
      using C(2) [OF r3] f2 frame_clean [OF f2] by (blast intro: frame_trans)
  qed
qed

text \<open>Compaction does not change the state machine, and it records the applied index.\<close>

lemma compactIfNeededLocked_state:
  assumes "log_ok (ndb n)"
  shows "kv_get (ndb (compactIfNeededLocked n)) = kv_get (ndb n)"
    and "lastApplied (compactIfNeededLocked n) = lastApplied n"
    and "commitIndex (compactIfNeededLocked n) = commitIndex n"
    and "meta_u64 (ndb n) ''last_applied'' = lastApplied n \<Longrightarrow>
      meta_u64 (ndb (compactIfNeededLocked n)) ''last_applied'' = lastApplied n"
    and "snap_index (ndb (compactIfNeededLocked n)) \<in> {snap_index (ndb n), lastApplied n}"
proof -
  obtain r1 n1 where a: "on_store SnapshotIndexTerm n = (r1, n1)" by fastforce
  note A = on_store_read_advanced [OF SnapshotIndexTerm_answers assms a]
  obtain r2 n2 where b: "on_store (Store_Term (lastApplied n1)) n1 = (r2, n2)" by fastforce
  have ok1: "log_ok (ndb n1)" using assms A(2) by simp
  note B = on_store_read_advanced [OF Store_Term_answers ok1 b]
  have d2: "ndb n1 = ndb n" "ndb n2 = ndb n" and ok2: "meta_ok (ndb n2)"
    using A(2) B(2) log_ok_meta [OF assms] by simp_all
  have l: "lastApplied n1 = lastApplied n" "lastApplied n2 = lastApplied n"
    "commitIndex n1 = commitIndex n" "commitIndex n2 = commitIndex n"
    using on_store_positions [OF a] on_store_positions [OF b] by simp_all
  let ?P = "\<lambda>m. kv_get (ndb m) = kv_get (ndb n) \<and> lastApplied m = lastApplied n \<and> commitIndex m = commitIndex n
      \<and> snap_index (ndb m) \<in> {snap_index (ndb n), lastApplied n}
      \<and> (meta_u64 (ndb n) ''last_applied'' = lastApplied n \<longrightarrow> meta_u64 (ndb m) ''last_applied'' = lastApplied n)"
  have base: "?P n" "?P n1" "?P n2" using d2 l by simp_all
  have snap: "?P m"
    if m: "m = snd (on_store (CreateSnapshot (lastApplied n2) t) n2)" for m t
  proof -
    obtain r3 where c: "on_store (CreateSnapshot (lastApplied n2) t) n2 = (r3, m)"
      using m by (cases "on_store (CreateSnapshot (lastApplied n2) t) n2") simp
    note C = on_store_CreateSnapshot(1,2) [OF ok2 c]
    have p: "lastApplied m = lastApplied n" "commitIndex m = commitIndex n"
      using on_store_positions [OF c] l by simp_all
    show ?thesis
    proof (cases r3)
      case (Inl e)
      then show ?thesis using frameD(1) [OF C(2) [OF Inl]] p d2 by simp
    next
      case (Inr x)
      then show ?thesis
        using frameD(1) [OF C(1) [OF Inr]] p d2 l
        by (simp add: fun_eq_iff view_simps snapshot_now_def)
    qed
  qed
  have "compactIfNeededLocked n \<in> {n, n1, n2}
      \<or> (\<exists>t. compactIfNeededLocked n = snd (on_store (CreateSnapshot (lastApplied n2) t) n2))"
    by (auto simp: compactIfNeededLocked_def a b split: sum.split prod.split option.split)
  then consider "compactIfNeededLocked n = n" | "compactIfNeededLocked n = n1" | "compactIfNeededLocked n = n2"
    | t where "compactIfNeededLocked n = snd (on_store (CreateSnapshot (lastApplied n2) t) n2)"
    by blast
  then have "?P (compactIfNeededLocked n)"
  proof cases
    case 1
    show ?thesis unfolding 1 by (rule base(1))
  next
    case 2
    show ?thesis unfolding 2 by (rule base(2))
  next
    case 3
    show ?thesis unfolding 3 by (rule base(3))
  next
    case 4
    then show ?thesis by (rule snap)
  qed
  then show "kv_get (ndb (compactIfNeededLocked n)) = kv_get (ndb n)"
    and "lastApplied (compactIfNeededLocked n) = lastApplied n"
    and "commitIndex (compactIfNeededLocked n) = commitIndex n"
    and "meta_u64 (ndb n) ''last_applied'' = lastApplied n \<Longrightarrow>
      meta_u64 (ndb (compactIfNeededLocked n)) ''last_applied'' = lastApplied n"
    and "snap_index (ndb (compactIfNeededLocked n)) \<in> {snap_index (ndb n), lastApplied n}"
    by blast+
qed

text \<open>
  The loop applies a prefix of the pending commands, in order; without driver faults it applies all
  of them.
\<close>

lemma applyCommittedLocked_state:
  assumes "log_ok (ndb n)" and "decodable (ndb n) (lastApplied n) (commitIndex n)"
    and "lastApplied n \<le> commitIndex n"
  defines "cs \<equiv> commands_between (ndb n) (lastApplied n) (commitIndex n)"
  shows "\<exists>k \<le> unat (commitIndex n) - unat (lastApplied n).
    unat (lastApplied (applyCommittedLocked n)) = unat (lastApplied n) + k
    \<and> kv_get (ndb (applyCommittedLocked n)) = fold run_command (take k cs) (kv_get (ndb n))
    \<and> (meta_u64 (ndb n) ''last_applied'' = lastApplied n \<longrightarrow>
         meta_u64 (ndb (applyCommittedLocked n)) ''last_applied'' = lastApplied (applyCommittedLocked n))
    \<and> (clean n \<longrightarrow> k = unat (commitIndex n) - unat (lastApplied n))"
  using assms(1-3) unfolding cs_def
proof (induction n rule: applyCommittedLocked.induct)
  case (1 n)
  let ?a = "lastApplied n" and ?c = "commitIndex n" and ?n' = "applyCommittedLocked n"
  show ?case
  proof (cases "?a < ?c")
    case False
    then have "?a = ?c" using "1.prems"(3) by simp
    then show ?thesis
      using compactIfNeededLocked_state [OF "1.prems"(1)] by (simp add: applyCommittedLocked.simps [of n])
  next
    case True
    obtain e cmd where e: "entry_at (ndb n) (?a + 1) = Some e" "decodeCommand (Entry_Command e) = Inr cmd"
      and dec: "decodable (ndb n) (?a + 1) ?c"
      and cs: "commands_between (ndb n) ?a ?c = cmd # commands_between (ndb n) (?a + 1) ?c"
      by (rule decodable_Cons [OF "1.prems"(1,2) True])
    obtain b n1 where step: "apply_step n = (b, n1)" by fastforce
    note S = apply_step_found [OF "1.prems"(1) e step]
    have le: "?a + 1 \<le> ?c" using True by (rule inc_le)
    have u: "unat (?a + 1) = Suc (unat ?a)" using u64_less_not_max [OF True] by (rule u64_unat_inc)
    have lt: "unat ?a < unat ?c" using True by (rule unat_mono)
    show ?thesis
    proof (cases b)
      case False
      then have n': "?n' = n1" using True step by (simp add: applyCommittedLocked.simps [of n])
      show ?thesis
        using S(2) [OF False] frameD(1,15) [of n1 n] lt by (intro exI [of _ 0]) (simp add: n')
    next
      case b: True
      then have n': "?n' = applyCommittedLocked n1"
        using True step by (simp add: applyCommittedLocked.simps [of n])
      note F = frameD [OF S(1) [OF b]]
      let ?d = "apply_command cmd (?a + 1) (ndb n)"
      have d1: "ndb n1 = ?d" and a1: "lastApplied n1 = ?a + 1" and c1: "commitIndex n1 = ?c"
        using F by simp_all
      have comp: "compacts ?d (ndb n)" by (rule compacts_apply_command [OF "1.prems"(1)])
      have ent: "entry_at ?d = entry_at (ndb n)"
        by (simp add: apply_command_def view_simps)
      have same: "decodable ?d x y = decodable (ndb n) x y"
        "commands_between ?d x y = commands_between (ndb n) x y" for x y
        by (simp_all add: decodable_def commands_between_def command_at_def ent)
      have "\<exists>k \<le> unat ?c - unat (?a + 1).
          unat (lastApplied (applyCommittedLocked n1)) = unat (?a + 1) + k
          \<and> kv_get (ndb (applyCommittedLocked n1)) =
              fold run_command (take k (commands_between (ndb n) (?a + 1) ?c)) (kv_get ?d)
          \<and> (meta_u64 ?d ''last_applied'' = ?a + 1 \<longrightarrow>
               meta_u64 (ndb (applyCommittedLocked n1)) ''last_applied'' = lastApplied (applyCommittedLocked n1))
          \<and> (clean n1 \<longrightarrow> k = unat ?c - unat (?a + 1))"
        using "1.IH" [OF True step [symmetric]] b le dec compactsD(1) [OF comp]
        by (simp add: d1 a1 c1 same)
      then obtain k where k: "k \<le> unat ?c - unat (?a + 1)"
        "unat (lastApplied ?n') = unat (?a + 1) + k"
        "kv_get (ndb ?n') = fold run_command (take k (commands_between (ndb n) (?a + 1) ?c)) (kv_get ?d)"
        "meta_u64 ?d ''last_applied'' = ?a + 1 \<longrightarrow> meta_u64 (ndb ?n') ''last_applied'' = lastApplied ?n'"
        "clean n1 \<longrightarrow> k = unat ?c - unat (?a + 1)"
        by (auto simp: n')
      have "clean n \<Longrightarrow> clean n1" using frame_clean [OF S(1) [OF b]] by simp
      then show ?thesis
        using k u lt by (intro exI [of _ "Suc k"])
          (auto simp: cs kv_get_apply_command last_applied_apply_command)
    qed
  qed
qed

lemma applyCommittedLocked_commitIndex:
  "log_ok (ndb n) \<Longrightarrow> commitIndex (applyCommittedLocked n) = commitIndex n"
proof (induction n rule: applyCommittedLocked.induct)
  case (1 n)
  show ?case
  proof (cases "lastApplied n < commitIndex n")
    case True
    obtain b n1 where step: "apply_step n = (b, n1)" by fastforce
    have "log_ok (ndb n1)"
      by (rule advanced_log_ok [OF apply_step_advanced [OF "1.prems" True step]])
    then show ?thesis
      using "1.IH" [OF True step [symmetric]] apply_step_positions(1) [OF step] True step
      by (cases b) (simp_all add: applyCommittedLocked.simps [of n])
  next
    case False
    then show ?thesis
      using compactIfNeededLocked_state(3) [OF "1.prems"] by (simp add: applyCommittedLocked.simps [of n])
  qed
qed

section \<open>The invariant of a node\<close>

lemma node_okD:
  "node_ok n \<Longrightarrow> log_ok (ndb n)" "node_ok n \<Longrightarrow> lastApplied n \<le> commitIndex n"
  "node_ok n \<Longrightarrow> commitIndex n \<le> last_index (ndb n)" "node_ok n \<Longrightarrow> snap_index (ndb n) \<le> lastApplied n"
  by (simp_all add: node_ok_def)

lemma node_ok_frame: "node_ok n \<Longrightarrow> frame n' n \<Longrightarrow> node_ok n'"
  using frameD [of n' n] by (simp add: node_ok_def)

lemma node_ok_commit_bound: "node_ok n \<Longrightarrow> commitIndex n \<le> max_int64"
  using node_okD(1,3) log_okD(3) by (blast intro: order_trans)

lemma apply_step_node_ok:
  assumes "node_ok n" and "lastApplied n < commitIndex n" and "apply_step n = (b, n')"
  shows "node_ok n'"
proof -
  let ?i = "lastApplied n + 1"
  note ok = node_okD [OF assms(1)]
  have i: "lastApplied n < ?i" "?i \<le> commitIndex n"
    using u64_less_not_max [OF assms(2)] assms(2) by (auto intro: inc_le)
  have "snap_index (ndb n) < ?i" "?i \<le> last_index (ndb n)"
    using ok i by (auto intro: order_trans order.strict_trans1)
  then obtain e where e: "entry_at (ndb n) ?i = Some e"
    using entry_at_iff [OF ok(1), of ?i] by auto
  show ?thesis
  proof (cases "decodeCommand (Entry_Command e)")
    case (Inr cmd)
    note S = apply_step_found [OF ok(1) e Inr assms(3)]
    let ?m = "with_db (apply_command cmd ?i (ndb n)) (n\<lparr>lastApplied := ?i\<rparr>)"
    have c: "compacts (apply_command cmd ?i (ndb n)) (ndb n)" by (rule compacts_apply_command [OF ok(1)])
    have "snap_index (apply_command cmd ?i (ndb n)) = snap_index (ndb n)"
      by (simp add: apply_command_def view_simps)
    then have "node_ok ?m"
      using ok i compactsD(1,3) [OF c] by (auto simp: node_ok_def intro: order_trans)
    then show ?thesis using S node_ok_frame assms(1) by (cases b) blast+
  next
    case (Inl err)
    obtain r1 n1 where a: "on_store (Store_Entry ?i) n = (r1, n1)" by fastforce
    note A = on_store_answers [OF Store_Entry_answers log_ok_meta [OF ok(1)] a]
    have "n' = n1" using assms(3) a A(2) e Inl
      by (auto simp: apply_step_def apply_entry_def Let_def split: sum.splits)
    then show ?thesis using node_ok_frame [OF assms(1) A(1)] by simp
  qed
qed

lemma apply_step_snapshot:
  assumes "node_ok n" and "lastApplied n < commitIndex n" and "apply_step n = (b, n')"
  shows "snap_index (ndb n') = snap_index (ndb n)"
proof -
  let ?i = "lastApplied n + 1"
  note ok = node_okD [OF assms(1)]
  have "snap_index (ndb n) < ?i" "?i \<le> last_index (ndb n)"
    using ok u64_less_inc [OF u64_less_not_max [OF assms(2)]] inc_le [OF assms(2)] by (auto intro: order_trans order.strict_trans1)
  then obtain e where e: "entry_at (ndb n) ?i = Some e" using entry_at_iff [OF ok(1), of ?i] by auto
  show ?thesis
  proof (cases "decodeCommand (Entry_Command e)")
    case (Inr cmd)
    note S = apply_step_found [OF ok(1) e Inr assms(3)]
    have "snap_index (apply_command cmd ?i (ndb n)) = snap_index (ndb n)" by (simp add: apply_command_def view_simps)
    then show ?thesis using frameD(1) [OF S(1)] frameD(1) [OF conjunct1 [OF S(2)]] by (cases b) simp_all
  next
    case (Inl err)
    obtain r1 n1 where a: "on_store (Store_Entry ?i) n = (r1, n1)" by fastforce
    note A = on_store_answers [OF Store_Entry_answers log_ok_meta [OF ok(1)] a]
    have "n' = n1" using assms(3) a A(2) e Inl
      by (auto simp: apply_step_def apply_entry_def Let_def split: sum.splits)
    then show ?thesis using frameD(1) [OF A(1)] by simp
  qed
qed

lemma compactIfNeededLocked_node_ok: "node_ok n \<Longrightarrow> node_ok (compactIfNeededLocked n)"
  using compactIfNeededLocked_state(2,3,5) [of n] compactsD(1,3) [OF advancedD(1) [OF compactIfNeededLocked_advanced [of n]]]
  by (auto simp: node_ok_def)

lemma applyCommittedLocked_node_ok: "node_ok n \<Longrightarrow> node_ok (applyCommittedLocked n)"
proof (induction n rule: applyCommittedLocked.induct)
  case (1 n)
  show ?case
  proof (cases "lastApplied n < commitIndex n")
    case True
    obtain b n1 where step: "apply_step n = (b, n1)" by fastforce
    have "node_ok n1" by (rule apply_step_node_ok [OF "1.prems" True step])
    then show ?thesis
      using "1.IH" [OF True step [symmetric]] True step by (cases b) (simp_all add: applyCommittedLocked.simps [of n])
  next
    case False
    then show ?thesis
      using compactIfNeededLocked_node_ok [OF "1.prems"] by (simp add: applyCommittedLocked.simps [of n])
  qed
qed

section \<open>The commit rule\<close>

lemma replicaCount_frame: "frame m n \<Longrightarrow> replicaCountLocked i m = replicaCountLocked i n"
  using frameD [of m n] by (simp add: replicaCountLocked_def)

lemma scan_commit_result:
  assumes "log_ok (ndb n)" and "scan_commit majority is c n = (r, n')"
  shows "frame n' n \<and> (case r of
      Some x \<Rightarrow> x = last (c # filter (\<lambda>i. term_at (ndb n) i = Some (currentTerm n) \<and> majority \<le> replicaCountLocked i n) is)
    | None \<Rightarrow> \<not> clean n)"
  using assms
proof (induction "is" arbitrary: c n)
  case Nil
  then show ?case by auto
next
  case (Cons i rest)
  obtain q n1 where a: "on_store (Store_Term i) n = (q, n1)" by fastforce
  note A = on_store_answers [OF Store_Term_answers log_ok_meta [OF Cons.prems(1)] a]
  note F = frameD [OF A(1)]
  show ?case
  proof (cases q)
    case (Inl e)
    then show ?thesis using Cons.prems(2) a A(1,3) by auto
  next
    case (Inr known)
    let ?ok = "known = Some (currentTerm n1) \<and> majority \<le> replicaCountLocked i n1"
    have run: "scan_commit majority rest (if ?ok then i else c) n1 = (r, n')"
      using Cons.prems(2) a Inr by (auto split: if_splits)
    have "log_ok (ndb n1)" using Cons.prems(1) F(1) by simp
    note IH = Cons.IH [OF this run]
    have "?ok \<longleftrightarrow> term_at (ndb n) i = Some (currentTerm n) \<and> majority \<le> replicaCountLocked i n"
      using A(2) [OF Inr] F replicaCount_frame [OF A(1)] by auto
    then show ?thesis
      using IH F A(1) replicaCount_frame [OF A(1)] frame_clean [OF A(1)]
      by (auto intro: frame_trans split: option.splits if_splits)
  qed
qed

lemma commit_target_frame: "frame m n \<Longrightarrow> commit_target m = commit_target n"
proof -
  assume f: "frame m n"
  note F = frameD [OF f]
  have "committable m = committable n"
    using F replicaCount_frame [OF f] by (simp add: committable_def fun_eq_iff majorityLocked_def)
  then show ?thesis using F by (simp add: commit_target_def)
qed

lemma advanceCommitLocked_run:
  assumes "log_ok (ndb n)"
  shows "(frame (advanceCommitLocked n) n \<and> (clean n \<longrightarrow> commit_target n = commitIndex n))
    \<or> (\<exists>m. frame m (n\<lparr>commitIndex := commit_target n\<rparr>) \<and> advanceCommitLocked n = applyCommittedLocked m
         \<and> commit_target n \<noteq> commitIndex n)"
proof -
  obtain r1 n1 where a: "on_store LastIndexAndTerm n = (r1, n1)" by fastforce
  note A = on_store_answers [OF LastIndexAndTerm_answers log_ok_meta [OF assms] a]
  note F = frameD [OF A(1)]
  show ?thesis
  proof (cases r1)
    case (Inl e)
    then show ?thesis using a A(1,3) by (auto simp: advanceCommitLocked_def)
  next
    case (Inr lt)
    then obtain t where lt: "lt = (last_index (ndb n), t)"
      using A(2) last_entry_eq by blast
    obtain r2 n2 where b: "scan_commit (majorityLocked n1)
        (index_range (commitIndex n1 + 1) (last_index (ndb n))) (commitIndex n1) n1 = (r2, n2)" by fastforce
    have ok1: "log_ok (ndb n1)" using assms F(1) by simp
    note B = scan_commit_result [OF ok1 b]
    have f2: "frame n2 n" using B A(1) by (blast intro: frame_trans)
    have adv: "advanceCommitLocked n = (case r2 of None \<Rightarrow> n2 | Some c \<Rightarrow>
        if c = commitIndex n2 then n2 else applyCommittedLocked (n2\<lparr>commitIndex := c\<rparr>))"
      by (simp add: advanceCommitLocked_def a Inr lt b split: option.split)
    show ?thesis
    proof (cases r2)
      case None
      then show ?thesis using adv B f2 frame_clean [OF A(1)] by auto
    next
      case (Some c)
      have "committable n1 = (\<lambda>i. term_at (ndb n1) i = Some (currentTerm n1) \<and> majorityLocked n1 \<le> replicaCountLocked i n1)"
        by (simp add: committable_def fun_eq_iff)
      then have "c = commit_target n1"
        using B Some F(1) by (simp add: commit_target_def)
      then have c: "c = commit_target n" using commit_target_frame [OF A(1)] by simp
      show ?thesis
        using adv Some c f2 frameD(14) [OF f2] frame_upd(5) [OF f2, of c] by auto
    qed
  qed
qed

lemma commit_target_cases:
  assumes "commitIndex n \<le> max_int64"
  shows "commit_target n = commitIndex n
    \<or> (committable n (commit_target n) \<and> commitIndex n < commit_target n \<and> commit_target n \<le> last_index (ndb n))"
proof -
  let ?f = "filter (committable n) (index_range (commitIndex n + 1) (last_index (ndb n)))"
  show ?thesis
  proof (cases "?f = []")
    case False
    then have "commit_target n \<in> set ?f"
      unfolding commit_target_def using last_in_set [OF False] by (simp only: last.simps if_False)
    then show ?thesis
      using max_int64_not_max [OF assms] by (auto simp: index_range_set u64_inc_le_iff)
  qed (simp add: commit_target_def)
qed

lemma sorted_index_range: "sorted (index_range a b)"
proof -
  have "unat (of_nat k :: u64) = k" if "k \<in> set [unat a ..< Suc (unat b)]" for k
  proof -
    have "k < 2 ^ 64" using that unat_lt2p64 [of b] by (simp del: upt_Suc)
    then show ?thesis by (simp add: unat_of_nat take_bit_nat_eq_self)
  qed
  then have "map unat (index_range a b) = [unat a ..< Suc (unat b)]"
    unfolding index_range_def map_map by (intro map_idI) (simp del: upt_Suc)
  then have "sorted (map unat (index_range a b))" by (simp only: sorted_upt)
  then have "sorted_wrt (\<lambda>x y. unat x \<le> unat y) (index_range a b)" by (simp add: sorted_map)
  then show ?thesis by (rule sorted_wrt_mono_rel [rotated]) (simp add: word_le_nat_alt)
qed

lemma commit_target_greatest:
  assumes "commitIndex n < i" and "i \<le> last_index (ndb n)" and "committable n i"
  shows "i \<le> commit_target n"
proof -
  let ?f = "filter (committable n) (index_range (commitIndex n + 1) (last_index (ndb n)))"
  have i: "i \<in> set ?f" using assms by (simp add: index_range_set inc_le)
  moreover have "sorted ?f" using sorted_index_range by (rule sorted_wrt_filter)
  ultimately have "i \<le> last ?f" by (intro sorted_le_last)
  moreover have "?f \<noteq> []" using i by (metis empty_iff empty_set)
  ultimately show ?thesis by (simp only: commit_target_def last.simps if_False)
qed

lemma advanceCommitLocked_advanced:
  assumes "log_ok (ndb n)" and "commitIndex n \<le> max_int64"
  shows "advanced (advanceCommitLocked n) n"
    and "commitIndex (advanceCommitLocked n) \<in> {commitIndex n, commit_target n}"
    and "clean n \<Longrightarrow> commitIndex (advanceCommitLocked n) = commit_target n"
proof -
  let ?n = "n\<lparr>commitIndex := commit_target n\<rparr>"
  have up: "advanced (applyCommittedLocked m) n \<and> commitIndex (applyCommittedLocked m) = commit_target n"
    if "frame m ?n" for m
  proof -
    have ok: "log_ok (ndb m)" using frameD(1) [OF that] assms(1) by simp
    have "advanced ?n n"
      using commit_target_cases [OF assms(2)] assms(1)
      by (auto simp: advanced_def with_db_def compacts_refl)
    moreover have "advanced m ?n" using that assms(1) by (intro advanced_frame) simp_all
    ultimately have "advanced m n" by (blast intro: advanced_trans)
    then show ?thesis
      using applyCommittedLocked_advanced [OF ok] applyCommittedLocked_commitIndex [OF ok] frameD(14) [OF that]
      by (auto intro: advanced_trans)
  qed
  show "advanced (advanceCommitLocked n) n"
    and "commitIndex (advanceCommitLocked n) \<in> {commitIndex n, commit_target n}"
    and "clean n \<Longrightarrow> commitIndex (advanceCommitLocked n) = commit_target n"
    using advanceCommitLocked_run [OF assms(1)] up assms(1)
    by (auto intro: advanced_frame dest: frameD(14))
qed

lemma advanceCommitLocked_node_ok:
  assumes "node_ok n"
  shows "node_ok (advanceCommitLocked n)"
proof -
  note ok = node_okD [OF assms]
  have "node_ok (n\<lparr>commitIndex := commit_target n\<rparr>)"
    using commit_target_cases [OF node_ok_commit_bound [OF assms]] assms by (auto simp: node_ok_def)
  then show ?thesis
    using advanceCommitLocked_run [OF ok(1)] node_ok_frame [OF assms] node_ok_frame applyCommittedLocked_node_ok
    by metis
qed

text \<open>A node that takes no snapshots of its own keeps the one it has.\<close>

lemma applyCommittedLocked_snapshot:
  "node_ok n \<Longrightarrow> snapshotThreshold n = 0 \<Longrightarrow> snap_index (ndb (applyCommittedLocked n)) = snap_index (ndb n)"
proof (induction n rule: applyCommittedLocked.induct)
  case (1 n)
  show ?case
  proof (cases "lastApplied n < commitIndex n")
    case True
    obtain b n1 where step: "apply_step n = (b, n1)" by fastforce
    have ok1: "node_ok n1" by (rule apply_step_node_ok [OF "1.prems"(1) True step])
    have a: "advanced n1 n" by (rule apply_step_advanced [OF node_okD(1) [OF "1.prems"(1)] True step])
    have "snap_index (ndb n1) = snap_index (ndb n)" by (rule apply_step_snapshot [OF "1.prems"(1) True step])
    then show ?thesis
      using "1.IH" [OF True step [symmetric]] True step ok1 advancedD(13) [OF a] "1.prems"(2)
      by (cases b) (simp_all add: applyCommittedLocked.simps [of n])
  next
    case False
    then show ?thesis using "1.prems"(2) by (simp add: applyCommittedLocked.simps [of n] compactIfNeededLocked_def)
  qed
qed

lemma advanceCommitLocked_snapshot:
  assumes "node_ok n" and "snapshotThreshold n = 0"
  shows "snap_index (ndb (advanceCommitLocked n)) = snap_index (ndb n)"
proof -
  have t: "node_ok (n\<lparr>commitIndex := commit_target n\<rparr>)"
    using commit_target_cases [OF node_ok_commit_bound [OF assms(1)]] assms(1) by (auto simp: node_ok_def)
  have "snap_index (ndb (applyCommittedLocked m)) = snap_index (ndb n)" if f: "frame m (n\<lparr>commitIndex := commit_target n\<rparr>)" for m
    using applyCommittedLocked_snapshot [OF node_ok_frame [OF t f]] frameD(1,9) [OF f] assms(2) by simp
  then show ?thesis
    using advanceCommitLocked_run [OF node_okD(1) [OF assms(1)]] frameD(1) by auto
qed

end
