(* ===== verification/Commit_Props.thy ===== *)
theory Commit_Props imports Commit
begin

text \<open>
  The properties of committing and applying: which index a leader may commit, that committed
  commands reach the state machine in order and exactly once, restarts included, and what the JSON
  form of a command guarantees.
\<close>

section \<open>Commands\<close>

text \<open>
  C10: a command that the client handlers build (an operation of the two known kinds, a non-empty
  key, UTF-8 strings) always encodes, and decoding the bytes gives the same command back.
\<close>

theorem command_roundtrip:
  assumes "command_ok c"
  shows "\<exists>raw. encode c = Inr raw \<and> decodeCommand raw = Inr c"
  using decode_encode [OF assms] by (simp add: encode_def)

theorem command_roundtrip_witness:
  "\<exists>raw. encode (setCommand ''a'' ''1'') = Inr raw \<and> decodeCommand raw = Inr (setCommand ''a'' ''1'')"
  by (rule command_roundtrip [OF command_ok_example])

text \<open>
  Whatever bytes a log entry holds, decoding either fails or yields a set or delete command
  with a non-empty key, and applying it changes exactly that key of the state machine and records
  the index of the entry, or nothing at all when the driver fails.
\<close>

lemma applied_command_effect:
  assumes "decodeCommand raw = Inr c" and "applyTo c i s = (r, s')"
  shows "(Op c = opSet \<or> Op c = opDelete) \<and> Key c \<noteq> []
    \<and> (case r of
         Inl _ \<Rightarrow> db s' = db s
       | Inr _ \<Rightarrow> meta_u64 (db s') ''last_applied'' = i
           \<and> kv_get (db s') = (kv_get (db s))(Key c := (if Op c = opDelete then None else Some (Value c))))"
proof -
  note C = commitsD(1,2) [OF applyTo_commits assms(2)]
  have "kv_get (apply_command c i (db s)) =
      (kv_get (db s))(Key c := (if Op c = opDelete then None else Some (Value c)))"
    by (simp add: kv_get_apply_command run_command_def)
  then show ?thesis
    using C decodeCommand_checked [OF assms(1)]
    by (cases r) (simp_all add: last_applied_apply_command)
qed

theorem applied_command_effect_witness:
  "\<exists>r s'. applyTo (setCommand ''a'' ''1'') 1 (fresh_store []) = (r, s')
    \<and> (case r of Inl _ \<Rightarrow> db s' = db (fresh_store [])
       | Inr _ \<Rightarrow> meta_u64 (db s') ''last_applied'' = 1
           \<and> kv_get (db s') = (kv_get (db (fresh_store [])))(''a'' \<mapsto> ''1''))"
proof -
  obtain r s' where run: "applyTo (setCommand ''a'' ''1'') 1 (fresh_store []) = (r, s')" by fastforce
  show ?thesis
    using applied_command_effect [OF decode_example [of 1 1] run] run
    by (cases r) (simp_all add: setCommand_def opSet_def opDelete_def)
qed

section \<open>The commit rule\<close>

text \<open>
  C8: the leader's commit index never goes back, and it moves only to an index of its own log whose
  entry is of the current term and is stored on a majority of the cluster; without driver faults it
  moves to the greatest such index.
\<close>

theorem commit_rule:
  assumes "log_ok (ndb n)" and "commitIndex n \<le> max_int64"
  shows "(commitIndex (advanceCommitLocked n) = commitIndex n
      \<or> (commitIndex n < commitIndex (advanceCommitLocked n)
         \<and> commitIndex (advanceCommitLocked n) \<le> last_index (ndb n)
         \<and> term_at (ndb n) (commitIndex (advanceCommitLocked n)) = Some (currentTerm n)
         \<and> majorityLocked n \<le> replicaCountLocked (commitIndex (advanceCommitLocked n)) n))
    \<and> (clean n \<longrightarrow> (\<forall>i. commitIndex (advanceCommitLocked n) < i \<and> i \<le> last_index (ndb n) \<longrightarrow>
         \<not> (term_at (ndb n) i = Some (currentTerm n) \<and> majorityLocked n \<le> replicaCountLocked i n)))"
proof -
  note A = advanceCommitLocked_advanced [OF assms]
  have "\<not> committable n i" if "clean n" and "commitIndex (advanceCommitLocked n) < i" and "i \<le> last_index (ndb n)" for i
  proof
    assume c: "committable n i"
    have "commitIndex n < i" using advancedD(2) [OF A(1)] that(2) by (rule order.strict_trans1)
    then have "i \<le> commit_target n" using that(3) c by (rule commit_target_greatest)
    with A(3) [OF that(1)] that(2) show False by simp
  qed
  then show ?thesis
    using A(2) commit_target_cases [OF assms(2)] by (auto simp: committable_def)
qed

theorem commit_rule_witness:
  "commitIndex (advanceCommitLocked (example_node ''n1'' [] 1 (example_log [1, 1]))) = 2"
proof -
  let ?n = "example_node ''n1'' [] 1 (example_log [1, 1])"
  have t: "term_at (ndb ?n) 2 = Some (currentTerm ?n)"
    using entry_at_term [OF example_log_views(2) example_log_views(9), of 1 1] by (simp add: example_entry_def)
  have ok: "log_ok (ndb ?n)" "commitIndex ?n \<le> max_int64" by (simp_all add: max_int64_def)
  have m: "majorityLocked ?n \<le> replicaCountLocked 2 ?n" by (simp add: majorityLocked_def replicaCountLocked_def)
  note R = commit_rule [OF ok]
  have "\<not> commitIndex (advanceCommitLocked ?n) < 2" using R t m by auto
  moreover have "commitIndex (advanceCommitLocked ?n) \<le> 2" using R by auto
  ultimately show ?thesis by simp
qed

section \<open>Applying\<close>

text \<open>The pending commands of a node that has applied, or has to apply, only a part of them.\<close>

lemma pending_range: "a \<le> max_int64 \<Longrightarrow> index_range (a + 1) c = map of_nat [Suc (unat a) ..< Suc (unat c)]"
  using max_int64_not_max by (simp add: index_range_def u64_unat_inc)

lemma commands_between_length: "a \<le> max_int64 \<Longrightarrow> length (commands_between d a c) = unat c - unat a"
  by (simp add: commands_between_def pending_range del: upt_Suc)

lemma commands_between_drop:
  assumes "unat b = unat a + k" and "a \<le> max_int64" and "b \<le> max_int64"
  shows "commands_between d b c = drop k (commands_between d a c)"
  using assms by (simp add: commands_between_def pending_range drop_map del: upt_Suc)

lemma commands_between_take:
  assumes "a \<le> max_int64" and "b \<le> c" and "k \<le> unat b - unat a"
  shows "take k (commands_between d a b) = take k (commands_between d a c)"
proof -
  have "unat b \<le> unat c" using assms(2) by (simp add: word_le_nat_alt)
  then have "take k [Suc (unat a) ..< Suc (unat b)] = take k [Suc (unat a) ..< Suc (unat c)]"
    using assms(3) by (cases "k = 0") (simp_all add: take_upt del: upt_Suc)
  then show ?thesis by (simp add: commands_between_def pending_range [OF assms(1)] take_map del: upt_Suc)
qed

lemma decodable_part:
  assumes "decodable d a c" and "a \<le> b" and "b \<le> max_int64" and "e \<le> c"
  shows "decodable d b e"
proof -
  have "a + 1 \<le> b + 1" using assms(2,3) u64_unat_inc [of a] u64_unat_inc [of b] max_int64_not_max
    by (simp add: word_le_nat_alt)
  then have "set (index_range (b + 1) e) \<subseteq> set (index_range (a + 1) c)"
    using assms(4) by (auto simp: index_range_set)
  then show ?thesis using assms(1) by (auto simp: decodable_def list_all_iff)
qed

lemma pending_compacted:
  assumes "compacts d' d" and "snap_index d' \<le> a" and "a \<le> max_int64"
  shows "decodable d' a c = decodable d a c" and "commands_between d' a c = commands_between d a c"
proof -
  have "command_at d' i = command_at d i" if "i \<in> set (index_range (a + 1) c)" for i
  proof -
    have "a < i" using that u64_less_inc [OF max_int64_not_max [OF assms(3)]]
      by (auto simp: index_range_set intro: order.strict_trans2)
    then have "entry_at d' i = entry_at d i" using compactsD(8) [OF assms(1)] assms(2) by (simp add: order.strict_trans1)
    then show ?thesis by (simp add: command_at_def)
  qed
  then show "decodable d' a c = decodable d a c" and "commands_between d' a c = commands_between d a c"
    by (simp_all add: decodable_def commands_between_def list_all_iff)
qed

text \<open>
  C9: the apply loop runs under any driver faults, the node restarts on its disk, learns that entries up to \<open>c\<close> are
  committed and applies again: at the restart exactly the first \<open>k\<close> pending commands have been executed and after
  the second run the first \<open>j\<close>, in log order and each once.  Without faults \<open>k\<close> reaches the old commit index, and
  \<open>j\<close> covers all of them.
\<close>

theorem applied_exactly_once_across_restart:
  assumes "node_ok n" and "commitIndex n \<le> c" and "decodable (ndb n) (lastApplied n) c"
    and "meta_u64 (ndb n) ''last_applied'' = lastApplied n"
    and "db (boot_disk b) = ndb (applyCommittedLocked n)" and "defaults_order (boot_order b)"
    and "Node_New opts b = Inr m"
  shows "\<exists>k j. k \<le> j \<and> j \<le> length (commands_between (ndb n) (lastApplied n) c)
    \<and> unat (lastApplied m) = unat (lastApplied n) + k
    \<and> kv_get (ndb m) = fold run_command (take k (commands_between (ndb n) (lastApplied n) c)) (kv_get (ndb n))
    \<and> unat (lastApplied (applyCommittedLocked (m\<lparr>commitIndex := c\<rparr>))) = unat (lastApplied n) + j
    \<and> kv_get (ndb (applyCommittedLocked (m\<lparr>commitIndex := c\<rparr>))) =
        fold run_command (take j (commands_between (ndb n) (lastApplied n) c)) (kv_get (ndb n))
    \<and> (clean n \<longrightarrow> k = unat (commitIndex n) - unat (lastApplied n))
    \<and> (clean m \<longrightarrow> j = length (commands_between (ndb n) (lastApplied n) c))"
proof -
  let ?n = "applyCommittedLocked n" and ?m = "m\<lparr>commitIndex := c\<rparr>" and ?a = "lastApplied n"
  let ?cs = "commands_between (ndb n) ?a c"
  note ok = node_okD [OF assms(1)]
  have ok': "node_ok ?n" by (rule applyCommittedLocked_node_ok [OF assms(1)])
  have am: "?a \<le> max_int64" using ok(2) node_ok_commit_bound [OF assms(1)] by (rule order_trans)
  have dec: "decodable (ndb n) ?a (commitIndex n)" by (rule decodable_part [OF assms(3) order_refl am assms(2)])
  obtain k where k: "k \<le> unat (commitIndex n) - unat ?a" "unat (lastApplied ?n) = unat ?a + k"
    "kv_get (ndb ?n) = fold run_command (take k (commands_between (ndb n) ?a (commitIndex n))) (kv_get (ndb n))"
    "meta_u64 (ndb ?n) ''last_applied'' = lastApplied ?n" "clean n \<longrightarrow> k = unat (commitIndex n) - unat ?a"
    using applyCommittedLocked_state [OF ok(1) dec ok(2)] assms(4) by auto
  have "db_ok (db (boot_disk b))" using node_okD(1) [OF ok'] assms(5) by auto
  note R = Node_New_restores [OF assms(7) this assms(6)]
  have d: "ndb m = ndb ?n" and l: "lastApplied m = lastApplied ?n" using R(1,7) assms(5) k(4) by simp_all
  have comp: "compacts (ndb ?n) (ndb n)" by (rule advancedD(1) [OF applyCommittedLocked_advanced [OF ok(1)]])
  have le: "unat ?a \<le> unat (commitIndex n)" "unat (commitIndex n) \<le> unat c" using ok(2) assms(2) by (simp_all add: word_le_nat_alt)
  have lc: "lastApplied ?n \<le> commitIndex n" using k(1,2) le(1) by (simp add: word_le_nat_alt)
  have bm: "lastApplied ?n \<le> max_int64" using lc node_ok_commit_bound [OF assms(1)] by (rule order_trans)
  note P = pending_compacted [OF comp node_okD(4) [OF ok'] bm, of c]
  have "?a \<le> lastApplied ?n" using k(2) by (simp add: word_le_nat_alt)
  then have dec': "decodable (ndb ?m) (lastApplied ?m) (commitIndex ?m)"
    using decodable_part [OF assms(3) _ bm order_refl] P(1) d l by simp
  have rest: "commands_between (ndb ?m) (lastApplied ?m) (commitIndex ?m) = drop k ?cs"
    using P(2) commands_between_drop [OF k(2) am bm] d l by simp
  have "lastApplied ?m \<le> commitIndex ?m" using lc assms(2) l by simp
  then obtain i where i: "i \<le> unat c - unat (lastApplied ?n)" "unat (lastApplied (applyCommittedLocked ?m)) = unat (lastApplied ?n) + i"
    "kv_get (ndb (applyCommittedLocked ?m)) = fold run_command (take i (drop k ?cs)) (kv_get (ndb ?n))"
    "clean m \<longrightarrow> i = unat c - unat (lastApplied ?n)"
    using applyCommittedLocked_state [OF _ dec'] node_okD(1) [OF ok'] rest d l by auto
  have first: "kv_get (ndb ?n) = fold run_command (take k ?cs) (kv_get (ndb n))"
    using k(3) commands_between_take [OF am assms(2) k(1)] by simp
  have len: "length ?cs = unat c - unat ?a" by (rule commands_between_length [OF am])
  have "kv_get (ndb (applyCommittedLocked ?m)) = fold run_command (take (k + i) ?cs) (kv_get (ndb n))"
    unfolding i(3) first take_add fold_append by simp
  then show ?thesis
    using k(1,2,5) i(1,2,4) first len d l le by (intro exI [of _ k] exI [of _ "k + i"]) auto
qed

theorem applied_exactly_once_across_restart_witness:
  "\<exists>m. Node_New \<lparr>Opt_NodeID = ''n1'', Opt_GRPCAddr = '':9001'', Opt_HTTPAddr = [], Opt_DataDir = ''data'',
        Opt_Peers = [], Opt_ElectionMin = 0, Opt_ElectionMax = 0, Opt_HeartbeatInterval = 0,
        Opt_SnapshotThreshold = 0\<rparr>
      \<lparr>boot_mkdir = None, boot_sqlopen = None, boot_order = metadata_defaults,
       boot_disk = \<lparr>db = ndb (applyCommittedLocked (example_node ''n1'' [] 1 (example_log [1, 1])\<lparr>commitIndex := 1\<rparr>)),
                    faults = []\<rparr>,
       boot_clock = 0, boot_ticks = [], boot_rands = []\<rparr> = Inr m
    \<and> lastApplied m = 1 \<and> lastApplied (applyCommittedLocked (m\<lparr>commitIndex := 2\<rparr>)) = 2
    \<and> kv_get (ndb (applyCommittedLocked (m\<lparr>commitIndex := 2\<rparr>))) = [''a'' \<mapsto> ''1'']"
proof -
  let ?n = "example_node ''n1'' [] 1 (example_log [1, 1])\<lparr>commitIndex := 1\<rparr>"
  let ?b = "\<lparr>boot_mkdir = None, boot_sqlopen = None, boot_order = metadata_defaults,
       boot_disk = \<lparr>db = ndb (applyCommittedLocked ?n), faults = []\<rparr>,
       boot_clock = 0, boot_ticks = [], boot_rands = []\<rparr>"
  have ok: "node_ok ?n" by (simp add: node_ok_def)
  have range: "index_range 1 2 = [1, 2]" by (simp add: index_range_def upt_rec)
  have dec: "decodable (ndb ?n) (lastApplied ?n) 2"
    and cs: "commands_between (ndb ?n) (lastApplied ?n) 2 = [setCommand ''a'' ''1'', setCommand ''a'' ''1'']"
    using range by (simp_all add: decodable_def commands_between_def command_at_def)
  have "db_ok (db (boot_disk ?b))"
    using node_okD(1) [OF applyCommittedLocked_node_ok [OF ok]] by auto
  from Node_New_clean [OF this, of "\<lparr>Opt_NodeID = ''n1'', Opt_GRPCAddr = '':9001'', Opt_HTTPAddr = [],
        Opt_DataDir = ''data'', Opt_Peers = [], Opt_ElectionMin = 0, Opt_ElectionMax = 0,
        Opt_HeartbeatInterval = 0, Opt_SnapshotThreshold = 0\<rparr>"]
  obtain m where m: "Node_New \<lparr>Opt_NodeID = ''n1'', Opt_GRPCAddr = '':9001'', Opt_HTTPAddr = [],
        Opt_DataDir = ''data'', Opt_Peers = [], Opt_ElectionMin = 0, Opt_ElectionMax = 0,
        Opt_HeartbeatInterval = 0, Opt_SnapshotThreshold = 0\<rparr> ?b = Inr m"
    by (auto simp: defaults_order_refl)
  have "clean m" by (rule Node_New_keeps_clean [OF m \<open>db_ok (db (boot_disk ?b))\<close>]) (simp_all add: defaults_order_refl)
  moreover have "clean ?n" by simp
  ultimately have "unat (lastApplied m) = 1 \<and> unat (lastApplied (applyCommittedLocked (m\<lparr>commitIndex := 2\<rparr>))) = 2
    \<and> kv_get (ndb (applyCommittedLocked (m\<lparr>commitIndex := 2\<rparr>))) =
        fold run_command [setCommand ''a'' ''1'', setCommand ''a'' ''1''] (kv_get (ndb ?n))"
    using applied_exactly_once_across_restart [OF ok _ dec _ _ _ m] cs by (auto simp: defaults_order_refl)
  then show ?thesis
    using m by (auto simp: run_command_def setCommand_def opSet_def opDelete_def word_unat_eq_iff)
qed

end
