(* ===== verification/Follower.thy ===== *)
theory Follower imports Commit
begin

text \<open>
  The follower side of replication (internal/raft/follower.go): the handlers of \<open>AppendEntries\<close> and
  \<open>InstallSnapshot\<close>.
\<close>

section \<open>Operations\<close>

definition toStorageEntry :: "LogEntry \<Rightarrow> Entry" where
  "toStorageEntry e =
     \<lparr>Entry_Index = LogEntry_Index e, Entry_Term = LogEntry_Term e, Entry_Command = LogEntry_Command e\<rparr>"

text \<open>The loop over the entries of a request: the match index and the missing entries so far.\<close>

fun scan_entries :: "u64 \<Rightarrow> LogEntry list \<Rightarrow> u64 \<Rightarrow> Entry list \<Rightarrow> Node \<Rightarrow> (error + u64 \<times> Entry list) \<times> Node" where
  "scan_entries snapshotIndex [] match missing n = (Inr (match, missing), n)"
| "scan_entries snapshotIndex (e # es) match missing n =
     (if LogEntry_Index e \<le> snapshotIndex then scan_entries snapshotIndex es match missing n
      else let match' = max match (LogEntry_Index e) in
        if missing \<noteq> [] then scan_entries snapshotIndex es match' (missing @ [toStorageEntry e]) n
        else case on_store (Store_Term (LogEntry_Index e)) n of
          (Inl err, n1) \<Rightarrow> (Inl err, n1)
        | (Inr None, n1) \<Rightarrow> scan_entries snapshotIndex es match' [toStorageEntry e] n1
        | (Inr (Some localTerm), n1) \<Rightarrow>
            if localTerm = LogEntry_Term e then scan_entries snapshotIndex es match' [] n1
            else case on_store (DeleteFrom (LogEntry_Index e)) n1 of
              (Inl err, n2) \<Rightarrow> (Inl err, n2)
            | (Inr _, n2) \<Rightarrow> scan_entries snapshotIndex es match' [toStorageEntry e] n2)"

definition storeLeaderEntriesLocked ::
  "LogEntry list \<Rightarrow> u64 \<Rightarrow> u64 \<Rightarrow> Node \<Rightarrow> (error + u64) \<times> Node" where
  "storeLeaderEntriesLocked entries prevLogIndex snapshotIndex n =
     (case scan_entries snapshotIndex entries prevLogIndex [] n of
        (Inl e, n1) \<Rightarrow> (Inl e, n1)
      | (Inr (match, missing), n1) \<Rightarrow>
          (case on_store (Store_AppendEntries missing) n1 of
             (Inl e, n2) \<Rightarrow> (Inl e, n2)
           | (Inr _, n2) \<Rightarrow> (Inr match, n2)))"

definition followLeaderCommitLocked :: "u64 \<Rightarrow> Node \<Rightarrow> (error + unit) \<times> Node" where
  "followLeaderCommitLocked leaderCommit n =
     (if leaderCommit \<le> commitIndex n then (Inr (), n)
      else case on_store LastIndexAndTerm n of
        (Inl e, n1) \<Rightarrow> (Inl e, n1)
      | (Inr (lastLogIndex, _), n1) \<Rightarrow>
          (Inr (), applyCommittedLocked (n1\<lparr>commitIndex := min leaderCommit lastLogIndex\<rparr>)))"

definition rejectAppendLocked :: "Node \<Rightarrow> (status + AppendEntriesResponse) \<times> Node" where
  "rejectAppendLocked n =
     (case on_store LastIndexAndTerm n of
        (Inl e, n1) \<Rightarrow> (Inl (internalError e), n1)
      | (Inr (lastLogIndex, _), n1) \<Rightarrow>
          (Inr \<lparr>AppendResp_Term = currentTerm n1, AppendResp_Success = False,
                AppendResp_MatchIndex = lastLogIndex\<rparr>, n1))"

definition rpcHandled :: "string \<Rightarrow> string \<Rightarrow> Node \<Rightarrow> Node" where
  "rpcHandled method result n = on_metrics (RPCHandled method result) n"

text \<open>The part of both handlers that adopts the sender as leader of its term.\<close>

definition follow_sender :: "u64 \<Rightarrow> string \<Rightarrow> Node \<Rightarrow> Node" where
  "follow_sender term lid n =
     (let n1 = (if currentTerm n < term \<or> role n \<noteq> RoleFollower then stepDownLocked term lid n else n)
      in resetElectionDeadlineLocked (n1\<lparr>leaderID := lid\<rparr>))"

text \<open>
  The handler in three stages: once the previous position matches, once the sender is followed, and
  the whole of it.
\<close>

definition accept_entries ::
  "AppendEntriesRequest \<Rightarrow> u64 \<Rightarrow> Node \<Rightarrow> (status + AppendEntriesResponse) \<times> Node" where
  "accept_entries req snapshotIndex n =
     (case storeLeaderEntriesLocked (AppendReq_Entries req) (AppendReq_PrevLogIndex req) snapshotIndex n of
        (Inl e, n1) \<Rightarrow> (Inl (internalError e), rpcHandled ''AppendEntries'' ''error'' n1)
      | (Inr match, n1) \<Rightarrow>
          (case followLeaderCommitLocked (AppendReq_LeaderCommit req) n1 of
             (Inl e, n2) \<Rightarrow> (Inl (internalError e), rpcHandled ''AppendEntries'' ''error'' n2)
           | (Inr _, n2) \<Rightarrow>
               (let n3 = rpcHandled ''AppendEntries'' ''success'' (publishStateLocked n2)
                in (Inr \<lparr>AppendResp_Term = currentTerm n3, AppendResp_Success = True,
                         AppendResp_MatchIndex = match\<rparr>, n3))))"

definition check_entries ::
  "AppendEntriesRequest \<Rightarrow> Node \<Rightarrow> (status + AppendEntriesResponse) \<times> Node" where
  "check_entries req n =
     (case on_store SnapshotIndexTerm n of
        (Inl e, n1) \<Rightarrow> (Inl (internalError e), rpcHandled ''AppendEntries'' ''error'' n1)
      | (Inr (snapshotIndex, _), n1) \<Rightarrow>
          if AppendReq_PrevLogIndex req < snapshotIndex
          then (Inr \<lparr>AppendResp_Term = currentTerm n1, AppendResp_Success = False,
                     AppendResp_MatchIndex = snapshotIndex\<rparr>,
                rpcHandled ''AppendEntries'' ''behind_snapshot'' n1)
          else case on_store (Store_Term (AppendReq_PrevLogIndex req)) n1 of
            (Inl e, n2) \<Rightarrow> (Inl (internalError e), rpcHandled ''AppendEntries'' ''error'' n2)
          | (Inr prevTerm, n2) \<Rightarrow>
              if prevTerm \<noteq> Some (AppendReq_PrevLogTerm req)
              then rejectAppendLocked (rpcHandled ''AppendEntries'' ''log_mismatch'' n2)
              else accept_entries req snapshotIndex n2)"

definition AppendEntries ::
  "AppendEntriesRequest \<Rightarrow> Node \<Rightarrow> (status + AppendEntriesResponse) \<times> Node" where
  "AppendEntries req n =
     (if AppendReq_Term req < currentTerm n
      then rejectAppendLocked (rpcHandled ''AppendEntries'' ''stale_term'' n)
      else check_entries req (follow_sender (AppendReq_Term req) (AppendReq_LeaderId req) n))"

definition InstallSnapshot ::
  "InstallSnapshotRequest \<Rightarrow> Node \<Rightarrow> (status + InstallSnapshotResponse) \<times> Node" where
  "InstallSnapshot req n =
     (if SnapReq_Term req < currentTerm n
      then (Inr \<lparr>SnapResp_Term = currentTerm n\<rparr>, rpcHandled ''InstallSnapshot'' ''stale_term'' n)
      else let n1 = follow_sender (SnapReq_Term req) (SnapReq_LeaderId req) n in
        case on_store SnapshotIndexTerm n1 of
          (Inl e, n2) \<Rightarrow> (Inl (internalError e), rpcHandled ''InstallSnapshot'' ''error'' n2)
        | (Inr (snapshotIndex, _), n2) \<Rightarrow>
            if SnapReq_LastIncludedIndex req \<le> snapshotIndex
            then (Inr \<lparr>SnapResp_Term = currentTerm n2\<rparr>, rpcHandled ''InstallSnapshot'' ''ignored'' n2)
            else case on_store (Store_InstallSnapshot
                       \<lparr>LastIncludedIndex = SnapReq_LastIncludedIndex req,
                        LastIncludedTerm = SnapReq_LastIncludedTerm req, Snapshot_Data = SnapReq_Data req\<rparr>) n2 of
              (Inl e, n3) \<Rightarrow> (Inl (internalError e), rpcHandled ''InstallSnapshot'' ''error'' n3)
            | (Inr _, n3) \<Rightarrow>
                (let n4 = n3\<lparr>commitIndex := max (commitIndex n3) (SnapReq_LastIncludedIndex req),
                             lastApplied := max (lastApplied n3) (SnapReq_LastIncludedIndex req)\<rparr>;
                     n5 = rpcHandled ''InstallSnapshot'' ''success'' (publishStateLocked n4)
                 in (Inr \<lparr>SnapResp_Term = currentTerm n5\<rparr>, n5)))"

text \<open>Reference: merging the entries of a leader into the log, one list operation at a time.\<close>

fun merge_log :: "Entry list \<Rightarrow> db \<Rightarrow> db" where
  "merge_log [] d = d"
| "merge_log (e # es) d =
     (if Entry_Index e \<le> snap_index d \<or> term_at d (Entry_Index e) = Some (Entry_Term e) then merge_log es d
      else put_entries (e # es) (drop_from (Entry_Index e) d))"

section \<open>Merging the entries of a leader\<close>

lemma drop_from_beyond:
  assumes "log_ok d" and "last_index d < max_int64"
  shows "drop_from (last_index d + 1) d = d"
proof -
  have "k < int64 (last_index d + 1)" if "(k, v) \<in> set (log_entries d)" for k v
    using that log_lookup [OF assms(1), of k] lookup_in_rows [OF db_okD(2) [OF log_okD(1) [OF assms(1)]]]
    by (auto simp: u64_inc_int64 [OF assms(2)])
  then have "delete_where (\<lambda>k. int64 (last_index d + 1) \<le> k) (log_entries d) = log_entries d"
    by (auto simp: delete_where_def filter_id_conv not_le)
  then show ?thesis by (simp add: drop_from_def)
qed

text \<open>Cutting the log after \<open>p\<close> and writing the entries that continue it there.\<close>

lemma rewrite_tail:
  assumes "log_ok d" and "snap_index d \<le> p" and "p \<le> last_index d" and "follows p es" and "es \<noteq> []"
  defines "d' \<equiv> put_entries es (drop_from (p + 1) d)"
  shows "log_ok d'" and "last_index d' = end_index p es"
    and "\<And>e. e \<in> set es \<Longrightarrow> entry_at d' (Entry_Index e) = Some e"
    and "\<And>i. i \<le> p \<Longrightarrow> entry_at d' i = entry_at d i"
    and "snap_index d' = snap_index d" and "snap_term d' = snap_term d"
proof -
  have p: "p < max_int64" using assms(4,5) by (cases es) auto
  have pm: "p \<le> max_int64" "p + 1 \<le> max_int64" using p by (auto intro: inc_le)
  let ?c = "drop_from (p + 1) d"
  have c: "log_ok ?c \<and> last_index ?c = p"
  proof (cases "p = last_index d")
    case True
    then show ?thesis using drop_from_beyond [OF assms(1)] p assms(1) by simp
  next
    case False
    then show ?thesis using drop_from_log [OF assms(1,2)] assms(3) by simp
  qed
  then have f: "follows (last_index ?c) es" using assms(4) by simp
  note P = put_entries_log [OF conjunct1 [OF c] f]
  show "log_ok d'" and "last_index d' = end_index p es" using P c by (simp_all add: d'_def)
  show "\<And>e. e \<in> set es \<Longrightarrow> entry_at d' (Entry_Index e) = Some e"
    unfolding d'_def by (rule entry_at_appended [OF conjunct1 [OF c] f])
  show "entry_at d' i = entry_at d i" if "i \<le> p" for i
  proof -
    have "find (\<lambda>e. Entry_Index e = i) (rev es) = None"
      using follows_index [OF assms(4) pm(1)] that by (force simp: find_None_iff)
    moreover have "i \<le> max_int64" using that pm(1) by (rule order_trans)
    moreover have "\<not> p + 1 \<le> i" using that u64_less_inc [OF u64_less_not_max [OF p]] by auto
    ultimately show ?thesis
      using entry_at_put_entries [OF db_okD(2) [OF log_okD(1) [OF conjunct1 [OF c]]], of es i]
        entry_at_drop_from [OF pm(2), of i d]
      by (simp add: d'_def)
  qed
  show "snap_index d' = snap_index d" and "snap_term d' = snap_term d"
    by (simp_all add: d'_def view_simps)
qed

text \<open>Either nothing is new, or the log is cut after a matching prefix and continued.\<close>

lemma merge_log_cases:
  assumes "log_ok d" and "snap_index d \<le> p" and "p \<le> last_index d" and "follows p es"
  shows "(merge_log es d = d \<and> end_index p es \<le> last_index d
      \<and> (\<forall>e \<in> set es. term_at d (Entry_Index e) = Some (Entry_Term e)))
    \<or> (\<exists>q xs ys. es = xs @ ys \<and> ys \<noteq> [] \<and> q = end_index p xs \<and> p \<le> q \<and> q \<le> last_index d \<and> follows q ys
         \<and> (\<forall>e \<in> set xs. term_at d (Entry_Index e) = Some (Entry_Term e))
         \<and> term_at d (q + 1) \<noteq> Some (Entry_Term (hd ys))
         \<and> merge_log es d = put_entries ys (drop_from (q + 1) d))"
  using assms
proof (induction es arbitrary: p)
  case Nil
  then show ?case by simp
next
  case (Cons e es)
  have p: "p < max_int64" and e: "Entry_Index e = p + 1" and f: "follows (p + 1) es"
    using Cons.prems(4) by auto
  have inc: "p < p + 1" using u64_less_not_max [OF p] by simp
  have gt: "\<not> p + 1 \<le> snap_index d"
    using inc Cons.prems(2) by (meson leD order.strict_trans1)
  show ?case
  proof (cases "term_at d (p + 1) = Some (Entry_Term e)")
    case False
    then show ?thesis
      using e gt Cons.prems(3,4)
      by (intro disjI2 exI [of _ p] exI [of _ "[]"] exI [of _ "e # es"]) simp
  next
    case True
    then have "p + 1 \<noteq> 0 \<and> p + 1 \<le> last_index d"
      using term_at_iff [OF Cons.prems(1), of "p + 1"] inc gt by (auto simp: word_gt_0)
    then have le: "p + 1 \<le> last_index d" by simp
    have m: "merge_log (e # es) d = merge_log es d" using True e by simp
    have "snap_index d \<le> p + 1" using gt by simp
    from Cons.IH [OF Cons.prems(1) this le f] show ?thesis
    proof (elim disjE exE conjE, goal_cases)
      case 1
      then show ?thesis using m e True by simp
    next
      case (2 q xs ys)
      then show ?thesis
        using m e True inc
        by (intro disjI2 exI [of _ q] exI [of _ "e # xs"] exI [of _ ys]) (auto intro: order_trans)
    qed
  qed
qed

lemma merge_log_meta [view_simps]:
  "metadata (merge_log es d) = metadata d" "kv (merge_log es d) = kv d" "snapshot (merge_log es d) = snapshot d"
  by (induction es d rule: merge_log.induct) (simp_all add: view_simps)

lemma merge_log_views [view_simps]:
  "meta_u64 (merge_log es d) k = meta_u64 d k" "meta_string (merge_log es d) k = meta_string d k"
  "kv_get (merge_log es d) = kv_get d"
  using meta_cong [of "merge_log es d" d k] by (simp_all add: view_simps kv_get_def fun_eq_iff)

lemma merge_log_spec:
  assumes "log_ok d" and "snap_index d \<le> p" and "p \<le> last_index d" and "follows p es"
  shows "log_ok (merge_log es d)" and "end_index p es \<le> last_index (merge_log es d)"
    and "\<And>e. e \<in> set es \<Longrightarrow> term_at (merge_log es d) (Entry_Index e) = Some (Entry_Term e)"
    and "\<And>e. e \<in> set es \<Longrightarrow> entry_at (merge_log es d) (Entry_Index e) \<in> {Some e, entry_at d (Entry_Index e)}"
    and "\<And>i. i \<le> p \<Longrightarrow> entry_at (merge_log es d) i = entry_at d i"
    and "\<And>i. i \<le> p \<Longrightarrow> term_at (merge_log es d) i = term_at d i"
    and "merge_log es d \<noteq> d \<Longrightarrow> last_index (merge_log es d) = end_index p es"
proof -
  let ?d = "merge_log es d"
  have pm: "p \<le> max_int64" using assms(3) log_okD(3) [OF assms(1)] by (rule order_trans)
  have "log_ok ?d \<and> end_index p es \<le> last_index ?d
      \<and> (\<forall>e \<in> set es. term_at ?d (Entry_Index e) = Some (Entry_Term e)
           \<and> entry_at ?d (Entry_Index e) \<in> {Some e, entry_at d (Entry_Index e)})
      \<and> (\<forall>i \<le> p. entry_at ?d i = entry_at d i) \<and> (?d \<noteq> d \<longrightarrow> last_index ?d = end_index p es)"
    using merge_log_cases [OF assms]
  proof (elim disjE exE conjE, goal_cases)
    case 1
    then show ?case using assms(1) by simp
  next
    case (2 q xs ys)
    have q: "snap_index d \<le> q" using assms(2) 2(4) by (rule order_trans)
    note R = rewrite_tail [OF assms(1) q 2(5,6,2), folded 2(9)]
    have f: "follows p xs" and endq: "end_index p es = end_index q ys"
      using assms(4) 2(1,3) by (simp_all add: follows_append end_index_append)
    have snap: "snap_index ?d = snap_index d" by (simp add: view_simps)
    have xs: "entry_at ?d (Entry_Index e) = entry_at d (Entry_Index e)
        \<and> term_at ?d (Entry_Index e) = Some (Entry_Term e)" if "e \<in> set xs" for e
    proof -
      have gt: "snap_index d < Entry_Index e"
        using follows_index [OF f pm that] assms(2) by (auto intro: order.strict_trans1)
      have "Entry_Index e \<le> q" using follows_index_end [OF f pm that] 2(3) by simp
      from R(4) [OF this] show ?thesis
        using 2(7) that term_at_entry [OF gt] term_at_entry [of ?d "Entry_Index e"] gt snap by simp
    qed
    have ys: "entry_at ?d (Entry_Index e) = Some e \<and> term_at ?d (Entry_Index e) = Some (Entry_Term e)"
      if "e \<in> set ys" for e
      using R(3) [OF that] entry_at_term [OF R(1)] by simp
    show ?case
      using R(1,2,4) endq 2(1,4) xs ys by (auto intro: order_trans)
  qed
  then show "log_ok ?d" and "end_index p es \<le> last_index ?d"
    and "\<And>e. e \<in> set es \<Longrightarrow> term_at ?d (Entry_Index e) = Some (Entry_Term e)"
    and "\<And>e. e \<in> set es \<Longrightarrow> entry_at ?d (Entry_Index e) \<in> {Some e, entry_at d (Entry_Index e)}"
    and at: "\<And>i. i \<le> p \<Longrightarrow> entry_at ?d i = entry_at d i"
    and "?d \<noteq> d \<Longrightarrow> last_index ?d = end_index p es"
    by blast+
  have ev: "snap_index ?d = snap_index d" "snap_term ?d = snap_term d" by (simp_all add: view_simps)
  show "term_at ?d i = term_at d i" if "i \<le> p" for i
  proof (cases "snap_index d < i")
    case True
    then show ?thesis using at [OF that] term_at_entry [of d i] term_at_entry [of ?d i] ev by simp
  next
    case False
    then show ?thesis using ev by (auto simp: term_at_def)
  qed
qed

section \<open>The stored entries are the merged log\<close>

lemma toStorageEntry_fields [simp]:
  "Entry_Index (toStorageEntry e) = LogEntry_Index e" "Entry_Term (toStorageEntry e) = LogEntry_Term e"
  "Entry_Command (toStorageEntry e) = LogEntry_Command e"
  by (simp_all add: toStorageEntry_def)

lemma follows_step:
  assumes "follows p (map toStorageEntry (e # es))" and "si \<le> p"
  shows "LogEntry_Index e = p + 1" and "follows (p + 1) (map toStorageEntry es)" and "p < p + 1"
    and "\<not> p + 1 \<le> si" and "max p (p + 1) = p + 1" and "si \<le> p + 1"
proof -
  have p: "p < max_int64" and e: "LogEntry_Index e = p + 1" and f: "follows (p + 1) (map toStorageEntry es)"
    using assms(1) by simp_all
  have inc: "p < p + 1" using u64_less_not_max [OF p] by simp
  then have "si < p + 1" using assms(2) by simp
  with e f inc show "LogEntry_Index e = p + 1" and "follows (p + 1) (map toStorageEntry es)" and "p < p + 1"
    and "\<not> p + 1 \<le> si" and "max p (p + 1) = p + 1" and "si \<le> p + 1"
    by (simp_all add: not_le max_def)
qed

lemma scan_missing:
  assumes "follows p (map toStorageEntry es)" and "si \<le> p" and "missing \<noteq> []"
  shows "scan_entries si es p missing n =
    (Inr (end_index p (map toStorageEntry es), missing @ map toStorageEntry es), n)"
  using assms
proof (induction es arbitrary: p missing)
  case (Cons e es)
  note F = follows_step [OF Cons.prems(1,2)]
  have "scan_entries si (e # es) p missing n = scan_entries si es (p + 1) (missing @ [toStorageEntry e]) n"
    using Cons.prems(3) F by (simp add: Let_def)
  then show ?case
    using Cons.IH [OF F(2,6), of "missing @ [toStorageEntry e]"] F(1) by simp
qed simp

text \<open>A database in which a conflicting entry and what follows it may have been cut off.\<close>

definition cut_log :: "Entry list \<Rightarrow> db \<Rightarrow> db \<Rightarrow> bool" where
  "cut_log es d d' \<longleftrightarrow>
     d' = d \<or> (\<exists>e \<in> set es. Entry_Index e \<le> last_index d \<and> snap_index d < Entry_Index e
                 \<and> term_at d (Entry_Index e) \<noteq> Some (Entry_Term e) \<and> d' = drop_from (Entry_Index e) d)"

lemma scan_entries_merges:
  assumes "log_ok (ndb n)" and "si = snap_index (ndb n)" and "si \<le> p" and "p \<le> last_index (ndb n)"
    and "follows p (map toStorageEntry es)" and "scan_entries si es p [] n = (r, n')"
  shows "case r of
      Inr (m, missing) \<Rightarrow> m = end_index p (map toStorageEntry es)
        \<and> (\<exists>d. frame n' (with_db d n) \<and> cut_log (map toStorageEntry es) (ndb n) d
              \<and> put_entries missing d = merge_log (map toStorageEntry es) (ndb n))
    | Inl e \<Rightarrow> frame n' n \<and> \<not> clean n"
  using assms
proof (induction es arbitrary: p n)
  case Nil
  then show ?case by (auto simp: put_entries_def cut_log_def intro!: exI [of _ "ndb n"])
next
  case (Cons e es)
  let ?d = "ndb n" and ?E = "map toStorageEntry es"
  note F = follows_step [OF Cons.prems(5,3)]
  obtain r1 n1 where a: "on_store (Store_Term (p + 1)) n = (r1, n1)" by fastforce
  note A = on_store_answers [OF Store_Term_answers log_ok_meta [OF Cons.prems(1)] a]
  have d1: "ndb n1 = ?d" by (rule frameD(1) [OF A(1)])
  show ?case
  proof (cases r1)
    case (Inl err)
    then show ?thesis using Cons.prems(6) A(1,3) F a by (auto simp: Let_def)
  next
    case (Inr known)
    then have known: "known = term_at ?d (p + 1)" by (rule A(2))
    show ?thesis
    proof (cases "known = Some (LogEntry_Term e)")
      case True
      then have run: "scan_entries si es (p + 1) [] n1 = (r, n')"
        using Cons.prems(6) Inr F a by (simp add: Let_def)
      have "p + 1 \<le> last_index ?d"
        using term_at_iff [OF Cons.prems(1), of "p + 1"] True known F(3) by auto
      then have "case r of
          Inr (m, missing) \<Rightarrow> m = end_index (p + 1) ?E
            \<and> (\<exists>d. frame n' (with_db d n1) \<and> cut_log ?E ?d d \<and> put_entries missing d = merge_log ?E ?d)
        | Inl e \<Rightarrow> frame n' n1 \<and> \<not> clean n1"
        using Cons.IH [where n = n1 and p = "p + 1", unfolded d1, OF Cons.prems(1,2) F(6) _ F(2) run] by blast
      moreover have "merge_log (map toStorageEntry (e # es)) ?d = merge_log ?E ?d"
        using True known F(1) by simp
      moreover have "cut_log ?E ?d d \<Longrightarrow> cut_log (map toStorageEntry (e # es)) ?d d" for d by (auto simp: cut_log_def)
      moreover have "frame n' (with_db d n1) \<Longrightarrow> frame n' (with_db d n)" for d
        by (erule frame_trans) (rule frame_with_db [OF A(1)])
      ultimately show ?thesis
        using F(1) A(1) frame_clean [OF A(1)] by (fastforce intro: frame_trans split: sum.splits)
    next
      case False
      then have neq: "term_at ?d (p + 1) \<noteq> Some (LogEntry_Term e)" using known by simp
      then have merge: "merge_log (map toStorageEntry (e # es)) ?d =
          put_entries (map toStorageEntry (e # es)) (drop_from (p + 1) ?d)"
        using F(1,4) Cons.prems(2) by simp
      have rest: "scan_entries si es (p + 1) [toStorageEntry e] m =
          (Inr (end_index p (map toStorageEntry (e # es)), map toStorageEntry (e # es)), m)" for m
        using scan_missing [OF F(2,6), of "[toStorageEntry e]"] F(1) by simp
      show ?thesis
      proof (cases known)
        case None
        have "p = last_index ?d"
        proof (rule ccontr)
          assume "p \<noteq> last_index ?d"
          then have "p + 1 \<le> last_index ?d" using Cons.prems(4) by (auto intro: inc_le)
          then have "term_at ?d (p + 1) \<noteq> None"
            using term_at_iff [OF Cons.prems(1), of "p + 1"] F(6) Cons.prems(2) by auto
          with None known show False by simp
        qed
        then have "drop_from (p + 1) ?d = ?d"
          using drop_from_beyond [OF Cons.prems(1)] Cons.prems(5) by simp
        moreover have "(r, n') = (Inr (end_index p (map toStorageEntry (e # es)), map toStorageEntry (e # es)), n1)"
          using Cons.prems(6) None Inr F a rest [of n1] by (simp add: Let_def)
        moreover have "frame n1 (with_db ?d n)" using A(1) by simp
        ultimately show ?thesis using merge by (auto simp: cut_log_def intro!: exI [of _ ?d])
      next
        case (Some t)
        obtain r2 n2 where b: "on_store (DeleteFrom (p + 1)) n1 = (r2, n2)" by fastforce
        note B = on_store_commits [OF DeleteFrom_commits b]
        have step: "scan_entries si (e # es) p [] n =
            (case r2 of Inl err \<Rightarrow> (Inl err, n2) | Inr _ \<Rightarrow> scan_entries si es (p + 1) [toStorageEntry e] n2)"
          using Some False Inr F a b by (simp add: Let_def split: sum.split)
        show ?thesis
        proof (cases r2)
          case (Inl err)
          then show ?thesis
            using step Cons.prems(6) B(2) [OF Inl] A(1) frame_clean [OF A(1)] by (auto intro: frame_trans)
        next
          case r2: (Inr u)
          have le: "p + 1 \<le> last_index ?d"
            using term_at_iff [OF Cons.prems(1), of "p + 1"] Some known F(3) by auto
          have "frame n2 (with_db (drop_from (p + 1) ?d) n)"
            using B(1) [OF r2] frame_with_db [OF A(1)] by (metis d1 frame_trans)
          moreover have "cut_log (map toStorageEntry (e # es)) ?d (drop_from (p + 1) ?d)"
            using neq le F(1,4) Cons.prems(2) by (auto simp: cut_log_def)
          moreover have "(r, n') = (Inr (end_index p (map toStorageEntry (e # es)), map toStorageEntry (e # es)), n2)"
            using step Cons.prems(6) r2 rest [of n2] by simp
          ultimately show ?thesis using merge by auto
        qed
      qed
    qed
  qed
qed

lemma storeLeaderEntriesLocked_merges:
  assumes "log_ok (ndb n)" and "si = snap_index (ndb n)" and "si \<le> p" and "p \<le> last_index (ndb n)"
    and "follows p (map toStorageEntry es)" and "storeLeaderEntriesLocked es p si n = (r, n')"
  shows "\<And>m. r = Inr m \<Longrightarrow> m = end_index p (map toStorageEntry es)
      \<and> frame n' (with_db (merge_log (map toStorageEntry es) (ndb n)) n)"
    and "\<And>e. r = Inl e \<Longrightarrow> \<not> clean n \<and> (\<exists>d. frame n' (with_db d n) \<and> cut_log (map toStorageEntry es) (ndb n) d)"
proof -
  let ?E = "map toStorageEntry es"
  obtain r1 n1 where a: "scan_entries si es p [] n = (r1, n1)" by fastforce
  note A = scan_entries_merges [OF assms(1-5) a]
  have "(\<forall>m. r = Inr m \<longrightarrow> m = end_index p ?E \<and> frame n' (with_db (merge_log ?E (ndb n)) n))
      \<and> (\<forall>e. r = Inl e \<longrightarrow> \<not> clean n \<and> (\<exists>d. frame n' (with_db d n) \<and> cut_log ?E (ndb n) d))"
  proof (cases r1)
    case (Inl e)
    then have "frame n' (with_db (ndb n) n)" "\<not> clean n" "r = Inl e"
      using A assms(6) a by (auto simp: storeLeaderEntriesLocked_def)
    moreover have "cut_log ?E (ndb n) (ndb n)" by (simp add: cut_log_def)
    ultimately show ?thesis by blast
  next
    case (Inr x)
    obtain m missing where x: "x = (m, missing)" by (cases x)
    from A Inr x obtain d where d: "frame n1 (with_db d n)" "cut_log ?E (ndb n) d"
        "put_entries missing d = merge_log ?E (ndb n)" and m: "m = end_index p ?E" by auto
    obtain r2 n2 where b: "on_store (Store_AppendEntries missing) n1 = (r2, n2)" by fastforce
    note B = on_store_commits [OF Store_AppendEntries_commits b]
    have d1: "ndb n1 = d" using frameD(1) [OF d(1)] by simp
    have res: "(r, n') = (case r2 of Inl e \<Rightarrow> (Inl e, n2) | Inr _ \<Rightarrow> (Inr m, n2))"
      using assms(6) a b Inr x by (simp add: storeLeaderEntriesLocked_def split: sum.splits)
    show ?thesis
    proof (cases r2)
      case (Inl e)
      then show ?thesis
        using res B(2) [OF Inl] d(1,2) frame_clean [OF d(1)] by (auto intro: frame_trans)
    next
      case r2: (Inr u)
      have "frame n2 (with_db (merge_log ?E (ndb n)) n)"
        using B(1) [OF r2] frame_with_db [OF d(1), of "merge_log ?E (ndb n)"] d(3) d1
        by (simp add: frame_trans)
      then show ?thesis using res r2 m by simp
    qed
  qed
  then show "\<And>m. r = Inr m \<Longrightarrow> m = end_index p ?E \<and> frame n' (with_db (merge_log ?E (ndb n)) n)"
    and "\<And>e. r = Inl e \<Longrightarrow> \<not> clean n \<and> (\<exists>d. frame n' (with_db d n) \<and> cut_log ?E (ndb n) d)"
    by blast+
qed

lemma follow_sender_frame:
  assumes "meta_ok (ndb n)" and "currentTerm n \<le> t"
  obtains d where "frame (follow_sender t l n) (stepped_down t l d n)"
    and "d = (if currentTerm n < t then put_term_vote t [] (ndb n) else ndb n) \<or> (d = ndb n \<and> \<not> clean n)"
    and "meta_ok d"
proof (cases "currentTerm n < t \<or> role n \<noteq> RoleFollower")
  case True
  obtain d where d: "frame (stepDownLocked t l n) (stepped_down t l d n)"
    "d = (if currentTerm n < t then put_term_vote t [] (ndb n) else ndb n) \<or> (d = ndb n \<and> \<not> clean n)"
    "meta_ok d" by (rule stepDownLocked_frame [OF assms(1)])
  have "frame (stepDownLocked t l n\<lparr>leaderID := l\<rparr>) (stepped_down t l d n\<lparr>leaderID := l\<rparr>)"
    by (rule frame_upd(4) [OF d(1)])
  moreover have "stepped_down t l d n\<lparr>leaderID := l\<rparr> = stepped_down t l d n"
    by (simp add: stepped_down_def with_db_def)
  ultimately have "frame (follow_sender t l n) (stepped_down t l d n)"
    using True by (simp add: follow_sender_def frame_trans [OF resetElectionDeadlineLocked_frame])
  then show ?thesis using d(2,3) by (rule that)
next
  case False
  then have "stepped_down t l (ndb n) n = n\<lparr>leaderID := l\<rparr>"
    using assms(2) by (simp add: stepped_down_def with_db_def max_def)
  then have "frame (follow_sender t l n) (stepped_down t l (ndb n) n)"
    using False by (simp add: follow_sender_def)
  then show ?thesis using False assms(1) by (intro that [of "ndb n"]) simp_all
qed

lemma followLeaderCommitLocked_run:
  assumes "log_ok (ndb n)" and "followLeaderCommitLocked lc n = (r, n')"
  shows "(frame n' n \<and> (r = Inr () \<longrightarrow> lc \<le> commitIndex n) \<and> (isl r \<longrightarrow> \<not> clean n))
    \<or> (r = Inr () \<and> commitIndex n < lc
       \<and> (\<exists>m. frame m (n\<lparr>commitIndex := min lc (last_index (ndb n))\<rparr>) \<and> n' = applyCommittedLocked m))"
proof (cases "lc \<le> commitIndex n")
  case True
  then show ?thesis using assms(2) by (auto simp: followLeaderCommitLocked_def)
next
  case False
  obtain r1 n1 where a: "on_store LastIndexAndTerm n = (r1, n1)" by fastforce
  note A = on_store_answers [OF LastIndexAndTerm_answers log_ok_meta [OF assms(1)] a]
  show ?thesis
  proof (cases r1)
    case (Inl e)
    then show ?thesis using False assms(2) a A(1,3) by (auto simp: followLeaderCommitLocked_def)
  next
    case (Inr lt)
    then obtain t where lt: "lt = (last_index (ndb n), t)" using A(2) last_entry_eq by blast
    have "frame (n1\<lparr>commitIndex := min lc (last_index (ndb n))\<rparr>) (n\<lparr>commitIndex := min lc (last_index (ndb n))\<rparr>)"
      by (rule frame_upd(5) [OF A(1)])
    then show ?thesis using False assms(2) a Inr lt by (auto simp: followLeaderCommitLocked_def)
  qed
qed

lemma rejectAppendLocked_result:
  assumes "log_ok (ndb n)" and "rejectAppendLocked n = (r, n')"
  shows "frame n' n" and "\<And>x. r = Inr x \<Longrightarrow> x = \<lparr>AppendResp_Term = currentTerm n, AppendResp_Success = False,
      AppendResp_MatchIndex = last_index (ndb n)\<rparr>" and "\<And>e. r = Inl e \<Longrightarrow> \<not> clean n"
proof -
  obtain r1 n1 where a: "on_store LastIndexAndTerm n = (r1, n1)" by fastforce
  note A = on_store_answers [OF LastIndexAndTerm_answers log_ok_meta [OF assms(1)] a]
  have "frame n' n \<and> (case r of
      Inr x \<Rightarrow> x = \<lparr>AppendResp_Term = currentTerm n, AppendResp_Success = False,
                AppendResp_MatchIndex = last_index (ndb n)\<rparr>
    | Inl e \<Rightarrow> \<not> clean n)"
  proof (cases r1)
    case (Inl e)
    then show ?thesis using assms(2) a A(1,3) by (auto simp: rejectAppendLocked_def)
  next
    case (Inr lt)
    then obtain t where lt: "lt = (last_index (ndb n), t)" using A(2) last_entry_eq by blast
    then show ?thesis using assms(2) a A(1) Inr frameD(11) [OF A(1)] by (auto simp: rejectAppendLocked_def)
  qed
  then show "frame n' n" and "\<And>x. r = Inr x \<Longrightarrow> x = \<lparr>AppendResp_Term = currentTerm n, AppendResp_Success = False,
      AppendResp_MatchIndex = last_index (ndb n)\<rparr>" and "\<And>e. r = Inl e \<Longrightarrow> \<not> clean n"
    by (auto split: sum.splits)
qed

lemma rpcHandled_frame [simp]: "frame (rpcHandled x y n) n"
  by (simp add: rpcHandled_def)

section \<open>Outcomes of the handlers\<close>

text \<open>The database after adopting term \<open>t\<close>: the term and the cleared vote, if they could be written.\<close>

definition adopted :: "u64 \<Rightarrow> Node \<Rightarrow> db \<Rightarrow> bool" where
  "adopted t n d \<longleftrightarrow>
     d = (if currentTerm n < t then put_term_vote t [] (ndb n) else ndb n) \<or> (d = ndb n \<and> \<not> clean n)"

lemma adopted_log:
  assumes "adopted t n d" and "log_ok (ndb n)"
  shows "log_ok d" and "last_entry d = last_entry (ndb n)" and "last_index d = last_index (ndb n)"
    and "term_at d = term_at (ndb n)" and "entry_at d = entry_at (ndb n)" and "kv_get d = kv_get (ndb n)"
    and "snap_index d = snap_index (ndb n)" and "snap_term d = snap_term (ndb n)"
    and "meta_u64 d ''last_applied'' = meta_u64 (ndb n) ''last_applied''"
  using assms
  by (auto simp: adopted_def view_simps log_ok_effects fun_eq_iff split: if_splits)

text \<open>What is left of an accepted request once the entries are merged: the leader's commit index.\<close>

definition commit_followed :: "u64 \<Rightarrow> Node \<Rightarrow> Node \<Rightarrow> bool" where
  "commit_followed lc m n' \<longleftrightarrow>
     (lc \<le> commitIndex m \<and> frame n' m)
     \<or> (commitIndex m < lc
        \<and> (\<exists>k. frame k (m\<lparr>commitIndex := min lc (last_index (ndb m))\<rparr>) \<and> frame n' (applyCommittedLocked k)))"

lemma commit_followed_frame:
  assumes "commit_followed lc m n'" and "frame m m0"
  shows "commit_followed lc m0 n'"
proof -
  have "ndb m = ndb m0" "commitIndex m = commitIndex m0" using frameD(1,14) [OF assms(2)] by simp_all
  then show ?thesis
    using assms frame_upd(5) [OF assms(2)] by (auto simp: commit_followed_def intro: frame_trans)
qed

lemma followLeaderCommitLocked_followed:
  assumes "log_ok (ndb n)" and "followLeaderCommitLocked lc n = (Inr u, n1)"
    and n'_def: "n' = rpcHandled x y (publishStateLocked n1)"
  shows "commit_followed lc n n'" and "currentTerm n' = currentTerm n"
proof -
  have pub: "frame n' n1" if "log_ok (ndb n1)"
    unfolding n'_def using that by (intro frame_trans [OF rpcHandled_frame] publishStateLocked_frame log_ok_meta)
  have "commit_followed lc n n' \<and> currentTerm n' = currentTerm n"
    using followLeaderCommitLocked_run [OF assms(1,2)]
  proof (elim disjE exE conjE, goal_cases)
    case 1
    then have "frame n' n" using pub assms(1) frameD(1) [OF 1(1)] by (auto intro: frame_trans)
    then show ?case using 1 frameD(11) [of n' n] by (auto simp: commit_followed_def)
  next
    case (2 k)
    have okk: "log_ok (ndb k)" using assms(1) frameD(1) [OF 2(3)] by simp
    have adv: "advanced n1 k" unfolding 2(4) by (rule applyCommittedLocked_advanced [OF okk])
    have f: "frame n' n1" by (rule pub [OF advanced_log_ok [OF adv]])
    then show ?case
      using 2 frameD(11) [OF f] advancedD(7) [OF adv] frameD(11) [OF 2(3)] by (auto simp: commit_followed_def)
  qed
  then show "commit_followed lc n n'" and "currentTerm n' = currentTerm n" by simp_all
qed

lemma accept_entries_outcome:
  assumes "log_ok (ndb n)" and "snap_index (ndb n) \<le> AppendReq_PrevLogIndex req"
    and "AppendReq_PrevLogIndex req \<le> last_index (ndb n)"
    and "follows (AppendReq_PrevLogIndex req) (map toStorageEntry (AppendReq_Entries req))"
    and "accept_entries req (snap_index (ndb n)) n = (r, n')"
  defines "E \<equiv> map toStorageEntry (AppendReq_Entries req)"
  shows "(isl r \<and> \<not> clean n \<and> (\<exists>d. frame n' (with_db d n) \<and> (cut_log E (ndb n) d \<or> d = merge_log E (ndb n))))
    \<or> (r = Inr \<lparr>AppendResp_Term = currentTerm n, AppendResp_Success = True,
                AppendResp_MatchIndex = end_index (AppendReq_PrevLogIndex req) E\<rparr>
       \<and> commit_followed (AppendReq_LeaderCommit req) (with_db (merge_log E (ndb n)) n) n')"
proof -
  let ?p = "AppendReq_PrevLogIndex req" and ?m = "with_db (merge_log E (ndb n)) n"
  obtain r1 n1 where a: "storeLeaderEntriesLocked (AppendReq_Entries req) ?p (snap_index (ndb n)) n = (r1, n1)"
    by fastforce
  note S = storeLeaderEntriesLocked_merges [OF assms(1) refl assms(2-4) a, folded E_def]
  show ?thesis
  proof (cases r1)
    case (Inl e)
    then have "isl r" and "frame n' n1" using assms(5) a by (auto simp: accept_entries_def)
    then show ?thesis using S(2) [OF Inl] by (blast intro: frame_trans)
  next
    case (Inr match)
    have match: "match = end_index ?p E" and f: "frame n1 ?m" using S(1) [OF Inr] by simp_all
    have ok: "log_ok (ndb n1)"
      using frameD(1) [OF f] merge_log_spec(1) [OF assms(1-4)] by (simp add: E_def)
    obtain r2 n2 where b: "followLeaderCommitLocked (AppendReq_LeaderCommit req) n1 = (r2, n2)" by fastforce
    show ?thesis
    proof (cases r2)
      case err: (Inl e)
      then have "isl r" and "frame n' n2" using assms(5) a b Inr by (auto simp: accept_entries_def)
      moreover have "frame n2 n1" and "\<not> clean n1"
        using followLeaderCommitLocked_run [OF ok b] err by auto
      moreover have "frame n' ?m"
        using \<open>frame n' n2\<close> \<open>frame n2 n1\<close> f by (blast intro: frame_trans)
      moreover have "\<not> clean n" using \<open>\<not> clean n1\<close> frame_clean [OF f] by auto
      ultimately show ?thesis by blast
    next
      case ok2: (Inr u)
      note C = followLeaderCommitLocked_followed [OF ok b [unfolded ok2] refl]
      show ?thesis
        using assms(5) a b Inr ok2 C(1) [THEN commit_followed_frame, OF f] C(2) frameD(11) [OF f] match
        by (auto simp: accept_entries_def Let_def)
    qed
  qed
qed

lemma check_entries_outcome:
  assumes "log_ok (ndb n)" and "check_entries req n = (r, n')"
    and "follows (AppendReq_PrevLogIndex req) (map toStorageEntry (AppendReq_Entries req))"
  defines "E \<equiv> map toStorageEntry (AppendReq_Entries req)" and "p \<equiv> AppendReq_PrevLogIndex req"
  defines "ok \<equiv> snap_index (ndb n) \<le> p \<and> term_at (ndb n) p = Some (AppendReq_PrevLogTerm req)"
  shows "(isl r \<and> \<not> clean n \<and> (\<exists>d. frame n' (with_db d n)
          \<and> (cut_log E (ndb n) d \<or> d = merge_log E (ndb n)) \<and> (d \<noteq> ndb n \<longrightarrow> ok)))
    \<or> (\<not> ok \<and> frame n' n
       \<and> r = Inr \<lparr>AppendResp_Term = currentTerm n, AppendResp_Success = False, AppendResp_MatchIndex =
                   (if p < snap_index (ndb n) then snap_index (ndb n) else last_index (ndb n))\<rparr>)
    \<or> (ok \<and> commit_followed (AppendReq_LeaderCommit req) (with_db (merge_log E (ndb n)) n) n'
       \<and> r = Inr \<lparr>AppendResp_Term = currentTerm n, AppendResp_Success = True,
                   AppendResp_MatchIndex = end_index p E\<rparr>)"
proof -
  obtain r1 n1 where a: "on_store SnapshotIndexTerm n = (r1, n1)" by fastforce
  note A = on_store_answers [OF SnapshotIndexTerm_answers log_ok_meta [OF assms(1)] a]
  obtain r2 n2 where b: "on_store (Store_Term p) n1 = (r2, n2)" by fastforce
  have d1: "ndb n1 = ndb n" by (rule frameD(1) [OF A(1)])
  have "meta_ok (ndb n1)" using log_ok_meta [OF assms(1)] d1 by simp
  note B = on_store_answers [OF Store_Term_answers this b, unfolded d1]
  have f: "frame n2 n" using B(1) A(1) by (rule frame_trans)
  note F = frameD [OF f]
  have cl: "\<not> clean n1 \<Longrightarrow> \<not> clean n" "\<not> clean n2 \<Longrightarrow> \<not> clean n"
    using frame_clean [OF A(1)] frame_clean [OF f] by auto
  have err: "isl r \<Longrightarrow> \<not> clean n \<Longrightarrow> frame n' n \<Longrightarrow> ?thesis"
    by (intro disjI1 conjI exI [of _ "ndb n"]) (auto simp: cut_log_def)
  note run = assms(2) [unfolded check_entries_def, folded p_def]
  consider (e1) e where "r1 = Inl e" | (snap) "r1 = Inr (snap_index (ndb n), snap_term (ndb n))" "p < snap_index (ndb n)"
    | (e2) e where "r1 = Inr (snap_index (ndb n), snap_term (ndb n))" "\<not> p < snap_index (ndb n)" "r2 = Inl e"
    | (mismatch) "r1 = Inr (snap_index (ndb n), snap_term (ndb n))" "\<not> p < snap_index (ndb n)"
        "r2 = Inr (term_at (ndb n) p)" "term_at (ndb n) p \<noteq> Some (AppendReq_PrevLogTerm req)"
    | (match) "r1 = Inr (snap_index (ndb n), snap_term (ndb n))" "\<not> p < snap_index (ndb n)"
        "r2 = Inr (term_at (ndb n) p)" "term_at (ndb n) p = Some (AppendReq_PrevLogTerm req)"
    using A(2) B(2) by (cases r1; cases r2) auto
  then show ?thesis
  proof cases
    case e1
    then have "isl r" "frame n' n1" using run a by auto
    then show ?thesis using err A(1,3) e1 by (blast intro: frame_trans)
  next
    case snap
    have "frame (rpcHandled x y n1) n" for x y using A(1) by (rule frame_trans [OF rpcHandled_frame])
    then show ?thesis using snap run a frameD(11) [OF A(1)] by (auto simp: ok_def)
  next
    case e2
    then have "isl r" "frame n' n2" using run a b by auto
    then show ?thesis using err f B(3) e2 cl by (blast intro: frame_trans)
  next
    case mismatch
    let ?m = "rpcHandled ''AppendEntries'' ''log_mismatch'' n2"
    have g: "frame ?m n" using f by (rule frame_trans [OF rpcHandled_frame])
    have "rejectAppendLocked ?m = (r, n')" using run a b mismatch by simp
    note R = rejectAppendLocked_result [OF _ this]
    have okm: "log_ok (ndb ?m)" using frameD(1) [OF g] assms(1) by simp
    have "frame n' n" using R(1) [OF okm] g by (rule frame_trans)
    then show ?thesis
      using err R(2,3) [OF okm] frame_clean [OF g] frameD(1,11) [OF g] mismatch
      by (cases r) (auto simp: ok_def)
  next
    case match
    then have ok by (simp add: ok_def)
    have le: "p \<le> last_index (ndb n)"
      using match term_at_iff [OF assms(1), of p] log_okD(2) [OF assms(1)] by auto
    have "accept_entries req (snap_index (ndb n2)) n2 = (r, n')" using run a b match F(1) by simp
    note out = accept_entries_outcome [OF _ _ _ assms(3) this, folded p_def E_def, unfolded F(1,11), OF assms(1) _ le]
    have "snap_index (ndb n) \<le> p" using match(2) by simp
    from out [OF this] show ?thesis
    proof (elim disjE conjE exE, goal_cases)
      case (1 d)
      have "frame n' (with_db d n)" by (rule frame_trans [OF 1(3) frame_with_db [OF f]])
      then show ?case using 1 \<open>ok\<close> cl(2) by blast
    next
      case (2 d)
      have "frame n' (with_db d n)" by (rule frame_trans [OF 2(3) frame_with_db [OF f]])
      then show ?case using 2 \<open>ok\<close> cl(2) by blast
    next
      case 3
      then show ?case using \<open>ok\<close> commit_followed_frame [OF _ frame_with_db [OF f]] by blast
    qed
  qed
qed

text \<open>
  The outcomes of the handler: a stale sender changes nothing; otherwise the sender is followed in
  its term, and the request fails, is rejected, or is merged and its commit index followed.
\<close>

lemma AppendEntries_outcome:
  assumes "log_ok (ndb n)" and "AppendEntries req n = (r, n')"
    and "follows (AppendReq_PrevLogIndex req) (map toStorageEntry (AppendReq_Entries req))"
  defines "E \<equiv> map toStorageEntry (AppendReq_Entries req)" and "p \<equiv> AppendReq_PrevLogIndex req"
    and "t \<equiv> AppendReq_Term req"
  obtains (stale) "t < currentTerm n" and "frame n' n"
      and "\<And>x. r = Inr x \<Longrightarrow> x = \<lparr>AppendResp_Term = currentTerm n, AppendResp_Success = False,
                                  AppendResp_MatchIndex = last_index (ndb n)\<rparr>"
  | (failed) d m d2 where "currentTerm n \<le> t" and "adopted t n d"
      and "m = stepped_down t (AppendReq_LeaderId req) d n" and "isl r" and "\<not> clean n"
      and "frame n' (with_db d2 m)" and "cut_log E d d2 \<or> d2 = merge_log E d"
      and "d2 \<noteq> d \<Longrightarrow> snap_index d \<le> p \<and> term_at d p = Some (AppendReq_PrevLogTerm req)"
  | (rejected) d m where "currentTerm n \<le> t" and "adopted t n d"
      and "m = stepped_down t (AppendReq_LeaderId req) d n" and "frame n' m"
      and "\<not> (snap_index d \<le> p \<and> term_at d p = Some (AppendReq_PrevLogTerm req))"
      and "r = Inr \<lparr>AppendResp_Term = t, AppendResp_Success = False, AppendResp_MatchIndex =
                     (if p < snap_index d then snap_index d else last_index d)\<rparr>"
  | (accepted) d m where "currentTerm n \<le> t" and "adopted t n d"
      and "m = stepped_down t (AppendReq_LeaderId req) d n"
      and "snap_index d \<le> p" and "term_at d p = Some (AppendReq_PrevLogTerm req)"
      and "commit_followed (AppendReq_LeaderCommit req) (with_db (merge_log E d) m) n'"
      and "r = Inr \<lparr>AppendResp_Term = t, AppendResp_Success = True, AppendResp_MatchIndex = end_index p E\<rparr>"
proof (cases "t < currentTerm n")
  case True
  let ?m = "rpcHandled ''AppendEntries'' ''stale_term'' n"
  have f: "frame ?m n" by simp
  have ok: "log_ok (ndb ?m)" using assms(1) frameD(1) [OF f] by simp
  have "rejectAppendLocked ?m = (r, n')" using True assms(2) by (simp add: AppendEntries_def t_def)
  note R = rejectAppendLocked_result [OF ok this]
  show ?thesis
    by (rule stale [OF True frame_trans [OF R(1) f]]) (use R(2) frameD(1,11) [OF f] in simp)
next
  case False
  then have le: "currentTerm n \<le> t" by simp
  obtain d where fs: "frame (follow_sender t (AppendReq_LeaderId req) n) (stepped_down t (AppendReq_LeaderId req) d n)"
    and ad: "adopted t n d"
    unfolding adopted_def by (rule follow_sender_frame [OF log_ok_meta [OF assms(1)] le])
  define m where m_def: "m = stepped_down t (AppendReq_LeaderId req) d n"
  define n1 where "n1 = follow_sender t (AppendReq_LeaderId req) n"
  have f: "frame n1 m" using fs by (simp add: n1_def m_def)
  have m: "ndb n1 = d" "currentTerm n1 = t" "\<not> clean n1 \<Longrightarrow> \<not> clean n"
    using le frameD(1,11) [OF f] frame_clean [OF f] by (auto simp: m_def max_def)
  have "check_entries req n1 = (r, n')"
    using False assms(2) by (simp add: AppendEntries_def n1_def t_def)
  note out = check_entries_outcome [OF _ this assms(3), folded E_def p_def, unfolded m(1,2), OF adopted_log(1) [OF ad assms(1)]]
  from out show ?thesis
  proof (elim disjE conjE exE, goal_cases)
    case (1 d2)
    show ?thesis
      by (rule failed [OF le ad m_def 1(1) m(3) [OF 1(2)] frame_trans [OF 1(3) frame_with_db [OF f]]]) (use 1 in blast)+
  next
    case (2 d2)
    show ?thesis
      by (rule failed [OF le ad m_def 2(1) m(3) [OF 2(2)] frame_trans [OF 2(3) frame_with_db [OF f]]]) (use 2 in blast)+
  next
    case 3
    show ?thesis by (rule rejected [OF le ad m_def frame_trans [OF 3(2) f] 3(1) 3(3)])
  next
    case 4
    show ?thesis
      by (rule accepted [OF le ad m_def 4(1,2) commit_followed_frame [OF 4(3) frame_with_db [OF f]] 4(4)])
  qed
qed

text \<open>The node after a snapshot has been installed.\<close>

definition installed_node :: "Snapshot \<Rightarrow> string_map \<Rightarrow> Node \<Rightarrow> Node" where
  "installed_node sn state m =
     (with_db (restore sn state (ndb m)) m)
       \<lparr>commitIndex := max (commitIndex m) (LastIncludedIndex sn),
        lastApplied := max (lastApplied m) (LastIncludedIndex sn)\<rparr>"

lemma installed_node_fields [simp]:
  "ndb (installed_node sn state m) = restore sn state (ndb m)"
  "currentTerm (installed_node sn state m) = currentTerm m" "role (installed_node sn state m) = role m"
  "votedFor (installed_node sn state m) = votedFor m" "leaderID (installed_node sn state m) = leaderID m"
  "node_id (installed_node sn state m) = node_id m" "peers (installed_node sn state m) = peers m"
  "commitIndex (installed_node sn state m) = max (commitIndex m) (LastIncludedIndex sn)"
  "lastApplied (installed_node sn state m) = max (lastApplied m) (LastIncludedIndex sn)"
  "clean (installed_node sn state m) = clean m"
  "nextIndex (installed_node sn state m) = nextIndex m" "matchIndex (installed_node sn state m) = matchIndex m"
  by (simp_all add: installed_node_def)

lemma InstallSnapshot_outcome:
  assumes "log_ok (ndb n)" and "InstallSnapshot req n = (r, n')"
  defines "sn \<equiv> \<lparr>LastIncludedIndex = SnapReq_LastIncludedIndex req,
                 LastIncludedTerm = SnapReq_LastIncludedTerm req, Snapshot_Data = SnapReq_Data req\<rparr>"
    and "t \<equiv> SnapReq_Term req"
  obtains (stale) "t < currentTerm n" and "frame n' n" and "r = Inr \<lparr>SnapResp_Term = currentTerm n\<rparr>"
  | (failed) d m where "currentTerm n \<le> t" and "adopted t n d"
      and "m = stepped_down t (SnapReq_LeaderId req) d n" and "isl r" and "frame n' m"
      and "clean n \<Longrightarrow> isl (snapshot_state sn)"
  | (ignored) d m where "currentTerm n \<le> t" and "adopted t n d"
      and "m = stepped_down t (SnapReq_LeaderId req) d n"
      and "LastIncludedIndex sn \<le> snap_index d" and "frame n' m" and "r = Inr \<lparr>SnapResp_Term = t\<rparr>"
  | (installed) d m state where "currentTerm n \<le> t" and "adopted t n d"
      and "m = stepped_down t (SnapReq_LeaderId req) d n"
      and "snap_index d < LastIncludedIndex sn" and "snapshot_state sn = Inr state"
      and "frame n' (installed_node sn state m)" and "r = Inr \<lparr>SnapResp_Term = t\<rparr>"
proof (cases "t < currentTerm n")
  case True
  then show ?thesis
    using assms(2) by (intro stale) (auto simp: InstallSnapshot_def t_def)
next
  case False
  then have le: "currentTerm n \<le> t" by simp
  obtain d where fs: "frame (follow_sender t (SnapReq_LeaderId req) n) (stepped_down t (SnapReq_LeaderId req) d n)"
    and ad: "adopted t n d"
    unfolding adopted_def by (rule follow_sender_frame [OF log_ok_meta [OF assms(1)] le])
  define m where m_def: "m = stepped_down t (SnapReq_LeaderId req) d n"
  define n1 where "n1 = follow_sender t (SnapReq_LeaderId req) n"
  have f1: "frame n1 m" using fs by (simp add: n1_def m_def)
  have okd: "log_ok d" by (rule adopted_log(1) [OF ad assms(1)])
  have m: "ndb m = d" "currentTerm m = t" "clean m = clean n" using le by (simp_all add: m_def max_def)
  have d1: "ndb n1 = d" using frameD(1) [OF f1] m by simp
  obtain r2 n2 where a: "on_store SnapshotIndexTerm n1 = (r2, n2)" by fastforce
  have "meta_ok (ndb n1)" using log_ok_meta [OF okd] d1 by simp
  note A = on_store_answers [OF SnapshotIndexTerm_answers this a, unfolded d1]
  have f2: "frame n2 m" using A(1) f1 by (rule frame_trans)
  have d2: "ndb n2 = d" "currentTerm n2 = t" using frameD(1,11) [OF f2] m by simp_all
  note run = assms(2) [unfolded InstallSnapshot_def, folded t_def, folded n1_def sn_def]
  have i: "SnapReq_LastIncludedIndex req = LastIncludedIndex sn" by (simp add: sn_def)
  show ?thesis
  proof (cases r2)
    case (Inl e)
    then have "isl r" "frame n' n2" using run False a by auto
    moreover have "\<not> clean n" using A(3) [OF Inl] frame_clean [OF f1] m by auto
    ultimately show ?thesis using f2 by (intro failed [OF le ad m_def]) (auto intro: frame_trans)
  next
    case (Inr s)
    then have s: "s = (snap_index d, snap_term d)" using A(2) by simp
    obtain r3 n3 where b: "on_store (Store_InstallSnapshot sn) n2 = (r3, n3)" by fastforce
    show ?thesis
    proof (cases "LastIncludedIndex sn \<le> snap_index d")
      case True
      then have "r = Inr \<lparr>SnapResp_Term = t\<rparr>" "frame n' n2"
        using run False a Inr s i d2 by (auto simp: Let_def)
      then show ?thesis using True f2 by (intro ignored [OF le ad m_def]) (auto intro: frame_trans)
    next
      case new: False
      note run' = run [simplified False a Inr s i new b Let_def, simplified]
      have n3: "frame n3 m \<and> (clean n \<longrightarrow> isl (snapshot_state sn))" if "isl r3"
      proof (cases "snapshot_state sn")
        case (Inl e)
        then have "n3 = n2" using b Store_InstallSnapshot_undecodable [OF Inl] by (auto simp: on_store_def)
        then show ?thesis using f2 Inl by simp
      next
        case (Inr state)
        note C = on_store_commits(2) [OF Store_InstallSnapshot_commits [OF Inr] b]
        from that obtain e where "r3 = Inl e" by (cases r3) auto
        from C [OF this] show ?thesis using f2 frame_clean [OF f2] m by (auto intro: frame_trans)
      qed
      show ?thesis
      proof (cases r3)
        case (Inl e)
        then have "isl r" "frame n' n3" using run' new b by auto
        then show ?thesis using n3 Inl by (intro failed [OF le ad m_def]) (auto intro: frame_trans)
      next
        case r3: (Inr u)
        then obtain state where st: "snapshot_state sn = Inr state"
          using b Store_InstallSnapshot_undecodable [of sn] by (cases "snapshot_state sn") (auto simp: on_store_def)
        have f3: "frame n3 (with_db (restore sn state d) m)"
          using on_store_commits(1) [OF Store_InstallSnapshot_commits [OF st] b r3] frame_with_db [OF f2]
          by (metis d2(1) frame_trans)
        define n4 where "n4 = n3\<lparr>commitIndex := max (commitIndex n3) (LastIncludedIndex sn),
                                  lastApplied := max (lastApplied n3) (LastIncludedIndex sn)\<rparr>"
        have f4: "frame n4 (installed_node sn state m)"
          using frame_upd(5,6) f3 frameD(14,15) [OF f3] by (simp add: n4_def installed_node_def m frame_upd)
        have "db_ok (ndb n4)" using frameD(1) [OF f4] m db_ok_restore [OF log_okD(1) [OF okd]] by simp
        then have "frame (rpcHandled x y (publishStateLocked n4)) (installed_node sn state m)" for x y
          using f4 by (intro frame_trans [OF rpcHandled_frame] frame_trans [OF publishStateLocked_frame]) auto
        moreover from this have "currentTerm (rpcHandled x y (publishStateLocked n4)) = t" for x y
          using frameD(11) m by (metis installed_node_fields(2))
        ultimately show ?thesis
          using run' r3 new st b by (intro installed [OF le ad m_def _ st]) (auto simp: n4_def)
      qed
    qed
  qed
qed

end
