(* ===== verification/Follower_Props.thy ===== *)
theory Follower_Props imports Follower
begin

text \<open>
  The properties of the follower's handlers: what an acknowledged \<open>AppendEntries\<close> promises to the
  leader, that the merge is the reference merge and is idempotent, that committed entries are not
  lost, and what \<open>InstallSnapshot\<close> restores.
\<close>

text \<open>Requests as a leader builds them: consecutive entries after the previous position.\<close>

definition request_ok :: "AppendEntriesRequest \<Rightarrow> bool" where
  "request_ok req \<longleftrightarrow> follows (AppendReq_PrevLogIndex req) (map toStorageEntry (AppendReq_Entries req))"

definition example_request :: "u64 \<Rightarrow> u64 \<Rightarrow> u64 \<Rightarrow> LogEntry list \<Rightarrow> u64 \<Rightarrow> AppendEntriesRequest" where
  "example_request t p pt es lc =
     \<lparr>AppendReq_Term = t, AppendReq_LeaderId = ''n1'', AppendReq_PrevLogIndex = p, AppendReq_PrevLogTerm = pt,
      AppendReq_Entries = es, AppendReq_LeaderCommit = lc\<rparr>"

definition example_payload :: "u64 \<Rightarrow> u64 \<Rightarrow> LogEntry" where
  "example_payload i t =
     \<lparr>LogEntry_Index = i, LogEntry_Term = t, LogEntry_Command = projr (encode (setCommand ''a'' ''1''))\<rparr>"

section \<open>Lemmas\<close>

lemma commit_followed_result:
  assumes "commit_followed lc m n'" and "log_ok (ndb m)"
  shows "compacts (ndb n') (ndb m)" and "lastApplied m \<le> lastApplied n'"
    and "commitIndex n' = (if lc \<le> commitIndex m then commitIndex m else min lc (last_index (ndb m)))"
    and "node_id n' = node_id m" and "peers n' = peers m" and "role n' = role m"
    and "currentTerm n' = currentTerm m" and "votedFor n' = votedFor m" and "leaderID n' = leaderID m"
    and "matchIndex n' = matchIndex m" and "clean m \<Longrightarrow> clean n'"
proof -
  let ?c = "if lc \<le> commitIndex m then commitIndex m else min lc (last_index (ndb m))"
  have "advanced n' (m\<lparr>commitIndex := ?c\<rparr>) \<and> commitIndex n' = ?c"
    using assms(1) unfolding commit_followed_def
  proof (elim disjE exE conjE, goal_cases)
    case 1
    then show ?case using advanced_frame [OF assms(2)] frameD(14) by auto
  next
    case (2 k)
    have c: "?c = min lc (last_index (ndb m))" using 2(1) leD by auto
    have okk: "log_ok (ndb k)" using frameD(1) [OF 2(2)] assms(2) by simp
    have "advanced k (m\<lparr>commitIndex := ?c\<rparr>)" using 2(2) assms(2) unfolding c by (intro advanced_frame) simp_all
    moreover note applyCommittedLocked_advanced [OF okk]
    moreover have "advanced n' (applyCommittedLocked k)"
      using applyCommittedLocked_advanced [OF okk, THEN advanced_log_ok] 2(3) by (rule advanced_frame)
    ultimately have "advanced n' (m\<lparr>commitIndex := ?c\<rparr>)" by (blast intro: advanced_trans)
    moreover have "commitIndex n' = ?c"
      using frameD(14) [OF 2(3)] applyCommittedLocked_commitIndex [OF okk] frameD(14) [OF 2(2)] c by simp
    ultimately show ?case by simp
  qed
  then have A: "advanced n' (m\<lparr>commitIndex := ?c\<rparr>)" and C: "commitIndex n' = ?c" by simp_all
  show "commitIndex n' = ?c" by (rule C)
  show "compacts (ndb n') (ndb m)" and "lastApplied m \<le> lastApplied n'"
    and "node_id n' = node_id m" and "peers n' = peers m" and "role n' = role m"
    and "currentTerm n' = currentTerm m" and "votedFor n' = votedFor m" and "leaderID n' = leaderID m"
    and "matchIndex n' = matchIndex m" and "clean m \<Longrightarrow> clean n'"
    using advancedD [OF A] by simp_all
qed

lemma commit_followed_node_ok:
  assumes "commit_followed lc m n'" and "node_ok m"
  shows "node_ok n'"
  using assms(1) unfolding commit_followed_def
proof (elim disjE exE conjE, goal_cases)
  case 1
  then show ?case using node_ok_frame [OF assms(2)] by blast
next
  case (2 k)
  have "node_ok (m\<lparr>commitIndex := min lc (last_index (ndb m))\<rparr>)"
    using assms(2) 2(1) by (auto simp: node_ok_def)
  then show ?case using 2 node_ok_frame applyCommittedLocked_node_ok by blast
qed

lemma merge_log_matched:
  "\<forall>e \<in> set es. term_at d (Entry_Index e) = Some (Entry_Term e) \<Longrightarrow> merge_log es d = d"
  by (induction es) auto

lemma example_payload_entry [simp]: "toStorageEntry (example_payload i t) = example_entry i t"
  by (simp add: toStorageEntry_def example_payload_def example_entry_def)

text \<open>A cut or a merge that agrees with the log up to \<open>c\<close> keeps it up to \<open>c\<close>.\<close>

definition agrees_upto :: "u64 \<Rightarrow> Entry list \<Rightarrow> db \<Rightarrow> bool" where
  "agrees_upto c es d \<longleftrightarrow>
     (\<forall>e \<in> set es. Entry_Index e \<le> c \<longrightarrow> term_at d (Entry_Index e) \<in> {None, Some (Entry_Term e)})"

lemma cut_log_ok:
  assumes "log_ok d" and "snap_index d < i" and "i \<le> last_index d"
  shows "log_ok (drop_from i d)" and "last_index (drop_from i d) = i - 1"
    and "c < i \<Longrightarrow> c \<le> last_index (drop_from i d)"
proof -
  have "i \<noteq> 0" using assms(2) by auto
  then have i: "i - 1 + 1 = i" "i - 1 < i" using u64_dec_less [of i] by auto
  have le: "c \<le> i - 1" if "c < i" for c
    using that i(1) u64_less_inc_iff [OF u64_less_not_max [OF i(2)]] by simp
  have "i - 1 < last_index d" using i(2) assms(3) by (rule order.strict_trans2)
  note D = drop_from_log [OF assms(1) le [OF assms(2)] this, unfolded i(1)]
  show "log_ok (drop_from i d)" and "last_index (drop_from i d) = i - 1"
    and "c < i \<Longrightarrow> c \<le> last_index (drop_from i d)"
    using D le by simp_all
qed

lemma cut_keeps:
  assumes "log_ok d" and "cut_log es d d'" and "agrees_upto c es d" and "c \<le> last_index d"
  shows "log_ok d' \<and> c \<le> last_index d' \<and> (\<forall>i \<le> c. entry_at d' i = entry_at d i) \<and> snap_index d' = snap_index d"
proof (cases "d' = d")
  case False
  with assms(2) obtain e where e: "e \<in> set es" "Entry_Index e \<le> last_index d" "snap_index d < Entry_Index e"
      "term_at d (Entry_Index e) \<noteq> Some (Entry_Term e)" and d': "d' = drop_from (Entry_Index e) d"
    by (auto simp: cut_log_def)
  have "term_at d (Entry_Index e) \<noteq> None" using term_at_iff [OF assms(1)] e(2) less_imp_le [OF e(3)] by simp
  then have c: "c < Entry_Index e"
    using bspec [OF assms(3) [unfolded agrees_upto_def] e(1)] e(4) by (auto simp: linorder_not_le [symmetric])
  have em: "Entry_Index e \<le> max_int64" using e(2) log_okD(3) [OF assms(1)] by (rule order_trans)
  have "entry_at d' j = entry_at d j" if "j \<le> c" for j
  proof -
    have "j < Entry_Index e" using that c by (rule order.strict_trans1)
    then show ?thesis
      using entry_at_drop_from [OF em, of j d] d' order_trans [OF less_imp_le em, of j] by (simp add: linorder_not_le [THEN iffD2])
  qed
  then show ?thesis
    using cut_log_ok [OF assms(1) e(3,2)] c d' by (simp add: view_simps)
qed (use assms in simp)

lemma merge_keeps:
  assumes "log_ok d" and "snap_index d \<le> p" and "p \<le> last_index d" and "follows p es"
    and "agrees_upto c es d" and "c \<le> last_index d"
  shows "log_ok (merge_log es d) \<and> c \<le> last_index (merge_log es d)
    \<and> (\<forall>i \<le> c. entry_at (merge_log es d) i = entry_at d i) \<and> snap_index (merge_log es d) = snap_index d"
  using merge_log_cases [OF assms(1-4)]
proof (elim disjE exE conjE, goal_cases)
  case 1
  then show ?case using assms(1,6) by simp
next
  case (2 q xs ys)
  have q: "snap_index d \<le> q" using assms(2) 2(4) by (rule order_trans)
  note R = rewrite_tail [OF assms(1) q 2(5,6,2), folded 2(9)]
  have y: "hd ys \<in> set es" "Entry_Index (hd ys) = q + 1" "q < max_int64"
    using 2(1,2,6) by (cases ys; simp)+
  have qm: "q < q + 1" using u64_less_not_max [OF y(3)] by simp
  have "c \<le> q"
  proof (rule ccontr)
    assume "\<not> c \<le> q"
    then have le: "q + 1 \<le> c" by (simp add: inc_le)
    then have "term_at d (q + 1) \<noteq> None"
      using term_at_iff [OF assms(1), of "q + 1"] qm q assms(6) by (auto intro: order_trans)
    then show False using assms(5) y(1,2) le 2(8) by (auto simp: agrees_upto_def)
  qed
  moreover have "q \<le> end_index q ys" using follows_end [OF 2(6)] y(3) by simp
  ultimately show ?case using R(1,2,4,5) by (auto intro: order_trans)
qed

section \<open>Storing the leader's entries\<close>

text \<open>
  C13: the optimised single pass of \<open>storeLeaderEntriesLocked\<close> (skip what matches, cut at the first
  conflict, append the rest in one transaction) computes the reference merge of the two logs, and
  reports the end of the leader's entries as the match index; running it again changes nothing.
\<close>

theorem store_leader_entries_is_merge:
  assumes "log_ok (ndb n)" and "clean n" and "snap_index (ndb n) \<le> p" and "p \<le> last_index (ndb n)"
    and "follows p (map toStorageEntry es)"
  shows "\<exists>n'. storeLeaderEntriesLocked es p (snap_index (ndb n)) n = (Inr (end_index p (map toStorageEntry es)), n')
    \<and> ndb n' = merge_log (map toStorageEntry es) (ndb n)
    \<and> merge_log (map toStorageEntry es) (ndb n') = ndb n'"
proof -
  let ?E = "map toStorageEntry es"
  obtain r n' where run: "storeLeaderEntriesLocked es p (snap_index (ndb n)) n = (r, n')" by fastforce
  note S = storeLeaderEntriesLocked_merges [OF assms(1) refl assms(3-5) run]
  from S(2) assms(2) obtain m where r: "r = Inr m" by (cases r) auto
  have d: "ndb n' = merge_log ?E (ndb n)" using frameD(1) [OF conjunct2 [OF S(1) [OF r]]] by simp
  moreover have "merge_log ?E (merge_log ?E (ndb n)) = merge_log ?E (ndb n)"
    using merge_log_spec(3) [OF assms(1,3-5)] by (intro merge_log_matched) blast
  ultimately show ?thesis using run S(1) [OF r] r by simp
qed

theorem store_leader_entries_is_merge_witness:
  "\<exists>n'. storeLeaderEntriesLocked [example_payload 2 3] 1 0 (example_node ''n2'' [''n1''] 1 (example_log [1, 2]))
      = (Inr 2, n') \<and> term_at (ndb n') 2 = Some 3"
proof -
  let ?n = "example_node ''n2'' [''n1''] 1 (example_log [1, 2])"
  have f: "follows 1 (map toStorageEntry [example_payload 2 3])"
    by (simp add: example_entry_def max_int64_def)
  have ok: "log_ok (ndb ?n)" "clean ?n" "snap_index (ndb ?n) \<le> 1" "1 \<le> last_index (ndb ?n)"
    by simp_all
  have "term_at (merge_log (map toStorageEntry [example_payload 2 3]) (ndb ?n)) 2 = Some 3"
    using merge_log_spec(3) [OF ok(1,3,4) f, of "example_entry 2 3"] by (simp add: example_entry_def)
  then show ?thesis
    using store_leader_entries_is_merge [OF ok f] by (auto simp: example_entry_def)
qed

section \<open>Acknowledged entries\<close>

lemma append_accepts:
  assumes "log_ok (ndb n)" and "clean n" and "request_ok req" and "currentTerm n \<le> AppendReq_Term req"
    and "snap_index (ndb n) \<le> AppendReq_PrevLogIndex req"
    and "term_at (ndb n) (AppendReq_PrevLogIndex req) = Some (AppendReq_PrevLogTerm req)"
  obtains resp n' where "AppendEntries req n = (Inr resp, n')" and "AppendResp_Success resp"
proof -
  obtain r n' where run: "AppendEntries req n = (r, n')" by fastforce
  show ?thesis
  proof (cases rule: AppendEntries_outcome [OF assms(1) run assms(3) [unfolded request_ok_def]])
    case 1
    then show ?thesis using assms(4) by (simp add: linorder_not_le [symmetric])
  next
    case (3 d m)
    then show ?thesis using adopted_log(4,7) [OF 3(2) assms(1)] assms(5,6) by simp
  next
    case (4 d m)
    then show ?thesis using that run by simp
  qed (use assms(2) in simp)
qed

lemma example_request_fields [simp]:
  "AppendReq_Term (example_request t p pt es lc) = t" "AppendReq_LeaderId (example_request t p pt es lc) = ''n1''"
  "AppendReq_PrevLogIndex (example_request t p pt es lc) = p" "AppendReq_PrevLogTerm (example_request t p pt es lc) = pt"
  "AppendReq_Entries (example_request t p pt es lc) = es" "AppendReq_LeaderCommit (example_request t p pt es lc) = lc"
  by (simp_all add: example_request_def)

lemma request_ok_example: "request_ok (example_request 3 1 1 [example_payload 2 3] 2)"
  by (simp add: request_ok_def example_entry_def max_int64_def)

text \<open>
  C11: an \<open>AppendEntries\<close> answered with success was sent in the answered term, the node follows its
  sender, the log agrees with the leader's entries up to the reported match index (every entry not
  yet compacted has the leader's term), earlier entries are untouched, and the commit index is the
  leader's, capped by the end of the log.
\<close>

theorem append_success:
  assumes "log_ok (ndb n)" and "request_ok req" and "AppendEntries req n = (Inr resp, n')"
    and "AppendResp_Success resp"
  shows "currentTerm n \<le> AppendReq_Term req \<and> currentTerm n' = AppendReq_Term req
    \<and> AppendResp_Term resp = AppendReq_Term req \<and> role n' = RoleFollower \<and> leaderID n' = AppendReq_LeaderId req
    \<and> AppendResp_MatchIndex resp = end_index (AppendReq_PrevLogIndex req) (map toStorageEntry (AppendReq_Entries req))
    \<and> AppendResp_MatchIndex resp \<le> last_index (ndb n')
    \<and> term_at (ndb n) (AppendReq_PrevLogIndex req) = Some (AppendReq_PrevLogTerm req)
    \<and> (\<forall>e \<in> set (AppendReq_Entries req). snap_index (ndb n') \<le> LogEntry_Index e \<longrightarrow>
         term_at (ndb n') (LogEntry_Index e) = Some (LogEntry_Term e))
    \<and> (\<forall>i. snap_index (ndb n') \<le> i \<and> i \<le> AppendReq_PrevLogIndex req \<longrightarrow>
         term_at (ndb n') i = term_at (ndb n) i)
    \<and> commitIndex n' = (if AppendReq_LeaderCommit req \<le> commitIndex n then commitIndex n
                       else min (AppendReq_LeaderCommit req) (last_index (ndb n')))"
proof (cases rule: AppendEntries_outcome [OF assms(1,3) assms(2) [unfolded request_ok_def]])
  case (4 d m)
  note accepted = 4
  let ?E = "map toStorageEntry (AppendReq_Entries req)" and ?p = "AppendReq_PrevLogIndex req"
  note L = adopted_log [OF accepted(2) assms(1)]
  have p: "?p \<le> last_index d"
    using term_at_iff [OF L(1), of ?p] accepted(4,5) log_okD(2) [OF L(1)] by auto
  note M = merge_log_spec [OF L(1) accepted(4) p assms(2) [unfolded request_ok_def]]
  have ok: "log_ok (ndb (with_db (merge_log ?E d) m))" using M(1) by simp
  note C = commit_followed_result [OF accepted(6) ok]
  note K = compactsD [OF C(1)]
  have E: "term_at (merge_log ?E d) (LogEntry_Index e) = Some (LogEntry_Term e)"
    if "e \<in> set (AppendReq_Entries req)" for e
    using M(3) [of "toStorageEntry e"] that by simp
  show ?thesis
    using accepted(1,3,5,7) C K(3,7) M(2,6) L(4) E
    by (auto simp: max_def)
qed (use assms(4) in \<open>auto\<close>)

theorem append_success_witness:
  "\<exists>resp n'. AppendEntries (example_request 3 1 1 [example_payload 2 3] 2)
       (example_node ''n2'' [''n1''] 1 (example_log [1, 2])) = (Inr resp, n')
     \<and> AppendResp_Success resp \<and> AppendResp_MatchIndex resp = 2 \<and> currentTerm n' = 3"
proof -
  let ?n = "example_node ''n2'' [''n1''] 1 (example_log [1, 2])" and ?r = "example_request 3 1 1 [example_payload 2 3] 2"
  have t: "term_at (ndb ?n) 1 = Some 1"
    using term_at_entry [of "example_log [1, 2]" 1] by (simp add: example_entry_def)
  obtain resp n' where run: "AppendEntries ?r ?n = (Inr resp, n')" and s: "AppendResp_Success resp"
    by (rule append_accepts [of ?n ?r]) (use t request_ok_example in auto)
  have "AppendResp_MatchIndex resp = 2 \<and> currentTerm n' = 3"
    using append_success [OF _ request_ok_example run s] by (simp add: example_entry_def)
  then show ?thesis using run s by blast
qed

text \<open>
  C12: with requests that agree with the node up to its commit index, as those of a leader that has
  every committed entry do, no outcome of the handler loses a committed entry or moves an index
  back, and the node's invariant holds afterwards.
\<close>

theorem append_keeps_committed:
  assumes "node_ok n" and "request_ok req" and "AppendEntries req n = (r, n')"
    and "\<forall>e \<in> set (AppendReq_Entries req). LogEntry_Index e \<le> commitIndex n \<longrightarrow>
           term_at (ndb n) (LogEntry_Index e) \<in> {None, Some (LogEntry_Term e)}"
  shows "node_ok n' \<and> commitIndex n \<le> commitIndex n' \<and> lastApplied n \<le> lastApplied n'
    \<and> (\<forall>i. snap_index (ndb n') < i \<and> i \<le> commitIndex n \<longrightarrow> entry_at (ndb n') i = entry_at (ndb n) i)"
proof -
  let ?E = "map toStorageEntry (AppendReq_Entries req)" and ?p = "AppendReq_PrevLogIndex req" and ?c = "commitIndex n"
  note ok = node_okD [OF assms(1)]
  have keep: ?thesis
    if "frame n' (with_db d2 (stepped_down t l d n))" "log_ok d2" "?c \<le> last_index d2"
      "\<forall>i \<le> ?c. entry_at d2 i = entry_at (ndb n) i" "snap_index d2 = snap_index (ndb n)" for d d2 t l
    using frameD(1,14,15) [OF that(1)] that(2-5) assms(1) by (auto simp: node_ok_def)
  have agree: "agrees_upto ?c ?E d" if "adopted t n d" for t d
    using assms(4) adopted_log(4) [OF that ok(1)] by (auto simp: agrees_upto_def)
  have pos: "?p \<le> last_index d" if "log_ok d" "snap_index d \<le> ?p" "term_at d ?p = Some x" for d x
    using that term_at_iff [OF that(1), of ?p] log_okD(2) [OF that(1)] by auto
  note wf = assms(2) [unfolded request_ok_def]
  show ?thesis
  proof (cases rule: AppendEntries_outcome [OF ok(1) assms(3) wf])
    case 1
    then show ?thesis
      using frameD(1,14,15) [of n' n] assms(1) node_ok_frame by auto
  next
    case (2 d m d2)
    note L = adopted_log [OF 2(2) ok(1)]
    have "log_ok d2 \<and> ?c \<le> last_index d2 \<and> (\<forall>i \<le> ?c. entry_at d2 i = entry_at d i) \<and> snap_index d2 = snap_index d"
    proof (cases "d2 = d")
      case True
      then show ?thesis using L ok(3) by simp
    next
      case False
      from 2(8) [OF False] have p: "snap_index d \<le> ?p" "?p \<le> last_index d" using pos [OF L(1)] by auto
      show ?thesis
        using 2(7) cut_keeps [OF L(1) _ agree [OF 2(2)]] merge_keeps [OF L(1) p wf agree [OF 2(2)]] L(3) ok(3) by auto
    qed
    then show ?thesis using keep [of d2 "AppendReq_Term req" "AppendReq_LeaderId req" d] 2(3,6) L(5,7) by auto
  next
    case (3 d m)
    note L = adopted_log [OF 3(2) ok(1)]
    have "frame n' (with_db d (stepped_down (AppendReq_Term req) (AppendReq_LeaderId req) d n))"
      using 3(3,4) by (simp add: stepped_down_def)
    then show ?thesis using L(1,3,5,7) ok(3) by (intro keep [of d "AppendReq_Term req" "AppendReq_LeaderId req" d]) simp_all
  next
    case (4 d m)
    note L = adopted_log [OF 4(2) ok(1)]
    have K: "log_ok (merge_log ?E d) \<and> ?c \<le> last_index (merge_log ?E d)
        \<and> (\<forall>i \<le> ?c. entry_at (merge_log ?E d) i = entry_at d i) \<and> snap_index (merge_log ?E d) = snap_index d"
      by (rule merge_keeps [OF L(1) 4(4) pos [OF L(1) 4(4,5)] wf agree [OF 4(2)]]) (simp add: L(3) ok(3))
    let ?m = "with_db (merge_log ?E d) m"
    have "node_ok ?m" using K assms(1) L(7) by (auto simp: node_ok_def 4(3))
    then have nok: "node_ok n'" by (rule commit_followed_node_ok [OF 4(6)])
    have "log_ok (ndb ?m)" using K by simp
    note C = commit_followed_result [OF 4(6) this]
    have "?c \<le> commitIndex n'" using C(3) K by (auto simp: 4(3))
    then show ?thesis
      using nok C(2) compactsD(8) [OF C(1)] K L(5) by (auto simp: 4(3))
  qed
qed

theorem append_keeps_committed_witness:
  "\<exists>r n'. AppendEntries (example_request 3 1 1 [example_payload 2 3] 2)
       ((example_node ''n2'' [''n1''] 1 (example_log [1, 2]))\<lparr>commitIndex := 1\<rparr>) = (r, n')
     \<and> node_ok n' \<and> 1 \<le> commitIndex n'"
proof -
  let ?n = "(example_node ''n2'' [''n1''] 1 (example_log [1, 2]))\<lparr>commitIndex := 1\<rparr>"
    and ?r = "example_request 3 1 1 [example_payload 2 3] 2"
  obtain r n' where run: "AppendEntries ?r ?n = (r, n')" by fastforce
  have "node_ok ?n" by (simp add: node_ok_def)
  from append_keeps_committed [OF this request_ok_example run]
  have "node_ok n' \<and> 1 \<le> commitIndex n'" by (simp add: example_payload_def word_le_nat_alt)
  then show ?thesis using run by blast
qed

section \<open>Installed snapshots\<close>

definition request_snapshot :: "InstallSnapshotRequest \<Rightarrow> Snapshot" where
  "request_snapshot req =
     \<lparr>LastIncludedIndex = SnapReq_LastIncludedIndex req, LastIncludedTerm = SnapReq_LastIncludedTerm req,
      Snapshot_Data = SnapReq_Data req\<rparr>"

lemma request_snapshot_fields [simp]:
  "LastIncludedIndex (request_snapshot req) = SnapReq_LastIncludedIndex req"
  "LastIncludedTerm (request_snapshot req) = SnapReq_LastIncludedTerm req"
  "Snapshot_Data (request_snapshot req) = SnapReq_Data req"
  by (simp_all add: request_snapshot_def)

lemma snapshot_state_ok: "snapshot_state sn = Inr state \<Longrightarrow> table_ok state"
  by (auto simp: snapshot_state_def json_unmarshal_map_ok split: if_splits)

lemma entry_at_restore:
  assumes "LastIncludedIndex sn < i" and "i \<le> max_int64"
  shows "entry_at (restore sn state d) i = entry_at d i"
  using assms order_trans [OF less_imp_le assms(2), of "LastIncludedIndex sn"]
  by (simp add: entry_at_def view_simps lookup_delete_where linorder_not_le [THEN iffD2])

lemma InstallSnapshot_new:
  assumes "log_ok (ndb n)" and "SnapReq_LastIncludedIndex req \<le> max_int64"
    and "snap_index (ndb n) < SnapReq_LastIncludedIndex req" and "currentTerm n \<le> SnapReq_Term req"
    and "InstallSnapshot req n = (Inr resp, n')"
  obtains d state where "snapshot_state (request_snapshot req) = Inr state" and "adopted (SnapReq_Term req) n d"
    and "frame n' (installed_node (request_snapshot req) state
                    (stepped_down (SnapReq_Term req) (SnapReq_LeaderId req) d n))"
    and "resp = \<lparr>SnapResp_Term = SnapReq_Term req\<rparr>"
proof (cases rule: InstallSnapshot_outcome [OF assms(1,5), folded request_snapshot_def])
  case 1
  then show ?thesis using assms(4) by (simp add: linorder_not_le [symmetric])
next
  case (3 d m)
  then show ?thesis using adopted_log(7) [OF 3(2) assms(1)] assms(3) by (simp add: linorder_not_le [symmetric])
next
  case (4 d m state)
  then show ?thesis using that [of state d] by simp
qed simp

text \<open>
  C14: a newer snapshot that \<open>InstallSnapshot\<close> accepts, at or beyond what the node has applied, becomes
  the node's state machine; the log keeps the entries behind it, the applied index in memory and on
  disk is the snapshot's, and the node's invariant holds.
\<close>

theorem install_snapshot_installs:
  assumes "node_ok n" and "SnapReq_LastIncludedIndex req \<le> max_int64"
    and "snap_index (ndb n) < SnapReq_LastIncludedIndex req" and "lastApplied n \<le> SnapReq_LastIncludedIndex req"
    and "currentTerm n \<le> SnapReq_Term req" and "InstallSnapshot req n = (Inr resp, n')"
  shows "\<exists>state. snapshot_state (request_snapshot req) = Inr state \<and> kv_get (ndb n') = lookup state
    \<and> node_ok n' \<and> lastApplied n' = SnapReq_LastIncludedIndex req
    \<and> meta_u64 (ndb n') ''last_applied'' = SnapReq_LastIncludedIndex req
    \<and> snap_index (ndb n') = SnapReq_LastIncludedIndex req \<and> snap_term (ndb n') = SnapReq_LastIncludedTerm req
    \<and> commitIndex n' = max (commitIndex n) (SnapReq_LastIncludedIndex req)
    \<and> last_index (ndb n') = max (last_index (ndb n)) (SnapReq_LastIncludedIndex req)
    \<and> (\<forall>i. SnapReq_LastIncludedIndex req < i \<and> i \<le> max_int64 \<longrightarrow> entry_at (ndb n') i = entry_at (ndb n) i)
    \<and> currentTerm n' = SnapReq_Term req \<and> SnapResp_Term resp = SnapReq_Term req
    \<and> role n' = RoleFollower \<and> leaderID n' = SnapReq_LeaderId req"
proof -
  let ?sn = "request_snapshot req" and ?s = "SnapReq_LastIncludedIndex req"
  note ok = node_okD [OF assms(1)]
  obtain d state where st: "snapshot_state ?sn = Inr state" and ad: "adopted (SnapReq_Term req) n d"
    and f: "frame n' (installed_node ?sn state (stepped_down (SnapReq_Term req) (SnapReq_LeaderId req) d n))"
    and r: "resp = \<lparr>SnapResp_Term = SnapReq_Term req\<rparr>"
    by (rule InstallSnapshot_new [OF ok(1) assms(2,3,5,6)])
  note L = adopted_log [OF ad ok(1)]
  have s: "snap_index d \<le> ?s" "?s \<noteq> 0" using L(7) assms(3) by auto
  note R = restore_log [of d ?sn state, simplified, OF L(1) s(1) assms(2) s(2)]
  have d': "ndb n' = restore ?sn state d" using frameD(1) [OF f] by simp
  have kv: "kv_get (ndb n') = lookup state"
    using kv_get_restore [OF log_okD(1) [OF L(1)] snapshot_state_ok [OF st]] by (simp add: d' fun_eq_iff)
  have la: "lastApplied n' = ?s" "commitIndex n' = max (commitIndex n) ?s"
    using frameD(14,15) [OF f] assms(4) by (simp_all add: max_def)
  have "node_ok n'"
    using R ok(3) L(3) by (simp add: node_ok_def d' la view_simps le_max_iff_disj) auto
  then show ?thesis
    using st kv la R L(3,5) frameD(10,11,13) [OF f] r assms(5)
    by (auto simp: d' view_simps entry_at_restore max_def)
qed

definition example_snapshot :: "u64 \<Rightarrow> u64 \<Rightarrow> u64 \<Rightarrow> InstallSnapshotRequest" where
  "example_snapshot t s st =
     \<lparr>SnapReq_Term = t, SnapReq_LeaderId = ''n1'', SnapReq_LastIncludedIndex = s, SnapReq_LastIncludedTerm = st,
      SnapReq_Data = ''{}''\<rparr>"

lemma example_snapshot_state: "snapshot_state (request_snapshot (example_snapshot t i u)) = Inr []"
  using json_map_roundtrip [of "[]"]
  by (simp add: snapshot_state_def example_snapshot_def json_marshal_map_def json_object_def utf8_map_def)

lemma InstallSnapshot_accepts:
  assumes "log_ok (ndb n)" and "clean n" and "snapshot_state (request_snapshot req) = Inr state"
  obtains resp n' where "InstallSnapshot req n = (Inr resp, n')"
proof -
  obtain r n' where run: "InstallSnapshot req n = (r, n')" by fastforce
  have "\<not> isl r"
    by (rule InstallSnapshot_outcome [OF assms(1) run, folded request_snapshot_def]) (use assms(2,3) in auto)
  then show ?thesis using that run by (cases r) auto
qed

theorem install_snapshot_installs_witness:
  "\<exists>resp n'. InstallSnapshot (example_snapshot 3 2 2) (example_node ''n2'' [''n1''] 1 (example_log [1, 2, 2]))
       = (Inr resp, n')
     \<and> lastApplied n' = 2 \<and> last_index (ndb n') = 3 \<and> kv_get (ndb n') ''a'' = None"
proof -
  let ?n = "example_node ''n2'' [''n1''] 1 (example_log [1, 2, 2])" and ?r = "example_snapshot 3 2 2"
  note st = example_snapshot_state
  obtain resp n' where run: "InstallSnapshot ?r ?n = (Inr resp, n')"
    by (rule InstallSnapshot_accepts [OF _ _ st, of ?n]) simp_all
  have "node_ok ?n" by (simp add: node_ok_def)
  from install_snapshot_installs [OF this _ _ _ _ run] show ?thesis
    using run st [of 3 2 2] by (auto simp: example_snapshot_def max_int64_def word_le_nat_alt max_def)
qed

text \<open>
  C15: the guard compares the snapshot with the last one the node holds, not with what the node has
  applied: a delayed snapshot between the two replaces the state machine by the older one and sets
  the applied index on disk back, while the applied index in memory stays, so that the entries in
  between are not applied again.
\<close>

theorem install_snapshot_rolls_back:
  assumes "node_ok n" and "clean n" and "snap_index (ndb n) < SnapReq_LastIncludedIndex req"
    and "SnapReq_LastIncludedIndex req < lastApplied n" and "currentTerm n \<le> SnapReq_Term req"
    and "snapshot_state (request_snapshot req) = Inr state"
  shows "\<exists>resp n'. InstallSnapshot req n = (Inr resp, n') \<and> kv_get (ndb n') = lookup state
    \<and> lastApplied n' = lastApplied n \<and> commitIndex n' = commitIndex n
    \<and> meta_u64 (ndb n') ''last_applied'' < lastApplied n'"
proof -
  let ?sn = "request_snapshot req" and ?s = "SnapReq_LastIncludedIndex req"
  note ok = node_okD [OF assms(1)]
  have "lastApplied n \<le> max_int64" using ok(2,3) log_okD(3) [OF ok(1)] by (blast intro: order_trans)
  then have s: "?s \<le> max_int64" using assms(4) by (auto intro: order_trans [OF less_imp_le])
  obtain resp n' where run: "InstallSnapshot req n = (Inr resp, n')"
    by (rule InstallSnapshot_accepts [OF ok(1) assms(2,6)])
  obtain d where ad: "adopted (SnapReq_Term req) n d"
    and f: "frame n' (installed_node ?sn state (stepped_down (SnapReq_Term req) (SnapReq_LeaderId req) d n))"
    by (rule InstallSnapshot_new [OF ok(1) s assms(3,5) run]) (use assms(6) in auto)
  have d': "ndb n' = restore ?sn state d" using frameD(1) [OF f] by simp
  have "kv_get (ndb n') = lookup state"
    using kv_get_restore [OF log_okD(1) [OF adopted_log(1) [OF ad ok(1)]] snapshot_state_ok [OF assms(6)]]
    by (simp add: d' fun_eq_iff)
  moreover have "?s \<le> lastApplied n" "?s \<le> commitIndex n" using assms(4) ok(2) by auto
  then have "lastApplied n' = lastApplied n" "commitIndex n' = commitIndex n"
    using frameD(14,15) [OF f] by (simp_all add: max_def)
  moreover have "meta_u64 (ndb n') ''last_applied'' = ?s" by (simp add: d' view_simps)
  ultimately show ?thesis using run assms(4) by simp
qed

theorem install_snapshot_rolls_back_witness:
  "\<exists>resp n'. InstallSnapshot (example_snapshot 1 1 1)
       ((example_node ''n2'' [''n1''] 1 (apply_set 2 ''a'' ''1'' (example_log [1, 1])))\<lparr>commitIndex := 2, lastApplied := 2\<rparr>)
       = (Inr resp, n')
     \<and> kv_get (ndb n') ''a'' = None \<and> lastApplied n' = 2"
proof -
  let ?d = "apply_set 2 ''a'' ''1'' (example_log [1, 1])"
  let ?n = "(example_node ''n2'' [''n1''] 1 ?d)\<lparr>commitIndex := 2, lastApplied := 2\<rparr>" and ?r = "example_snapshot 1 1 1"
  have "log_ok ?d" "last_index ?d = 2" "snap_index ?d = 0" 
    by (simp_all add: view_simps log_ok_effects)
  then have ok: "node_ok ?n" by (simp add: node_ok_def)
  note st = example_snapshot_state [of 1 1 1]
  show ?thesis
    using install_snapshot_rolls_back [OF ok _ _ _ _ st] \<open>snap_index ?d = 0\<close>
    by (auto simp: example_snapshot_def word_less_nat_alt)
qed

section \<open>Where the handlers fall short\<close>

lemma append_accepted:
  assumes "log_ok (ndb n)" and "clean n" and "request_ok req" and "currentTerm n \<le> AppendReq_Term req"
    and "snap_index (ndb n) \<le> AppendReq_PrevLogIndex req"
    and "term_at (ndb n) (AppendReq_PrevLogIndex req) = Some (AppendReq_PrevLogTerm req)"
  obtains resp n' d where "AppendEntries req n = (Inr resp, n')" and "AppendResp_Success resp"
    and "AppendResp_MatchIndex resp = end_index (AppendReq_PrevLogIndex req) (map toStorageEntry (AppendReq_Entries req))"
    and "adopted (AppendReq_Term req) n d"
    and "commit_followed (AppendReq_LeaderCommit req)
           (with_db (merge_log (map toStorageEntry (AppendReq_Entries req)) d)
             (stepped_down (AppendReq_Term req) (AppendReq_LeaderId req) d n)) n'"
proof -
  obtain resp n' where run: "AppendEntries req n = (Inr resp, n')" and s: "AppendResp_Success resp"
    by (rule append_accepts [OF assms])
  show ?thesis
    by (rule AppendEntries_outcome [OF assms(1) run assms(3) [unfolded request_ok_def]])
       (use that [OF run s] s in auto)
qed

text \<open>
  C16: the commit index follows the leader's up to the end of the follower's whole log, not up to the
  last entry the request vouches for: when the request stops short of an older tail, the tail is
  committed although nothing has compared it with the leader's log.
\<close>

theorem append_commits_unchecked_tail:
  assumes "log_ok (ndb n)" and "clean n" and "request_ok req" and "currentTerm n \<le> AppendReq_Term req"
    and "snap_index (ndb n) \<le> AppendReq_PrevLogIndex req"
    and "term_at (ndb n) (AppendReq_PrevLogIndex req) = Some (AppendReq_PrevLogTerm req)"
    and "\<forall>e \<in> set (AppendReq_Entries req). term_at (ndb n) (LogEntry_Index e) = Some (LogEntry_Term e)"
    and "commitIndex n < AppendReq_LeaderCommit req" and "AppendReq_LeaderCommit req \<le> last_index (ndb n)"
    and "end_index (AppendReq_PrevLogIndex req) (map toStorageEntry (AppendReq_Entries req)) < AppendReq_LeaderCommit req"
  shows "\<exists>resp n'. AppendEntries req n = (Inr resp, n') \<and> AppendResp_Success resp
    \<and> AppendResp_MatchIndex resp < commitIndex n' \<and> commitIndex n' = AppendReq_LeaderCommit req"
proof -
  let ?E = "map toStorageEntry (AppendReq_Entries req)"
  obtain resp n' d where run: "AppendEntries req n = (Inr resp, n')" and s: "AppendResp_Success resp"
    and mi: "AppendResp_MatchIndex resp = end_index (AppendReq_PrevLogIndex req) ?E"
    and ad: "adopted (AppendReq_Term req) n d"
    and cf: "commit_followed (AppendReq_LeaderCommit req)
           (with_db (merge_log ?E d) (stepped_down (AppendReq_Term req) (AppendReq_LeaderId req) d n)) n'"
    by (rule append_accepted [OF assms(1-6)])
  note L = adopted_log [OF ad assms(1)]
  have "merge_log ?E d = d" using assms(7) L(4) by (intro merge_log_matched) auto
  then have "commitIndex n' = AppendReq_LeaderCommit req"
    using commit_followed_result(3) [OF cf] L(1,3) assms(8,9) by (simp add: linorder_not_le [THEN iffD2] min_def)
  then show ?thesis using run s mi assms(10) by simp
qed

theorem append_commits_unchecked_tail_witness:
  "\<exists>resp n'. AppendEntries (example_request 3 1 1 [example_payload 2 1] 3)
       (example_node ''n2'' [''n1''] 1 (example_log [1, 1, 2])) = (Inr resp, n')
     \<and> AppendResp_Success resp \<and> AppendResp_MatchIndex resp < commitIndex n' \<and> commitIndex n' = 3"
proof -
  let ?n = "example_node ''n2'' [''n1''] 1 (example_log [1, 1, 2])" and ?r = "example_request 3 1 1 [example_payload 2 1] 3"
  have t: "term_at (ndb ?n) 1 = Some 1" "term_at (ndb ?n) 2 = Some 1"
    using term_at_entry [of "example_log [1, 1, 2]" 1] term_at_entry [of "example_log [1, 1, 2]" 2]
    by (simp_all add: example_entry_def)
  have "request_ok ?r" by (simp add: request_ok_def example_entry_def max_int64_def)
  from append_commits_unchecked_tail [OF _ _ this] show ?thesis
    using t by (simp add: example_payload_def example_entry_def word_less_nat_alt toStorageEntry_def)
qed

text \<open>The sender is followed although the statement that saves its term fails.\<close>

definition unsaved :: "u64 \<Rightarrow> string \<Rightarrow> Node \<Rightarrow> Node" where
  "unsaved t l n =
     n\<lparr>store := (store n)\<lparr>faults := []\<rparr>, currentTerm := t, votedFor := [], role := RoleFollower, leaderID := l\<rparr>"

lemma follow_sender_unsaved:
  assumes "faults (store n) = [Some e]" and "currentTerm n < t" and "meta_ok (ndb n)"
  shows "frame (follow_sender t l n) (unsaved t l n)"
proof -
  define m where m_def: "m = unsaved t l n"
  let ?n1 = "n\<lparr>store := (store n)\<lparr>faults := []\<rparr>, currentTerm := t, votedFor := []\<rparr>"
  let ?n2 = "if role ?n1 = RoleLeader then on_metrics ClearReplicationLag ?n1 else ?n1"
  have save: "snd (on_store (SaveTermVote t []) (n\<lparr>currentTerm := t, votedFor := []\<rparr>)) = ?n1"
    using assms(1) by (simp add: on_store_def SaveTermVote_def inTx_def sql_def)
  have "frame ?n2 ?n1" by simp
  then have f: "frame (?n2\<lparr>role := RoleFollower, leaderID := l\<rparr>) m"
    using frame_upd(1,4) by (simp add: m_def unsaved_def)
  have eq: "follow_sender t l n = resetElectionDeadlineLocked
      ((publishStateLocked (resetElectionDeadlineLocked (?n2\<lparr>role := RoleFollower, leaderID := l\<rparr>)))\<lparr>leaderID := l\<rparr>)"
    using assms(2) save by (simp add: follow_sender_def stepDownLocked_def Let_def)
  let ?k = "resetElectionDeadlineLocked (?n2\<lparr>role := RoleFollower, leaderID := l\<rparr>)"
  have k: "frame ?k m" using f by (rule frame_trans [OF resetElectionDeadlineLocked_frame])
  have "meta_ok (ndb ?k)" using frameD(1) [OF k] assms(3) by (simp add: m_def unsaved_def)
  then have "frame (publishStateLocked ?k) m" using k by (intro frame_trans [OF publishStateLocked_frame])
  then have "frame ((publishStateLocked ?k)\<lparr>leaderID := l\<rparr>) (m\<lparr>leaderID := l\<rparr>)" by (rule frame_upd(4))
  moreover have "m\<lparr>leaderID := l\<rparr> = m" by (simp add: m_def unsaved_def)
  ultimately show ?thesis
    unfolding eq m_def [symmetric] by (intro frame_trans [OF resetElectionDeadlineLocked_frame]) simp
qed

text \<open>
  C17: \<open>stepDownLocked\<close> logs a failure to save the new term and goes on, and \<open>AppendEntries\<close> then
  acknowledges the leader's entries in a term that is not on disk: after a restart the node is back
  in the older term, open to the leaders and candidates it has promised to refuse.
\<close>

theorem append_acknowledges_unsaved_term:
  assumes "log_ok (ndb n)" and "faults (store n) = [Some e]" and "request_ok req"
    and "currentTerm n < AppendReq_Term req"
    and "snap_index (ndb n) \<le> AppendReq_PrevLogIndex req"
    and "term_at (ndb n) (AppendReq_PrevLogIndex req) = Some (AppendReq_PrevLogTerm req)"
  shows "\<exists>resp n'. AppendEntries req n = (Inr resp, n') \<and> AppendResp_Success resp
    \<and> AppendResp_Term resp = AppendReq_Term req
    \<and> meta_u64 (ndb n') ''current_term'' = meta_u64 (ndb n) ''current_term''"
proof -
  let ?E = "map toStorageEntry (AppendReq_Entries req)" and ?p = "AppendReq_PrevLogIndex req"
  define m where m_def: "m = follow_sender (AppendReq_Term req) (AppendReq_LeaderId req) n"
  obtain r n' where run: "check_entries req m = (r, n')" by fastforce
  have f: "frame m (unsaved (AppendReq_Term req) (AppendReq_LeaderId req) n)"
    unfolding m_def by (rule follow_sender_unsaved [OF assms(2,4) log_ok_meta [OF assms(1)]])
  have m: "ndb m = ndb n" "currentTerm m = AppendReq_Term req" "clean m"
    using frameD(1,11) [OF f] frame_clean [OF f] by (simp_all add: unsaved_def)
  have ok: "log_ok (ndb m)" using assms(1) m by simp
  have pl: "?p \<le> last_index (ndb n)"
    using term_at_iff [OF assms(1), of ?p] assms(5,6) log_okD(2) [OF assms(1)] by auto
  note M = merge_log_spec [OF assms(1,5) pl assms(3) [unfolded request_ok_def]]
  have r: "r = Inr \<lparr>AppendResp_Term = AppendReq_Term req, AppendResp_Success = True, AppendResp_MatchIndex = end_index ?p ?E\<rparr>"
    and cf: "commit_followed (AppendReq_LeaderCommit req) (with_db (merge_log ?E (ndb n)) m) n'"
    using check_entries_outcome [OF ok run assms(3) [unfolded request_ok_def]] assms(5,6) m by auto
  have "compacts (ndb n') (merge_log ?E (ndb n))" using commit_followed_result(1) [OF cf] M(1) by simp
  from compactsD(5) [OF this] have "meta_u64 (ndb n') ''current_term'' = meta_u64 (ndb n) ''current_term''"
    by (simp add: view_simps)
  moreover have "AppendEntries req n = (r, n')"
    using run assms(4) by (simp add: AppendEntries_def m_def leD)
  ultimately show ?thesis using r by simp
qed

theorem append_acknowledges_unsaved_term_witness:
  "\<exists>resp n'. AppendEntries (example_request 3 1 1 [example_payload 2 3] 2)
       ((example_node ''n2'' [''n1''] 0 (example_log [1, 2]))\<lparr>store := \<lparr>db = example_log [1, 2], faults = [Some ''io'']\<rparr>\<rparr>)
       = (Inr resp, n')
     \<and> AppendResp_Success resp \<and> AppendResp_Term resp = 3 \<and> meta_u64 (ndb n') ''current_term'' = 0"
proof -
  let ?n = "(example_node ''n2'' [''n1''] 0 (example_log [1, 2]))\<lparr>store := \<lparr>db = example_log [1, 2], faults = [Some ''io'']\<rparr>\<rparr>"
  have t: "term_at (ndb ?n) 1 = Some 1"
    using term_at_entry [of "example_log [1, 2]" 1] by (simp add: example_entry_def)
  show ?thesis
    using append_acknowledges_unsaved_term [OF _ _ request_ok_example, of ?n "''io''"] t by simp
qed

end
