(* ===== verification/Election.thy ===== *)
theory Election imports Follower
begin

text \<open>
  Leader election (internal/raft/election.go): candidacy, the vote handler, counting votes and taking
  over the cluster.
\<close>

section \<open>Log positions\<close>

text \<open>The position of a log's last entry; a later term beats a longer log.\<close>

datatype position = Position (pos_term: u64) (pos_index: u64)

instantiation position :: linorder
begin

definition less_eq_position :: "position \<Rightarrow> position \<Rightarrow> bool" where
  "p \<le> q \<longleftrightarrow> pos_term p < pos_term q \<or> (pos_term p = pos_term q \<and> pos_index p \<le> pos_index q)"

definition less_position :: "position \<Rightarrow> position \<Rightarrow> bool" where
  "p < q \<longleftrightarrow> p \<le> q \<and> \<not> q \<le> (p :: position)"

instance
  by intro_classes (auto simp: less_eq_position_def less_position_def position.expand)

end

definition last_position :: "db \<Rightarrow> position" where
  "last_position d = (case last_entry d of (i, t) \<Rightarrow> Position t i)"

section \<open>Operations\<close>

record candidacy =
  cand_term :: u64
  cand_lastLogIndex :: u64
  cand_lastLogTerm :: u64
  cand_peers :: "Peer list"
  cand_majority :: nat

definition becomeCandidate :: "Node \<Rightarrow> candidacy option \<times> Node" where
  "becomeCandidate n =
     (if role n = RoleLeader then (None, n)
      else let n1 = resetElectionDeadlineLocked
                      (n\<lparr>role := RoleCandidate, currentTerm := currentTerm n + 1, votedFor := node_id n, leaderID := []\<rparr>) in
        case on_store (SaveTermVote (currentTerm n1) (votedFor n1)) n1 of
          (Inl e, n2) \<Rightarrow> (None, n2)
        | (Inr _, n2) \<Rightarrow>
            (case on_store LastIndexAndTerm n2 of
               (Inl e, n3) \<Rightarrow> (None, n3)
             | (Inr (lastLogIndex, lastLogTerm), n3) \<Rightarrow>
                 let n4 = publishStateLocked (on_metrics ElectionStarted n3) in
                 (Some \<lparr>cand_term = currentTerm n4, cand_lastLogIndex = lastLogIndex,
                        cand_lastLogTerm = lastLogTerm, cand_peers = peers n4,
                        cand_majority = majorityLocked n4\<rparr>, n4)))"

text \<open>
  \<open>signalReplication\<close> (replication.go): a wake-up channel holds at most one token, so that a pending
  wake-up is as good as a new one.
\<close>

definition signalReplication :: "Node \<Rightarrow> Node" where
  "signalReplication n = n\<lparr>replicateNow := map_option (\<lambda>_. True) \<circ> replicateNow n\<rparr>"

text \<open>
  \<open>becomeLeader\<close>: the critical section, which says whether the node took over and whether it is alone,
  and what follows it.
\<close>

fun reset_progress :: "u64 \<Rightarrow> Peer list \<Rightarrow> Node \<Rightarrow> Node" where
  "reset_progress lastLogIndex [] n = n"
| "reset_progress lastLogIndex (p # ps) n =
     reset_progress lastLogIndex ps
       (n\<lparr>nextIndex := (nextIndex n)(Peer_ID p \<mapsto> lastLogIndex + 1), matchIndex := (matchIndex n)(Peer_ID p \<mapsto> 0)\<rparr>)"

definition take_over :: "u64 \<Rightarrow> Node \<Rightarrow> bool option \<times> Node" where
  "take_over term n =
     (if role n \<noteq> RoleCandidate \<or> currentTerm n \<noteq> term then (None, n)
      else case on_store LastIndexAndTerm n of
        (Inl e, n1) \<Rightarrow> (None, n1)
      | (Inr (lastLogIndex, _), n1) \<Rightarrow>
          (let n2 = publishStateLocked
                      (reset_progress lastLogIndex (peers n1) (n1\<lparr>role := RoleLeader, leaderID := node_id n1\<rparr>))
           in (Some (peers n2 = []), n2)))"

definition becomeLeader :: "u64 \<Rightarrow> Node \<Rightarrow> Node" where
  "becomeLeader term n =
     (case take_over term n of
        (None, n1) \<Rightarrow> n1
      | (Some True, n1) \<Rightarrow> commitAndApply n1
      | (Some False, n1) \<Rightarrow> signalReplication n1)"

definition upToDate :: "RequestVoteRequest \<Rightarrow> u64 \<Rightarrow> u64 \<Rightarrow> bool" where
  "upToDate req lastLogIndex lastLogTerm \<longleftrightarrow>
     VoteReq_LastLogTerm req > lastLogTerm
     \<or> (VoteReq_LastLogTerm req = lastLogTerm \<and> VoteReq_LastLogIndex req \<ge> lastLogIndex)"

definition decide_vote :: "RequestVoteRequest \<Rightarrow> Node \<Rightarrow> (status + RequestVoteResponse) \<times> Node" where
  "decide_vote req n =
     (case on_store LastIndexAndTerm n of
        (Inl e, n1) \<Rightarrow> (Inl (internalError e), rpcHandled ''RequestVote'' ''error'' n1)
      | (Inr (lastLogIndex, lastLogTerm), n1) \<Rightarrow>
          if (votedFor n1 \<noteq> [] \<and> votedFor n1 \<noteq> VoteReq_CandidateId req) \<or> \<not> upToDate req lastLogIndex lastLogTerm
          then (Inr \<lparr>VoteResp_Term = currentTerm n1, VoteResp_VoteGranted = False\<rparr>,
                rpcHandled ''RequestVote'' ''rejected'' n1)
          else let n2 = n1\<lparr>votedFor := VoteReq_CandidateId req\<rparr> in
            case on_store (SaveTermVote (currentTerm n2) (votedFor n2)) n2 of
              (Inl e, n3) \<Rightarrow> (Inl (internalError e), rpcHandled ''RequestVote'' ''error'' n3)
            | (Inr _, n3) \<Rightarrow>
                (let n4 = rpcHandled ''RequestVote'' ''granted'' (publishStateLocked (resetElectionDeadlineLocked n3))
                 in (Inr \<lparr>VoteResp_Term = currentTerm n4, VoteResp_VoteGranted = True\<rparr>, n4)))"

definition RequestVote :: "RequestVoteRequest \<Rightarrow> Node \<Rightarrow> (status + RequestVoteResponse) \<times> Node" where
  "RequestVote req n =
     (if VoteReq_Term req < currentTerm n
      then (Inr \<lparr>VoteResp_Term = currentTerm n, VoteResp_VoteGranted = False\<rparr>,
            rpcHandled ''RequestVote'' ''stale_term'' n)
      else decide_vote req (if currentTerm n < VoteReq_Term req then stepDownLocked (VoteReq_Term req) [] n else n))"

definition observeHigherTerm :: "u64 \<Rightarrow> Node \<Rightarrow> bool \<times> Node" where
  "observeHigherTerm term n =
     (if term \<le> currentTerm n then (False, n) else (True, stepDownLocked term [] n))"

text \<open>
  \<open>requestVote\<close> calls a peer; \<open>rpc\<close> is the RPC itself, which may fail (\<open>None\<close>).
\<close>

definition vote_request :: "candidacy \<Rightarrow> string \<Rightarrow> RequestVoteRequest" where
  "vote_request round i =
     \<lparr>VoteReq_Term = cand_term round, VoteReq_CandidateId = i,
      VoteReq_LastLogIndex = cand_lastLogIndex round, VoteReq_LastLogTerm = cand_lastLogTerm round\<rparr>"

definition requestVote ::
  "(string \<Rightarrow> RequestVoteRequest \<Rightarrow> RequestVoteResponse option) \<Rightarrow> Peer \<Rightarrow> candidacy \<Rightarrow> Node \<Rightarrow> RequestVoteResponse option" where
  "requestVote rpc peer round n = rpc (Peer_ID peer) (vote_request round (node_id n))"

text \<open>One turn of the loop that counts votes: \<open>None\<close> when it returns, else the votes so far.\<close>

definition count_vote :: "candidacy \<Rightarrow> nat \<Rightarrow> RequestVoteResponse option \<Rightarrow> Node \<Rightarrow> nat option \<times> Node" where
  "count_vote round votes reply n =
     (case reply of
        None \<Rightarrow> (Some votes, n)
      | Some resp \<Rightarrow>
          (case observeHigherTerm (VoteResp_Term resp) n of
             (True, n1) \<Rightarrow> (None, n1)
           | (False, n1) \<Rightarrow>
               if \<not> VoteResp_VoteGranted resp then (Some votes, n1)
               else if cand_majority round \<le> votes + 1 then (None, becomeLeader (cand_term round) n1)
               else (Some (votes + 1), n1)))"

fun collect_votes :: "candidacy \<Rightarrow> nat \<Rightarrow> RequestVoteResponse option list \<Rightarrow> Node \<Rightarrow> Node" where
  "collect_votes round votes [] n = n"
| "collect_votes round votes (r # rs) n =
     (case count_vote round votes r n of (None, n1) \<Rightarrow> n1 | (Some votes1, n1) \<Rightarrow> collect_votes round votes1 rs n1)"

text \<open>
  \<open>startElection\<close>, run without other goroutines in between: \<open>arrivals\<close> are the peers in the order in
  which their replies are received, a prefix of them when the node is stopped meanwhile.
\<close>

definition startElection ::
  "(string \<Rightarrow> RequestVoteRequest \<Rightarrow> RequestVoteResponse option) \<Rightarrow> (Peer list \<Rightarrow> Peer list) \<Rightarrow> Node \<Rightarrow> Node" where
  "startElection rpc arrivals n =
     (case becomeCandidate n of
        (None, n1) \<Rightarrow> n1
      | (Some round, n1) \<Rightarrow>
          if cand_majority round \<le> 1 then becomeLeader (cand_term round) n1
          else collect_votes round 1
                 (map (\<lambda>p. requestVote rpc p round n1) (arrivals (cand_peers round))) n1)"

section \<open>Candidacy\<close>

definition candidate_node :: "db \<Rightarrow> Node \<Rightarrow> Node" where
  "candidate_node d n =
     with_db d (n\<lparr>role := RoleCandidate, currentTerm := currentTerm n + 1, votedFor := node_id n, leaderID := []\<rparr>)"

lemma candidate_node_fields [simp]:
  "ndb (candidate_node d n) = d" "node_id (candidate_node d n) = node_id n" "peers (candidate_node d n) = peers n"
  "role (candidate_node d n) = RoleCandidate" "currentTerm (candidate_node d n) = currentTerm n + 1"
  "votedFor (candidate_node d n) = node_id n" "leaderID (candidate_node d n) = []"
  "commitIndex (candidate_node d n) = commitIndex n" "lastApplied (candidate_node d n) = lastApplied n"
  "matchIndex (candidate_node d n) = matchIndex n" "nextIndex (candidate_node d n) = nextIndex n"
  "clean (candidate_node d n) = clean n"
  by (simp_all add: candidate_node_def)

lemma majorityLocked_frame: "frame m n \<Longrightarrow> majorityLocked m = majorityLocked n"
  using frameD(5) by (simp add: majorityLocked_def)

lemma becomeCandidate_outcome:
  assumes "meta_ok (ndb n)" and "becomeCandidate n = (r, n')"
  obtains (leading) "role n = RoleLeader" and "r = None" and "n' = n"
  | (failed) d where "role n \<noteq> RoleLeader" and "r = None" and "\<not> clean n" and "frame n' (candidate_node d n)"
      and "d = ndb n \<or> d = put_term_vote (currentTerm n + 1) (node_id n) (ndb n)"
  | (started) "role n \<noteq> RoleLeader"
      and "frame n' (candidate_node (put_term_vote (currentTerm n + 1) (node_id n) (ndb n)) n)"
      and "r = Some \<lparr>cand_term = currentTerm n + 1, cand_lastLogIndex = fst (last_entry (ndb n)),
                     cand_lastLogTerm = snd (last_entry (ndb n)), cand_peers = peers n,
                     cand_majority = majorityLocked n\<rparr>"
proof (cases "role n = RoleLeader")
  case True
  then have "becomeCandidate n = (None, n)" by (simp add: becomeCandidate_def)
  then show ?thesis using True assms(2) by (intro leading) simp_all
next
  case False
  let ?c = "candidate_node (ndb n) n" and ?d = "put_term_vote (currentTerm n + 1) (node_id n) (ndb n)"
  define n1 where "n1 = resetElectionDeadlineLocked
    (n\<lparr>role := RoleCandidate, currentTerm := currentTerm n + 1, votedFor := node_id n, leaderID := []\<rparr>)"
  have "n\<lparr>role := RoleCandidate, currentTerm := currentTerm n + 1, votedFor := node_id n, leaderID := []\<rparr> = ?c"
    by (simp add: candidate_node_def with_db_def)
  then have f1: "frame n1 ?c" unfolding n1_def by simp
  have n1: "ndb n1 = ndb n" "currentTerm n1 = currentTerm n + 1" "votedFor n1 = node_id n"
    using frameD(1,11,12) [OF f1] by simp_all
  obtain r2 n2 where a: "on_store (SaveTermVote (currentTerm n1) (votedFor n1)) n1 = (r2, n2)" by fastforce
  note C = on_store_commits [OF SaveTermVote_commits a, unfolded n1]
  obtain r3 n3 where b: "on_store LastIndexAndTerm n2 = (r3, n3)" by fastforce
  have run: "(case r2 of Inl e \<Rightarrow> (None, n2)
      | Inr _ \<Rightarrow> (case r3 of Inl e \<Rightarrow> (None, n3)
         | Inr (i, t) \<Rightarrow> let n4 = publishStateLocked (on_metrics ElectionStarted n3) in
             (Some \<lparr>cand_term = currentTerm n4, cand_lastLogIndex = i, cand_lastLogTerm = t, cand_peers = peers n4,
                    cand_majority = majorityLocked n4\<rparr>, n4))) = (r, n')"
    using assms(2) False a b
    by (cases r2; cases r3) (auto simp: becomeCandidate_def n1_def [symmetric] Let_def)
  show ?thesis
  proof (cases r2)
    case (Inl e)
    have "frame n2 ?c" "\<not> clean n1" using C(2) [OF Inl] frame_trans [OF _ f1] by simp_all
    moreover have "r = None" "n' = n2" using run Inl by simp_all
    ultimately show ?thesis
      using False frame_clean [OF f1] by (intro failed [of "ndb n"]) auto
  next
    case (Inr u)
    have f2: "frame n2 (candidate_node ?d n)"
      using frame_trans [OF C(1) [OF Inr] frame_with_db [OF f1]] by (simp add: candidate_node_def)
    have d2: "ndb n2 = ?d" using frameD(1) [OF f2] by simp
    have ok2: "meta_ok (ndb n2)" using d2 assms(1) by (simp add: meta_ok_put_term_vote)
    note A = on_store_answers [OF LastIndexAndTerm_answers ok2 b]
    have f3: "frame n3 (candidate_node ?d n)" using A(1) f2 by (rule frame_trans)
    show ?thesis
    proof (cases r3)
      case (Inl e)
      have "\<not> clean n" using A(3) [OF Inl] frame_clean [OF f2] by auto
      moreover have "r = None" "n' = n3" using run Inr Inl by simp_all
      ultimately show ?thesis using False f3 by (intro failed [of ?d]) auto
    next
      case r3: (Inr x)
      have x: "x = last_entry (ndb n)" using A(2) [OF r3] d2 by (simp add: view_simps)
      define n4 where "n4 = publishStateLocked (on_metrics ElectionStarted n3)"
      have m3: "frame (on_metrics ElectionStarted n3) (candidate_node ?d n)"
        using frame_trans [OF frame_metrics f3] by simp
      have "meta_ok (ndb (on_metrics ElectionStarted n3))" using frameD(1) [OF m3] ok2 d2 by simp
      then have f4: "frame n4 (candidate_node ?d n)" unfolding n4_def by (rule frame_trans [OF publishStateLocked_frame m3])
      have "majorityLocked n4 = majorityLocked n" using majorityLocked_frame [OF f4] by (simp add: majorityLocked_def)
      then have "r = Some \<lparr>cand_term = currentTerm n + 1, cand_lastLogIndex = fst (last_entry (ndb n)),
          cand_lastLogTerm = snd (last_entry (ndb n)), cand_peers = peers n, cand_majority = majorityLocked n\<rparr>"
        and "n' = n4"
        using run frameD(5,11) [OF f4] by (simp_all add: Inr r3 x n4_def [symmetric] case_prod_unfold)
      then show ?thesis using False f4 by (intro started) simp_all
    qed
  qed
qed

section \<open>Voting\<close>

text \<open>The node as the vote handler decides: in the candidate's term if that is newer.\<close>

definition voter_node :: "u64 \<Rightarrow> db \<Rightarrow> Node \<Rightarrow> Node" where
  "voter_node t d n = (if currentTerm n < t then stepped_down t [] d n else n)"

lemma voter_node_fields:
  assumes "adopted t n d" and "currentTerm n \<le> t"
  shows "ndb (voter_node t d n) = d" and "node_id (voter_node t d n) = node_id n"
    and "peers (voter_node t d n) = peers n" and "currentTerm (voter_node t d n) = t"
    and "votedFor (voter_node t d n) = (if currentTerm n < t then [] else votedFor n)"
    and "role (voter_node t d n) = (if currentTerm n < t then RoleFollower else role n)"
    and "commitIndex (voter_node t d n) = commitIndex n" and "lastApplied (voter_node t d n) = lastApplied n"
    and "clean (voter_node t d n) = clean n"
  using assms by (auto simp: voter_node_def adopted_def max_def)

lemma upToDate_position:
  "upToDate req (fst (last_entry d)) (snd (last_entry d)) \<longleftrightarrow>
     last_position d \<le> Position (VoteReq_LastLogTerm req) (VoteReq_LastLogIndex req)"
  by (auto simp: upToDate_def last_position_def less_eq_position_def split: prod.splits)

lemma decide_vote_outcome:
  assumes "meta_ok (ndb n)" and "decide_vote req n = (r, n')"
  defines "c \<equiv> VoteReq_CandidateId req"
  defines "free \<equiv> votedFor n = [] \<or> votedFor n = c"
    and "fresh \<equiv> last_position (ndb n) \<le> Position (VoteReq_LastLogTerm req) (VoteReq_LastLogIndex req)"
  obtains (failed) v where "isl r" and "\<not> clean n" and "frame n' (n\<lparr>votedFor := v\<rparr>)"
      and "v = votedFor n \<or> (v = c \<and> free)"
  | (rejected) "\<not> free \<or> \<not> fresh" and "frame n' n"
      and "r = Inr \<lparr>VoteResp_Term = currentTerm n, VoteResp_VoteGranted = False\<rparr>"
  | (granted) free and fresh
      and "frame n' (with_db (put_term_vote (currentTerm n) c (ndb n)) (n\<lparr>votedFor := c\<rparr>))"
      and "r = Inr \<lparr>VoteResp_Term = currentTerm n, VoteResp_VoteGranted = True\<rparr>"
proof -
  obtain r1 n1 where a: "on_store LastIndexAndTerm n = (r1, n1)" by fastforce
  note A = on_store_answers [OF LastIndexAndTerm_answers assms(1) a]
  note F = frameD [OF A(1)]
  define n2 where "n2 = n1\<lparr>votedFor := c\<rparr>"
  have f2: "frame n2 (n\<lparr>votedFor := c\<rparr>)" unfolding n2_def using A(1) by (rule frame_upd(3))
  have n2: "currentTerm n2 = currentTerm n" "votedFor n2 = c" "ndb n2 = ndb n"
    using frameD(1,11,12) [OF f2] by simp_all
  obtain r3 n3 where b: "on_store (SaveTermVote (currentTerm n2) (votedFor n2)) n2 = (r3, n3)" by fastforce
  note B = on_store_commits [OF SaveTermVote_commits b, unfolded n2]
  define n4 where "n4 = rpcHandled ''RequestVote'' ''granted'' (publishStateLocked (resetElectionDeadlineLocked n3))"
  show ?thesis
  proof (cases r1)
    case (Inl e)
    then have "r = Inl (internalError e)" "n' = rpcHandled ''RequestVote'' ''error'' n1"
      using assms(2) a by (simp_all add: decide_vote_def)
    moreover have "n\<lparr>votedFor := votedFor n\<rparr> = n" by simp
    ultimately show ?thesis
      using A(3) [OF Inl] frame_trans [OF rpcHandled_frame A(1)] by (intro failed [of "votedFor n"]) simp_all
  next
    case (Inr x)
    then have x: "upToDate req (fst x) (snd x) \<longleftrightarrow> fresh" using A(2) [OF Inr] upToDate_position by (simp add: fresh_def)
    show ?thesis
    proof (cases "free \<and> fresh")
      case False
      then have "(votedFor n1 \<noteq> [] \<and> votedFor n1 \<noteq> c) \<or> \<not> upToDate req (fst x) (snd x)"
        using x F(12) by (auto simp: free_def)
      then have "r = Inr \<lparr>VoteResp_Term = currentTerm n, VoteResp_VoteGranted = False\<rparr>"
        "n' = rpcHandled ''RequestVote'' ''rejected'' n1"
        using assms(2) a Inr F(11) by (simp_all add: decide_vote_def c_def case_prod_unfold)
      then show ?thesis
        using False frame_trans [OF rpcHandled_frame A(1)] by (intro rejected) auto
    next
      case True
      then have ok: "\<not> (votedFor n1 \<noteq> [] \<and> votedFor n1 \<noteq> c \<or> \<not> upToDate req (fst x) (snd x))"
        using x F(12) by (auto simp: free_def)
      have run': "(case r3 of Inl e \<Rightarrow> (Inl (internalError e), rpcHandled ''RequestVote'' ''error'' n3)
          | Inr _ \<Rightarrow> (Inr \<lparr>VoteResp_Term = currentTerm n4, VoteResp_VoteGranted = True\<rparr>, n4)) = (r, n')"
        using assms(2) b ok a Inr
        by (cases r3; cases x) (auto simp: decide_vote_def c_def n2_def n4_def Let_def)
      show ?thesis
      proof (cases r3)
        case e: (Inl e)
        have "\<not> clean n" using B(2) [OF e] frame_clean [OF f2] by auto
        then show ?thesis
          using run' e True frame_trans [OF rpcHandled_frame frame_trans [OF conjunct1 [OF B(2) [OF e]] f2]]
          by (intro failed [of c]) auto
      next
        case u: (Inr u)
        let ?m = "with_db (put_term_vote (currentTerm n) c (ndb n)) (n\<lparr>votedFor := c\<rparr>)"
        have f3: "frame n3 ?m" using frame_trans [OF B(1) [OF u] frame_with_db [OF f2]] by simp
        have g: "frame (resetElectionDeadlineLocked n3) ?m"
          using f3 by (rule frame_trans [OF resetElectionDeadlineLocked_frame])
        have "meta_ok (ndb (resetElectionDeadlineLocked n3))"
          using frameD(1) [OF g] assms(1) by (simp add: meta_ok_put_term_vote)
        then have f4: "frame n4 ?m"
          unfolding n4_def by (intro frame_trans [OF rpcHandled_frame] frame_trans [OF publishStateLocked_frame g])
        have "r = Inr \<lparr>VoteResp_Term = currentTerm n, VoteResp_VoteGranted = True\<rparr>" "n' = n4"
          using run' u frameD(11) [OF f4] by simp_all
        then show ?thesis using True f4 by (intro granted) simp_all
      qed
    qed
  qed
qed

lemma voter_node_frame:
  assumes "meta_ok (ndb n)" and "currentTerm n \<le> t"
  obtains d where "adopted t n d" and "meta_ok d"
    and "frame (if currentTerm n < t then stepDownLocked t [] n else n) (voter_node t d n)"
proof (cases "currentTerm n < t")
  case True
  obtain d where "frame (stepDownLocked t [] n) (stepped_down t [] d n)" and "meta_ok d"
    and "d = (if currentTerm n < t then put_term_vote t [] (ndb n) else ndb n) \<or> (d = ndb n \<and> \<not> clean n)"
    by (rule stepDownLocked_frame [OF assms(1)])
  then show ?thesis using that [of d] True by (simp add: adopted_def voter_node_def)
next
  case False
  then show ?thesis using that [of "ndb n"] assms(1) by (simp add: adopted_def voter_node_def)
qed

lemma RequestVote_outcome:
  assumes "meta_ok (ndb n)" and "RequestVote req n = (r, n')"
  defines "c \<equiv> VoteReq_CandidateId req" and "t \<equiv> VoteReq_Term req"
  obtains (stale) "t < currentTerm n" and "frame n' n"
      and "r = Inr \<lparr>VoteResp_Term = currentTerm n, VoteResp_VoteGranted = False\<rparr>"
  | (failed) d v where "currentTerm n \<le> t" and "adopted t n d" and "isl r" and "\<not> clean n"
      and "frame n' ((voter_node t d n)\<lparr>votedFor := v\<rparr>)"
      and "v = votedFor (voter_node t d n) \<or> (v = c \<and> votedFor (voter_node t d n) \<in> {[], c})"
  | (rejected) d where "currentTerm n \<le> t" and "adopted t n d" and "frame n' (voter_node t d n)"
      and "votedFor (voter_node t d n) \<notin> {[], c}
           \<or> \<not> last_position d \<le> Position (VoteReq_LastLogTerm req) (VoteReq_LastLogIndex req)"
      and "r = Inr \<lparr>VoteResp_Term = t, VoteResp_VoteGranted = False\<rparr>"
  | (granted) d where "currentTerm n \<le> t" and "adopted t n d"
      and "votedFor (voter_node t d n) \<in> {[], c}"
      and "last_position d \<le> Position (VoteReq_LastLogTerm req) (VoteReq_LastLogIndex req)"
      and "frame n' (with_db (put_term_vote t c d) ((voter_node t d n)\<lparr>votedFor := c\<rparr>))"
      and "r = Inr \<lparr>VoteResp_Term = t, VoteResp_VoteGranted = True\<rparr>"
proof (cases "t < currentTerm n")
  case True
  then have "r = Inr \<lparr>VoteResp_Term = currentTerm n, VoteResp_VoteGranted = False\<rparr>"
    "n' = rpcHandled ''RequestVote'' ''stale_term'' n"
    using assms(2) by (simp_all add: RequestVote_def t_def)
  then show ?thesis using True by (intro stale) simp_all
next
  case False
  then have le: "currentTerm n \<le> t" by simp
  define m where "m = (if currentTerm n < t then stepDownLocked t [] n else n)"
  obtain d where ad: "adopted t n d" and okd: "meta_ok d" and f: "frame m (voter_node t d n)"
    unfolding m_def by (rule voter_node_frame [OF assms(1) le])
  note V = voter_node_fields [OF ad le]
  have m: "ndb m = d" "currentTerm m = t" "votedFor m = votedFor (voter_node t d n)"
    using frameD(1,11,12) [OF f] V by simp_all
  have run: "decide_vote req m = (r, n')"
    using assms(2) False by (simp only: RequestVote_def m_def t_def if_False)
  have ok: "meta_ok (ndb m)" using okd m by simp
  show ?thesis
  proof (cases rule: decide_vote_outcome [OF ok run, folded c_def, unfolded m])
    case (1 v)
    then show ?thesis
      using frame_trans [OF 1(3) frame_upd(3) [OF f]] frame_clean [OF f] V(9)
      by (intro failed [OF le ad]) auto
  next
    case 2
    then show ?thesis using frame_trans [OF 2(2) f] by (intro rejected [OF le ad]) auto
  next
    case 3
    then show ?thesis
      using frame_trans [OF 3(3) frame_with_db [OF frame_upd(3) [OF f]]] by (intro granted [OF le ad]) auto
  qed
qed

section \<open>Taking over\<close>

definition leader_node :: "Node \<Rightarrow> Node" where
  "leader_node n = reset_progress (last_index (ndb n)) (peers n) (n\<lparr>role := RoleLeader, leaderID := node_id n\<rparr>)"

lemma reset_progress_eq:
  "reset_progress l ps n =
     n\<lparr>nextIndex := nextIndex n ++ (\<lambda>i. if i \<in> Peer_ID ` set ps then Some (l + 1) else None),
       matchIndex := matchIndex n ++ (\<lambda>i. if i \<in> Peer_ID ` set ps then Some 0 else None)\<rparr>"
proof (induction ps arbitrary: n)
  case Nil
  then show ?case by (simp add: map_add_def)
next
  case (Cons p ps)
  have "(\<lambda>a. if a = Peer_ID p then Some v else f a) ++ (\<lambda>i. if i \<in> Peer_ID ` set ps then Some v else None)
      = f ++ (\<lambda>i. if i \<in> Peer_ID ` set (p # ps) then Some v else None)" for f :: "string \<rightharpoonup> u64" and v
    by (auto simp: fun_eq_iff map_add_def)
  then show ?case by (simp add: Cons.IH)
qed

lemma leader_node_fields [simp]:
  "ndb (leader_node n) = ndb n" "node_id (leader_node n) = node_id n" "peers (leader_node n) = peers n"
  "role (leader_node n) = RoleLeader" "currentTerm (leader_node n) = currentTerm n"
  "votedFor (leader_node n) = votedFor n" "leaderID (leader_node n) = node_id n"
  "commitIndex (leader_node n) = commitIndex n" "lastApplied (leader_node n) = lastApplied n"
  "clean (leader_node n) = clean n"
  by (simp_all add: leader_node_def reset_progress_eq)

lemma leader_node_progress:
  assumes "p \<in> set (peers n)"
  shows "nextIndex (leader_node n) (Peer_ID p) = Some (last_index (ndb n) + 1)"
    and "matchIndex (leader_node n) (Peer_ID p) = Some 0"
  using assms by (auto simp: leader_node_def reset_progress_eq map_add_def)

lemma frame_reset_progress:
  assumes "frame m n"
  shows "frame (reset_progress l ps m) (reset_progress l ps n)"
  using frame_upd(8) [OF frame_upd(7) [OF assms]] frameD(16,17) [OF assms] by (simp add: reset_progress_eq)

lemma take_over_outcome:
  assumes "meta_ok (ndb n)" and "take_over t n = (r, n')"
  obtains (kept) "r = None" and "frame n' n"
    and "role n \<noteq> RoleCandidate \<or> currentTerm n \<noteq> t \<or> \<not> clean n"
  | (leads) "role n = RoleCandidate" and "currentTerm n = t" and "r = Some (peers n = [])" and "frame n' (leader_node n)"
proof (cases "role n \<noteq> RoleCandidate \<or> currentTerm n \<noteq> t")
  case True
  then have "take_over t n = (None, n)" by (auto simp: take_over_def)
  then show ?thesis using True assms(2) by (intro kept) auto
next
  case False
  obtain r1 n1 where a: "on_store LastIndexAndTerm n = (r1, n1)" by fastforce
  note A = on_store_answers [OF LastIndexAndTerm_answers assms(1) a]
  show ?thesis
  proof (cases r1)
    case (Inl e)
    then have "r = None" "n' = n1" using assms(2) False a by (simp_all add: take_over_def)
    then show ?thesis using A(1) A(3) [OF Inl] by (intro kept) auto
  next
    case (Inr x)
    have x: "fst x = last_index (ndb n)" using A(2) [OF Inr] by (simp add: last_index_def)
    define n2 where "n2 = reset_progress (fst x) (peers n1) (n1\<lparr>role := RoleLeader, leaderID := node_id n1\<rparr>)"
    have "frame (n1\<lparr>role := RoleLeader, leaderID := node_id n1\<rparr>) (n\<lparr>role := RoleLeader, leaderID := node_id n1\<rparr>)"
      by (intro frame_upd A(1))
    then have f2: "frame n2 (leader_node n)"
      using frameD(2,5) [OF A(1)] x by (simp add: n2_def leader_node_def frame_reset_progress)
    have ok2: "meta_ok (ndb n2)" using frameD(1) [OF f2] assms(1) by simp
    have f3: "frame (publishStateLocked n2) (leader_node n)" by (rule frame_trans [OF publishStateLocked_frame [OF ok2] f2])
    have "r = Some (peers n = [])" "n' = publishStateLocked n2"
      using assms(2) False a Inr frameD(5) [OF f3]
      by (cases x, simp_all add: take_over_def Let_def n2_def)+
    then show ?thesis using False f3 by (intro leads) simp_all
  qed
qed

lemma signalReplication_fields [simp]:
  "store (signalReplication n) = store n" "node_id (signalReplication n) = node_id n"
  "peers (signalReplication n) = peers n" "role (signalReplication n) = role n"
  "currentTerm (signalReplication n) = currentTerm n" "votedFor (signalReplication n) = votedFor n"
  "leaderID (signalReplication n) = leaderID n" "commitIndex (signalReplication n) = commitIndex n"
  "lastApplied (signalReplication n) = lastApplied n" "nextIndex (signalReplication n) = nextIndex n"
  "matchIndex (signalReplication n) = matchIndex n"
  by (simp_all add: signalReplication_def)

lemma commitAndApply_advanced:
  assumes "log_ok (ndb n)" and "commitIndex n \<le> max_int64"
  shows "advanced (commitAndApply n) n"
proof -
  note A = advanceCommitLocked_advanced(1) [OF assms]
  have ok: "log_ok (ndb (advanceCommitLocked n))" by (rule advanced_log_ok [OF A])
  show ?thesis
    unfolding commitAndApply_def
    by (rule advanced_trans [OF advanced_frame [OF ok publishStateLocked_frame [OF log_ok_meta [OF ok]]] A])
qed

lemma becomeLeader_outcome:
  assumes "log_ok (ndb n)" and "commitIndex n \<le> max_int64"
  obtains (kept) "frame (becomeLeader t n) n" and "role n \<noteq> RoleCandidate \<or> currentTerm n \<noteq> t \<or> \<not> clean n"
  | (leads) m where "role n = RoleCandidate" and "currentTerm n = t" and "advanced m (leader_node n)"
      and "becomeLeader t n = m \<or> becomeLeader t n = signalReplication m"
proof -
  obtain r n1 where a: "take_over t n = (r, n1)" by fastforce
  show ?thesis
  proof (cases rule: take_over_outcome [OF log_ok_meta [OF assms(1)] a])
    case 1
    then show ?thesis using a by (intro kept) (auto simp: becomeLeader_def)
  next
    case 2
    have A: "advanced n1 (leader_node n)" by (rule advanced_frame [OF _ 2(4)]) (simp add: assms(1))
    have "advanced (commitAndApply n1) n1"
      by (rule commitAndApply_advanced) (use advanced_log_ok [OF A] frameD(14) [OF 2(4)] assms(2) in simp_all)
    then show ?thesis
      using leads [OF 2(1,2) A] leads [OF 2(1,2) advanced_trans [OF _ A]] a 2(3)
      by (cases "peers n = []") (simp_all add: becomeLeader_def)
  qed
qed

end
