(* ===== verification/Votes.thy ===== *)
theory Votes imports Election Follower_Props
begin

text \<open>
  The vote a node has given, in memory and on disk, and that no operation takes it back: votes on
  disk only grow in the order \<open>vote_le\<close>, in which two different votes of one term are unrelated.
\<close>

section \<open>The order of votes\<close>

definition vote_le :: "u64 \<times> string \<Rightarrow> u64 \<times> string \<Rightarrow> bool" where
  "vote_le p q \<longleftrightarrow> fst p < fst q \<or> (fst p = fst q \<and> (snd p = [] \<or> snd p = snd q))"

definition disk_vote :: "db \<Rightarrow> u64 \<times> string" where
  "disk_vote d = (meta_u64 d ''current_term'', meta_string d ''voted_for'')"

definition mem_vote :: "Node \<Rightarrow> u64 \<times> string" where
  "mem_vote n = (currentTerm n, votedFor n)"

text \<open>The disk lags behind the memory, if at all; a step keeps this and takes no vote back.\<close>

definition vote_ok :: "Node \<Rightarrow> bool" where
  "vote_ok n \<longleftrightarrow> vote_le (disk_vote (ndb n)) (mem_vote n)"

definition vote_step :: "Node \<Rightarrow> Node \<Rightarrow> bool" where
  "vote_step n n' \<longleftrightarrow> vote_ok n' \<and> vote_le (disk_vote (ndb n)) (disk_vote (ndb n'))"

lemma vote_le_refl [simp]: "vote_le p p"
  by (simp add: vote_le_def)

lemma vote_le_trans [trans]: "vote_le p q \<Longrightarrow> vote_le q r \<Longrightarrow> vote_le p r"
  by (auto simp: vote_le_def)

lemma vote_le_unique: "vote_le (t, c) (t, c') \<Longrightarrow> c \<noteq> [] \<Longrightarrow> c' = c"
  by (simp add: vote_le_def)

lemma vote_le_term: "vote_le p q \<Longrightarrow> fst p \<le> fst q"
  by (auto simp: vote_le_def)

lemma vote_step_refl: "vote_ok n \<Longrightarrow> vote_step n n"
  by (simp add: vote_step_def)

lemma vote_step_trans: "vote_step n n' \<Longrightarrow> vote_step n' n'' \<Longrightarrow> vote_step n n''"
  by (auto simp: vote_step_def intro: vote_le_trans)

lemma disk_vote_effects [simp]:
  "disk_vote (put_term_vote t v d) = (t, v)" "disk_vote (merge_log es d) = disk_vote d"
  "disk_vote (drop_from i d) = disk_vote d" "disk_vote (restore sn state d) = disk_vote d"
  "disk_vote (put_entries es d) = disk_vote d"
  by (simp_all add: disk_vote_def view_simps)
     (simp add: restore_def put_snapshot_def drop_through_def meta_string_def put_meta_def lookup_upsert)

lemma disk_vote_compacts: "compacts d' d \<Longrightarrow> disk_vote d' = disk_vote d"
  using compactsD(5,6) by (simp add: disk_vote_def)

lemma vote_step_same:
  assumes "vote_ok n" and "disk_vote (ndb n') = disk_vote (ndb n)" and "mem_vote n' = mem_vote n"
  shows "vote_step n n'"
  using assms by (simp add: vote_step_def vote_ok_def)

lemma vote_ok_same: "ndb n' = ndb n \<Longrightarrow> mem_vote n' = mem_vote n \<Longrightarrow> vote_ok n' = vote_ok n"
  by (simp add: vote_ok_def)

lemma vote_step_frame: "vote_step n m \<Longrightarrow> frame n' m \<Longrightarrow> vote_step n n'"
  using frameD(1,11,12) [of n' m] by (simp add: vote_step_def vote_ok_def mem_vote_def)

lemma vote_step_advanced: "vote_step n m \<Longrightarrow> advanced n' m \<Longrightarrow> vote_step n n'"
  using advancedD(1,7,8) [of n' m] disk_vote_compacts by (simp add: vote_step_def vote_ok_def mem_vote_def)

section \<open>Operations\<close>

lemma stepped_down_votes:
  assumes "vote_ok n" and "adopted t n d"
  shows "vote_step n (stepped_down t l d n)"
  using assms vote_le_term [of "disk_vote (ndb n)" "mem_vote n"]
  by (auto simp: vote_step_def vote_ok_def vote_le_def mem_vote_def adopted_def max_def split: if_splits)

lemma voter_node_votes: "vote_ok n \<Longrightarrow> adopted t n d \<Longrightarrow> vote_step n (voter_node t d n)"
  by (auto simp: voter_node_def stepped_down_votes vote_step_refl)

lemma observeHigherTerm_votes:
  assumes "meta_ok (ndb n)" and "vote_ok n" and "observeHigherTerm t n = (b, n')"
  shows "vote_step n n'"
proof (cases "t \<le> currentTerm n")
  case True
  then show ?thesis using assms(2,3) by (simp add: observeHigherTerm_def vote_step_refl)
next
  case False
  obtain d where f: "frame (stepDownLocked t [] n) (stepped_down t [] d n)"
    and "d = (if currentTerm n < t then put_term_vote t [] (ndb n) else ndb n) \<or> (d = ndb n \<and> \<not> clean n)"
    by (rule stepDownLocked_frame [OF assms(1)])
  then have "adopted t n d" by (simp add: adopted_def)
  then show ?thesis
    using assms(3) False vote_step_frame [OF stepped_down_votes [OF assms(2)] f] by (simp add: observeHigherTerm_def)
qed

lemma becomeCandidate_votes:
  assumes "meta_ok (ndb n)" and "vote_ok n" and "currentTerm n \<noteq> - 1" and "becomeCandidate n = (r, n')"
  shows "vote_step n n'"
    and "\<And>round. r = Some round \<Longrightarrow> disk_vote (ndb n') = (cand_term round, node_id n)"
proof -
  have lt: "currentTerm n < currentTerm n + 1" using assms(3) by simp
  have le: "fst (disk_vote (ndb n)) \<le> currentTerm n"
    using vote_le_term [OF assms(2) [unfolded vote_ok_def]] by (simp add: mem_vote_def)
  have step: "vote_step n (candidate_node d n)"
    if "d = ndb n \<or> d = put_term_vote (currentTerm n + 1) (node_id n) (ndb n)" for d
    using that order.strict_trans1 [OF le lt] by (auto simp: vote_step_def vote_ok_def vote_le_def mem_vote_def)
  have "vote_step n n' \<and> (\<forall>round. r = Some round \<longrightarrow> disk_vote (ndb n') = (cand_term round, node_id n))"
  proof (cases rule: becomeCandidate_outcome [OF assms(1,4)])
    case 1
    then show ?thesis using assms(2) by (simp add: vote_step_refl)
  next
    case (2 d)
    then show ?thesis using vote_step_frame [OF step] by simp
  next
    case 3
    then show ?thesis using vote_step_frame [OF step [OF disjI2 [OF refl]] 3(2)] frameD(1) [OF 3(2)] by simp
  qed
  then show "vote_step n n'" and "\<And>round. r = Some round \<Longrightarrow> disk_vote (ndb n') = (cand_term round, node_id n)"
    by simp_all
qed

lemma RequestVote_votes:
  assumes "meta_ok (ndb n)" and "vote_ok n" and "RequestVote req n = (r, n')"
  shows "vote_step n n'"
    and "\<And>resp. r = Inr resp \<Longrightarrow> VoteResp_VoteGranted resp \<Longrightarrow>
           disk_vote (ndb n') = (VoteReq_Term req, VoteReq_CandidateId req)"
proof -
  let ?t = "VoteReq_Term req" and ?c = "VoteReq_CandidateId req"
  have "vote_step n n' \<and> (\<forall>resp. r = Inr resp \<and> VoteResp_VoteGranted resp \<longrightarrow> disk_vote (ndb n') = (?t, ?c))"
  proof (cases rule: RequestVote_outcome [OF assms(1,3)])
    case 1
    then show ?thesis using vote_step_frame [OF vote_step_refl [OF assms(2)] 1(2)] by auto
  next
    case (2 d v)
    note V = voter_node_votes [OF assms(2) 2(2)] and F = voter_node_fields [OF 2(2,1)]
    have "vote_step n ((voter_node ?t d n)\<lparr>votedFor := v\<rparr>)"
      using V 2(6) F(1,4) by (auto simp: vote_step_def vote_ok_def vote_le_def mem_vote_def)
    then show ?thesis using vote_step_frame [OF _ 2(5)] 2(3) by auto
  next
    case (3 d)
    then show ?thesis using vote_step_frame [OF voter_node_votes [OF assms(2) 3(2)] 3(3)] by auto
  next
    case (4 d)
    note V = voter_node_votes [OF assms(2) 4(2)] and F = voter_node_fields [OF 4(2,1)]
    have "vote_le (disk_vote (ndb n)) (disk_vote d)" using V F(1) by (simp add: vote_step_def)
    also have "vote_le (disk_vote d) (?t, ?c)"
      using V 4(3) F(1,4) by (auto simp: vote_step_def vote_ok_def vote_le_def mem_vote_def)
    finally have "vote_step n (with_db (put_term_vote ?t ?c d) ((voter_node ?t d n)\<lparr>votedFor := ?c\<rparr>))"
      using F(4) by (simp add: vote_step_def vote_ok_def mem_vote_def)
    then show ?thesis using vote_step_frame [OF _ 4(5)] frameD(1) [OF 4(5)] by simp
  qed
  then show "vote_step n n'"
    and "\<And>resp. r = Inr resp \<Longrightarrow> VoteResp_VoteGranted resp \<Longrightarrow> disk_vote (ndb n') = (?t, ?c)"
    by simp_all
qed

text \<open>
  The operations that follow another node: the log part of the database may change, the role is
  given up or kept, and the vote is the one of the followed term.
\<close>

definition follows_votes :: "Node \<Rightarrow> Node \<Rightarrow> bool" where
  "follows_votes n n' \<longleftrightarrow>
     vote_step n n' \<and> log_ok (ndb n') \<and> node_id n' = node_id n \<and> peers n' = peers n
     \<and> currentTerm n \<le> currentTerm n'
     \<and> (role n' \<noteq> RoleFollower \<longrightarrow> role n' = role n \<and> currentTerm n' = currentTerm n)"

lemma follows_votesD:
  assumes "follows_votes n n'"
  shows "vote_step n n'" and "log_ok (ndb n')" and "node_id n' = node_id n" and "peers n' = peers n"
    and "currentTerm n \<le> currentTerm n'"
    and "role n' \<noteq> RoleFollower \<Longrightarrow> role n' = role n \<and> currentTerm n' = currentTerm n"
  using assms by (simp_all add: follows_votes_def)

lemma follows_votes_refl: "vote_ok n \<Longrightarrow> log_ok (ndb n) \<Longrightarrow> follows_votes n n"
  by (simp add: follows_votes_def vote_step_refl)

lemma follows_votes_trans: "follows_votes n n' \<Longrightarrow> follows_votes n' n'' \<Longrightarrow> follows_votes n n''"
  by (auto simp: follows_votes_def intro: vote_step_trans order_trans)

lemma follows_votes_frame:
  assumes "follows_votes n m" and "frame n' m"
  shows "follows_votes n n'"
  using assms frameD(1,2,5,10,11) [OF assms(2)] vote_step_frame [OF _ assms(2)] by (simp add: follows_votes_def)

lemma follows_votes_advanced:
  assumes "follows_votes n m" and "advanced n' m"
  shows "follows_votes n n'"
  using assms advancedD(4-7) [OF assms(2)] advanced_log_ok [OF assms(2)] vote_step_advanced [OF _ assms(2)]
  by (simp add: follows_votes_def)

lemma follows_votes_stepped_down:
  assumes "vote_ok n" and "adopted t n d" and "log_ok d'" and "disk_vote d' = disk_vote d"
  shows "follows_votes n (with_db d' (stepped_down t l d n))"
  using stepped_down_votes [OF assms(1,2), of l] assms(3,4)
  by (simp add: follows_votes_def vote_step_def vote_ok_def mem_vote_def)

lemma cut_log_votes:
  assumes "log_ok d" and "cut_log es d d'"
  shows "log_ok d' \<and> disk_vote d' = disk_vote d"
  using assms cut_log_ok(1) [OF assms(1)] by (auto simp: cut_log_def)

lemma observeHigherTerm_follows:
  assumes "log_ok (ndb n)" and "vote_ok n" and "observeHigherTerm t n = (b, n')"
  shows "follows_votes n n'" and "b \<Longrightarrow> role n' = RoleFollower"
    and "\<not> b \<Longrightarrow> n' = n \<and> t \<le> currentTerm n"
proof -
  have "follows_votes n n' \<and> (if b then role n' = RoleFollower else n' = n \<and> t \<le> currentTerm n)"
  proof (cases "t \<le> currentTerm n")
    case True
    then show ?thesis using assms by (simp add: observeHigherTerm_def follows_votes_refl)
  next
    case False
    obtain d where f: "frame (stepDownLocked t [] n) (stepped_down t [] d n)"
      and "d = (if currentTerm n < t then put_term_vote t [] (ndb n) else ndb n) \<or> (d = ndb n \<and> \<not> clean n)"
      by (rule stepDownLocked_frame [OF log_ok_meta [OF assms(1)]])
    then have ad: "adopted t n d" by (simp add: adopted_def)
    have "with_db d (stepped_down t [] d n) = stepped_down t [] d n" by (simp add: stepped_down_def)
    then have "follows_votes n (stepped_down t [] d n)"
      using follows_votes_stepped_down [OF assms(2) ad adopted_log(1) [OF ad assms(1)] refl, of "[]"] by simp
    from follows_votes_frame [OF this f] show ?thesis
      using assms(3) False frameD(10) [OF f] by (auto simp: observeHigherTerm_def)
  qed
  then show "follows_votes n n'" and "b \<Longrightarrow> role n' = RoleFollower" and "\<not> b \<Longrightarrow> n' = n \<and> t \<le> currentTerm n"
    by (simp_all split: if_splits)
qed

lemma AppendEntries_votes:
  assumes "log_ok (ndb n)" and "vote_ok n" and "request_ok req" and "AppendEntries req n = (r, n')"
  shows "follows_votes n n'"
proof -
  let ?E = "map toStorageEntry (AppendReq_Entries req)" and ?p = "AppendReq_PrevLogIndex req"
  note wf = assms(3) [unfolded request_ok_def]
  note sd = follows_votes_stepped_down [OF assms(2)]
  have merged: "log_ok (merge_log ?E d)" if "log_ok d" "snap_index d \<le> ?p" "term_at d ?p = Some x" for d x
  proof -
    have "?p \<le> last_index d" using that term_at_iff [OF that(1), of ?p] log_okD(2) [OF that(1)] by auto
    from merge_log_spec(1) [OF that(1,2) this wf] show ?thesis .
  qed
  show ?thesis
  proof (cases rule: AppendEntries_outcome [OF assms(1,4) wf])
    case 1
    then show ?thesis using follows_votes_frame [OF follows_votes_refl [OF assms(2,1)]] by blast
  next
    case (2 d m d2)
    note L = adopted_log [OF 2(2) assms(1)]
    have "log_ok d2 \<and> disk_vote d2 = disk_vote d"
      using 2(7,8) cut_log_votes [OF L(1)] merged [OF L(1)] L(1) by (cases "d2 = d") auto
    then show ?thesis using follows_votes_frame [OF sd [OF 2(2)] 2(6) [unfolded 2(3)]] by simp
  next
    case (3 d m)
    note L = adopted_log [OF 3(2) assms(1)]
    have "m = with_db d (stepped_down (AppendReq_Term req) (AppendReq_LeaderId req) d n)"
      using 3(3) by (simp add: stepped_down_def)
    then show ?thesis using follows_votes_frame [OF sd [OF 3(2) L(1) refl]] 3(4) by blast
  next
    case (4 d m)
    note L = adopted_log [OF 4(2) assms(1)]
    let ?m = "with_db (merge_log ?E d) m"
    have ok: "log_ok (merge_log ?E d)" by (rule merged [OF L(1) 4(4,5)])
    have fv: "follows_votes n ?m" unfolding 4(3) by (rule sd [OF 4(2) ok]) simp
    note C = commit_followed_result [OF 4(6)]
    show ?thesis
      using fv C [unfolded with_db_fields, OF ok] disk_vote_compacts compactsD(1)
      by (auto simp: follows_votes_def vote_step_def vote_ok_def mem_vote_def)
  qed
qed

lemma InstallSnapshot_votes:
  assumes "log_ok (ndb n)" and "vote_ok n" and "SnapReq_LastIncludedIndex req \<le> max_int64"
    and "InstallSnapshot req n = (r, n')"
  shows "follows_votes n n'"
proof -
  let ?sn = "request_snapshot req"
  note sd = follows_votes_stepped_down [OF assms(2)]
  have same: "stepped_down t l d n = with_db d (stepped_down t l d n)" for t l d by (simp add: stepped_down_def)
  have kept: "follows_votes n n'" if "adopted t n d" "frame n' (stepped_down t l d n)" for t l d
    using follows_votes_frame [OF sd [OF that(1) adopted_log(1) [OF that(1) assms(1)] refl]] that(2) same by metis
  show ?thesis
  proof (cases rule: InstallSnapshot_outcome [OF assms(1,4), folded request_snapshot_def])
    case 1
    then show ?thesis using follows_votes_frame [OF follows_votes_refl [OF assms(2,1)]] by blast
  next
    case (2 d m)
    then show ?thesis using kept by blast
  next
    case (3 d m)
    then show ?thesis using kept by blast
  next
    case (4 d m state)
    have s: "snap_index d \<le> SnapReq_LastIncludedIndex req" "SnapReq_LastIncludedIndex req \<noteq> 0" using 4(4) by auto
    have ok: "log_ok (restore ?sn state d)"
      using restore_log(1) [OF adopted_log(1) [OF 4(2) assms(1)], of ?sn] s assms(3) by simp
    have "follows_votes n (with_db (restore ?sn state d) m)"
      unfolding 4(3) by (rule sd [OF 4(2) ok]) simp
    then have "follows_votes n (installed_node ?sn state m)"
      using 4(3) by (simp add: follows_votes_def installed_node_def vote_step_def vote_ok_def mem_vote_def)
    then show ?thesis using 4(6) by (rule follows_votes_frame)
  qed
qed

lemma RequestVote_follows:
  assumes "log_ok (ndb n)" and "vote_ok n" and "RequestVote req n = (r, n')"
  shows "follows_votes n n'"
proof -
  note meta = log_ok_meta [OF assms(1)]
  have kept: ?thesis if "adopted t n d" "currentTerm n \<le> t" "log_ok d'"
      "frame n' (with_db d' ((voter_node t d n)\<lparr>votedFor := v\<rparr>))" for t d d' v
    using RequestVote_votes(1) [OF meta assms(2,3)] frameD(1,2,5,10,11) [OF that(4)]
      voter_node_fields [OF that(1,2)] that(2,3)
    by (auto simp: follows_votes_def)
  have same: "voter_node t d n = with_db d ((voter_node t d n)\<lparr>votedFor := votedFor (voter_node t d n)\<rparr>)"
    if "adopted t n d" "currentTerm n \<le> t" for t d
    using voter_node_fields(1) [OF that] by (simp add: with_db_def)
  show ?thesis
  proof (cases rule: RequestVote_outcome [OF meta assms(3)])
    case 1
    then show ?thesis using follows_votes_frame [OF follows_votes_refl [OF assms(2,1)]] by blast
  next
    case (2 d v)
    have "with_db d ((voter_node (VoteReq_Term req) d n)\<lparr>votedFor := v\<rparr>) = (voter_node (VoteReq_Term req) d n)\<lparr>votedFor := v\<rparr>"
      using voter_node_fields(1) [OF 2(2,1)] by (simp add: with_db_def)
    then show ?thesis using kept [OF 2(2,1) adopted_log(1) [OF 2(2) assms(1)], of v] 2(5) by simp
  next
    case (3 d)
    then show ?thesis using kept [OF 3(2,1) adopted_log(1) [OF 3(2) assms(1)]] same [OF 3(2,1)] by metis
  next
    case (4 d)
    then show ?thesis
      using kept [OF 4(2,1) log_ok_effects(1) [OF adopted_log(1) [OF 4(2) assms(1)]] 4(5)] by simp
  qed
qed

lemma becomeCandidate_follows:
  assumes "log_ok (ndb n)" and "vote_ok n" and "currentTerm n \<noteq> - 1" and "becomeCandidate n = (r, n')"
  shows "vote_step n n'" and "log_ok (ndb n')" and "node_id n' = node_id n" and "peers n' = peers n"
    and "currentTerm n \<le> currentTerm n'" and "commitIndex n' = commitIndex n" and "lastApplied n' = lastApplied n"
    and "role n' = RoleLeader \<Longrightarrow> n' = n"
    and "\<And>round. r = Some round \<Longrightarrow> disk_vote (ndb n') = (cand_term round, node_id n) \<and> cand_peers round = peers n
          \<and> cand_majority round = majorityLocked n \<and> currentTerm n' = cand_term round"
proof -
  note meta = log_ok_meta [OF assms(1)]
  note V = becomeCandidate_votes [OF meta assms(2-4)]
  have inc: "currentTerm n \<le> currentTerm n + 1" using assms(3) by (simp add: less_imp_le)
  have ok: "log_ok (put_term_vote (currentTerm n + 1) (node_id n) (ndb n))" by (rule log_ok_effects(1) [OF assms(1)])
  have "log_ok (ndb n') \<and> node_id n' = node_id n \<and> peers n' = peers n \<and> currentTerm n \<le> currentTerm n'
    \<and> commitIndex n' = commitIndex n \<and> lastApplied n' = lastApplied n \<and> (role n' = RoleLeader \<longrightarrow> n' = n)
    \<and> (\<forall>round. r = Some round \<longrightarrow> cand_peers round = peers n \<and> cand_majority round = majorityLocked n
         \<and> currentTerm n' = cand_term round)"
  proof (cases rule: becomeCandidate_outcome [OF meta assms(4)])
    case 1
    then show ?thesis using assms(1) by simp
  next
    case (2 d)
    then show ?thesis using frameD(1,2,5,10,11,14,15) [OF 2(4)] inc ok assms(1) by auto
  next
    case 3
    then show ?thesis using frameD(1,2,5,10,11,14,15) [OF 3(2)] inc ok by simp
  qed
  with V show "vote_step n n'" and "log_ok (ndb n')" and "node_id n' = node_id n" and "peers n' = peers n"
    and "currentTerm n \<le> currentTerm n'" and "commitIndex n' = commitIndex n" and "lastApplied n' = lastApplied n"
    and "role n' = RoleLeader \<Longrightarrow> n' = n"
    and "\<And>round. r = Some round \<Longrightarrow> disk_vote (ndb n') = (cand_term round, node_id n) \<and> cand_peers round = peers n
          \<and> cand_majority round = majorityLocked n \<and> currentTerm n' = cand_term round"
    by blast+
qed

end
