(* ===== verification/Election_Props.thy ===== *)
theory Election_Props imports Votes
begin

text \<open>
  The properties of an election at one node: votes and candidacies are on disk before anybody hears
  of them, a vote goes to a log at least as complete as the voter's, and a node takes over exactly
  when a majority grants its request.
\<close>

section \<open>Votes\<close>

text \<open>
  C18: a granted vote is on disk, for the candidate and term of the request, when the reply is sent;
  the voter had given no other vote in that term, and the candidate's last log position is at or
  beyond its own.
\<close>

theorem granted_vote_is_durable:
  assumes "meta_ok (ndb n)" and "vote_ok n" and "RequestVote req n = (Inr resp, n')"
    and "VoteResp_VoteGranted resp"
  shows "disk_vote (ndb n') = (VoteReq_Term req, VoteReq_CandidateId req) \<and> mem_vote n' = disk_vote (ndb n')
    \<and> VoteResp_Term resp = VoteReq_Term req \<and> vote_le (mem_vote n) (mem_vote n')
    \<and> vote_le (disk_vote (ndb n)) (disk_vote (ndb n'))
    \<and> last_position (ndb n) \<le> Position (VoteReq_LastLogTerm req) (VoteReq_LastLogIndex req)"
proof (cases rule: RequestVote_outcome [OF assms(1,3)])
  case (4 d)
  note F = voter_node_fields [OF 4(2,1)] and D = frameD [OF 4(5)]
  note V = RequestVote_votes [OF assms(1-3)]
  have "last_position d = last_position (ndb n)"
    using 4(2) by (auto simp: adopted_def last_position_def view_simps split: if_splits)
  moreover have "vote_le (mem_vote n) (mem_vote n')"
    using 4(1,3) D(11,12) F(4,5) by (auto simp: vote_le_def mem_vote_def split: if_splits)
  ultimately show ?thesis
    using V(1) V(2) [OF refl assms(4)] D(11,12) F(4) 4(4,6) by (simp add: vote_step_def mem_vote_def)
qed (use assms(4) in auto)

definition example_vote :: RequestVoteRequest where
  "example_vote = \<lparr>VoteReq_Term = 3, VoteReq_CandidateId = ''n1'', VoteReq_LastLogIndex = 2, VoteReq_LastLogTerm = 2\<rparr>"

lemma example_vote_ok: "vote_ok (example_node i ps t (example_log ts))"
  by (auto simp: vote_ok_def vote_le_def disk_vote_def mem_vote_def word_gt_0)

lemma last_position_example: "last_position (example_log [1, 2]) = Position 2 2"
proof -
  have "fst (last_entry (example_log [1, 2])) = 2" using example_log_views(5) by (simp add: last_index_def)
  moreover have "snd (last_entry (example_log [1, 2])) = 2"
    using term_at_last [of "example_log [1, 2]"] term_at_entry [of "example_log [1, 2]" 2]
    by (simp add: example_entry_def)
  ultimately show ?thesis by (simp add: last_position_def case_prod_unfold)
qed

lemma example_vote_granted:
  obtains n' where "RequestVote example_vote (example_node ''n2'' [''n1''] 1 (example_log [1, 2]))
    = (Inr \<lparr>VoteResp_Term = 3, VoteResp_VoteGranted = True\<rparr>, n')"
proof -
  let ?n = "example_node ''n2'' [''n1''] 1 (example_log [1, 2])"
  obtain r n' where run: "RequestVote example_vote ?n = (r, n')" by fastforce
  have ok: "meta_ok (ndb ?n)" using log_ok_meta [of "example_log [1, 2]"] by simp
  show ?thesis
  proof (cases rule: RequestVote_outcome [OF ok run])
    case (3 d)
    have "last_position d = Position 2 2"
      using 3(2) last_position_example by (auto simp: adopted_def last_position_def view_simps split: if_splits)
    then show ?thesis using 3(4) voter_node_fields(5) [OF 3(2,1)] by (simp add: example_vote_def)
  next
    case (4 d)
    then show ?thesis using run that by (simp add: example_vote_def)
  qed (simp_all add: example_vote_def)
qed

theorem granted_vote_is_durable_witness:
  "\<exists>resp n'. RequestVote example_vote (example_node ''n2'' [''n1''] 1 (example_log [1, 2])) = (Inr resp, n')
     \<and> VoteResp_VoteGranted resp \<and> disk_vote (ndb n') = (3, ''n1'')"
proof -
  let ?n = "example_node ''n2'' [''n1''] 1 (example_log [1, 2])"
  obtain n' where run: "RequestVote example_vote ?n = (Inr \<lparr>VoteResp_Term = 3, VoteResp_VoteGranted = True\<rparr>, n')"
    by (rule example_vote_granted)
  have ok: "meta_ok (ndb ?n)" using log_ok_meta [of "example_log [1, 2]"] by simp
  show ?thesis
    using granted_vote_is_durable [OF ok example_vote_ok run] run by (simp add: example_vote_def)
qed

section \<open>Candidacy\<close>

text \<open>
  When \<open>becomeCandidate\<close> lets an election start, the node is a candidate of the next term with its
  vote for itself on disk, and the round carries the last position of its log; when it does not, no
  vote that was on disk is lost.
\<close>

lemma candidacy_is_durable:
  assumes "log_ok (ndb n)" and "vote_ok n" and "currentTerm n \<noteq> - 1" and "becomeCandidate n = (r, n')"
  shows "vote_le (disk_vote (ndb n)) (disk_vote (ndb n')) \<and> vote_ok n'
    \<and> (\<forall>round. r = Some round \<longrightarrow>
         role n \<noteq> RoleLeader \<and> role n' = RoleCandidate \<and> currentTerm n < currentTerm n'
         \<and> cand_term round = currentTerm n' \<and> disk_vote (ndb n') = (currentTerm n', node_id n)
         \<and> mem_vote n' = disk_vote (ndb n')
         \<and> Position (cand_lastLogTerm round) (cand_lastLogIndex round) = last_position (ndb n')
         \<and> cand_peers round = peers n \<and> cand_majority round = majorityLocked n)
    \<and> (r = None \<longrightarrow> role n = RoleLeader \<or> \<not> clean n)"
proof -
  note V = becomeCandidate_votes [OF log_ok_meta [OF assms(1)] assms(2-4)]
  show ?thesis
  proof (cases rule: becomeCandidate_outcome [OF log_ok_meta [OF assms(1)] assms(4)])
    case 3
    have "last_position (ndb n') = last_position (ndb n)"
      using frameD(1) [OF 3(2)] by (simp add: last_position_def view_simps)
    then show ?thesis
      using V frameD(10-12) [OF 3(2)] 3(1,3) assms(3)
      by (simp add: vote_step_def mem_vote_def last_position_def case_prod_unfold)
  qed (use V in \<open>simp_all add: vote_step_def\<close>)
qed

theorem candidacy_is_durable_witness:
  "\<exists>round n'. becomeCandidate (example_node ''n1'' [''n2''] 1 (example_log [1, 2])) = (Some round, n')
     \<and> disk_vote (ndb n') = (2, ''n1'')"
proof -
  let ?n = "example_node ''n1'' [''n2''] 1 (example_log [1, 2])"
  obtain r n' where run: "becomeCandidate ?n = (r, n')" by fastforce
  have "currentTerm ?n \<noteq> - 1" by simp
  note C = candidacy_is_durable [OF _ example_vote_ok this run]
  then obtain round where r: "r = Some round" by (cases r) auto
  have "currentTerm n' = 2"
    by (rule becomeCandidate_outcome [OF log_ok_meta run]) (use r in \<open>auto dest: frameD(11)\<close>)
  then show ?thesis using C run r by auto
qed

section \<open>Counting votes\<close>

definition granted :: "RequestVoteResponse option \<Rightarrow> bool" where
  "granted r \<longleftrightarrow> (case r of Some resp \<Rightarrow> VoteResp_VoteGranted resp | None \<Rightarrow> False)"

lemma granted_simps [simp]: "\<not> granted None" "granted (Some resp) = VoteResp_VoteGranted resp"
  by (simp_all add: granted_def)

text \<open>Whoever wins was a candidate of the round's term, and the votes counted reach the majority.\<close>

lemma collect_votes_only:
  assumes "log_ok (ndb n)" and "vote_ok n" and "commitIndex n \<le> max_int64" and "role n \<noteq> RoleLeader"
    and "role (collect_votes round v rs n) = RoleLeader"
  shows "cand_majority round \<le> v + length (filter granted rs) \<and> currentTerm n = cand_term round
    \<and> currentTerm (collect_votes round v rs n) = currentTerm n
    \<and> disk_vote (ndb (collect_votes round v rs n)) = disk_vote (ndb n)"
  using assms(5)
proof (induction rs arbitrary: v)
  case Nil
  then show ?case using assms(4) by simp
next
  case (Cons r rs)
  show ?case
  proof (cases r)
    case None
    then show ?thesis using Cons by (simp add: count_vote_def)
  next
    case (Some resp)
    obtain b n1 where o: "observeHigherTerm (VoteResp_Term resp) n = (b, n1)" by fastforce
    note O = observeHigherTerm_follows [OF assms(1,2) o]
    show ?thesis
    proof (cases b)
      case True
      then show ?thesis using O(2) Cons.prems Some o by (simp add: count_vote_def)
    next
      case False
      then have n1: "n1 = n" using O(3) by simp
      consider (no) "\<not> VoteResp_VoteGranted resp" | (win) "VoteResp_VoteGranted resp" "cand_majority round \<le> v + 1"
        | (more) "VoteResp_VoteGranted resp" "\<not> cand_majority round \<le> v + 1" by blast
      then show ?thesis
      proof cases
        case no
        then show ?thesis using Cons Some o False n1 by (simp add: count_vote_def)
      next
        case more
        then show ?thesis using Cons.IH [of "v + 1"] Cons.prems Some o False n1 by (simp add: count_vote_def)
      next
        case win
        then have eq: "collect_votes round v (r # rs) n = becomeLeader (cand_term round) n"
          using Some o False n1 by (simp add: count_vote_def)
        show ?thesis
        proof (cases rule: becomeLeader_outcome [OF assms(1,3), of "cand_term round"])
          case 1
          then show ?thesis using Cons.prems assms(4) frameD(10) [OF 1(1)] eq by simp
        next
          case (2 m)
          have "currentTerm m = currentTerm n" "disk_vote (ndb m) = disk_vote (ndb n)"
            using advancedD(1,7) [OF 2(3)] disk_vote_compacts by simp_all
          then show ?thesis using win(2) Some win(1) 2(2,4) unfolding eq by auto
        qed
      qed
    qed
  qed
qed

text \<open>A majority of granted votes, with no word of a newer term, makes a candidate the leader.\<close>

lemma collect_votes_wins:
  assumes "log_ok (ndb n)" and "clean n" and "commitIndex n \<le> max_int64" and "role n = RoleCandidate"
    and "currentTerm n = cand_term round"
    and "\<And>resp. Some resp \<in> set rs \<Longrightarrow> VoteResp_Term resp \<le> cand_term round"
    and "v < cand_majority round" and "cand_majority round \<le> v + length (filter granted rs)"
  shows "role (collect_votes round v rs n) = RoleLeader"
  using assms(6-8)
proof (induction rs arbitrary: v)
  case (Cons r rs)
  have o: "observeHigherTerm (VoteResp_Term resp) n = (False, n)" if "r = Some resp" for resp
    using Cons.prems(1) that assms(5) by (simp add: observeHigherTerm_def)
  consider (no) "\<not> granted r" | (win) resp where "r = Some resp" "VoteResp_VoteGranted resp" "cand_majority round \<le> v + 1"
    | (more) resp where "r = Some resp" "VoteResp_VoteGranted resp" "v + 1 < cand_majority round"
    by (cases r; cases "cand_majority round \<le> v + 1"; cases "granted r") auto
  then show ?case
  proof cases
    case no
    then have "count_vote round v r n = (Some v, n)" using o by (cases r) (auto simp: count_vote_def)
    then show ?thesis using Cons no by simp
  next
    case more
    then have "count_vote round v r n = (Some (v + 1), n)" using o by (simp add: count_vote_def)
    then show ?thesis using Cons.IH [of "v + 1"] Cons.prems more by simp
  next
    case win
    then have eq: "count_vote round v r n = (None, becomeLeader (cand_term round) n)" using o by (simp add: count_vote_def)
    have "role (becomeLeader (cand_term round) n) = RoleLeader"
    proof (cases rule: becomeLeader_outcome [OF assms(1,3), of "cand_term round"])
      case (2 m)
      then show ?thesis using advancedD(6) [OF 2(3)] by auto
    qed (use assms(2,4,5) in simp)
    then show ?thesis using eq by simp
  qed
qed simp

definition election_request :: "Node \<Rightarrow> RequestVoteRequest" where
  "election_request n =
     \<lparr>VoteReq_Term = currentTerm n + 1, VoteReq_CandidateId = node_id n,
      VoteReq_LastLogIndex = pos_index (last_position (ndb n)), VoteReq_LastLogTerm = pos_term (last_position (ndb n))\<rparr>"

lemma startElection_run:
  assumes "log_ok (ndb n)" and "becomeCandidate n = (Some round, n1)"
  shows "requestVote rpc p round n1 = rpc (Peer_ID p) (election_request n)"
    and "cand_peers round = peers n" and "cand_majority round = majorityLocked n" and "cand_term round = currentTerm n + 1"
    and "log_ok (ndb n1)" and "role n1 = RoleCandidate" and "currentTerm n1 = currentTerm n + 1"
    and "commitIndex n1 = commitIndex n" and "clean n \<Longrightarrow> clean n1"
    and "disk_vote (ndb n1) = (currentTerm n + 1, node_id n)" and "vote_ok n1"
proof -
  let ?d = "put_term_vote (currentTerm n + 1) (node_id n) (ndb n)"
  have "frame n1 (candidate_node ?d n) \<and> cand_term round = currentTerm n + 1
    \<and> cand_lastLogIndex round = fst (last_entry (ndb n)) \<and> cand_lastLogTerm round = snd (last_entry (ndb n))
    \<and> cand_peers round = peers n \<and> cand_majority round = majorityLocked n"
    by (rule becomeCandidate_outcome [OF log_ok_meta [OF assms(1)] assms(2)]) simp_all
  then have f: "frame n1 (candidate_node ?d n)" and c: "cand_term round = currentTerm n + 1"
    "cand_lastLogIndex round = fst (last_entry (ndb n))" "cand_lastLogTerm round = snd (last_entry (ndb n))"
    "cand_peers round = peers n" "cand_majority round = majorityLocked n" by simp_all
  note F = frameD [OF f]
  have "vote_request round (node_id n1) = election_request n"
    using F(2) c by (simp add: vote_request_def election_request_def last_position_def case_prod_unfold)
  then show "requestVote rpc p round n1 = rpc (Peer_ID p) (election_request n)"
    by (simp add: requestVote_def)
  show "cand_peers round = peers n" and "cand_majority round = majorityLocked n" and "cand_term round = currentTerm n + 1"
    and "log_ok (ndb n1)" and "role n1 = RoleCandidate" and "currentTerm n1 = currentTerm n + 1"
    and "commitIndex n1 = commitIndex n" and "clean n \<Longrightarrow> clean n1"
    and "disk_vote (ndb n1) = (currentTerm n + 1, node_id n)" and "vote_ok n1"
    using c F(1,10,11,12,14) log_ok_effects(1) [OF assms(1)] frame_clean [OF f]
    by (simp_all add: vote_ok_def mem_vote_def)
qed

text \<open>
  C19: a node that comes out of \<open>startElection\<close> as leader leads the next term, has its own vote for that
  term on disk, and was granted the vote by enough of the peers it heard from to reach a majority
  together with itself.
\<close>

theorem election_needs_majority:
  assumes "log_ok (ndb n)" and "commitIndex n \<le> max_int64" and "role n \<noteq> RoleLeader"
    and "role (startElection rpc arrivals n) = RoleLeader"
  shows "currentTerm (startElection rpc arrivals n) = currentTerm n + 1
    \<and> disk_vote (ndb (startElection rpc arrivals n)) = (currentTerm n + 1, node_id n)
    \<and> majorityLocked n \<le> 1 + length (filter (\<lambda>p. granted (rpc (Peer_ID p) (election_request n))) (arrivals (peers n)))"
proof -
  obtain r n1 where c: "becomeCandidate n = (r, n1)" by fastforce
  have "r \<noteq> None"
  proof
    assume "r = None"
    then have "startElection rpc arrivals n = n1" using c by (simp add: startElection_def)
    then show False
      using assms(3,4) by - (rule becomeCandidate_outcome [OF log_ok_meta [OF assms(1)] c], auto dest: frameD(10))
  qed
  then obtain round where r: "r = Some round" by auto
  note S = startElection_run [OF assms(1) c [unfolded r]]
  let ?rs = "map (\<lambda>p. rpc (Peer_ID p) (election_request n)) (arrivals (peers n))"
  show ?thesis
  proof (cases "majorityLocked n \<le> 1")
    case True
    then have eq: "startElection rpc arrivals n = becomeLeader (currentTerm n + 1) n1"
      using c r S(3,4) by (simp add: startElection_def)
    have "currentTerm (becomeLeader (currentTerm n + 1) n1) = currentTerm n1
      \<and> disk_vote (ndb (becomeLeader (currentTerm n + 1) n1)) = disk_vote (ndb n1)"
      by (rule becomeLeader_outcome [OF S(5), of "currentTerm n + 1"])
         (use S(8) assms(2) in \<open>auto dest: frameD(1,11) advancedD(7) disk_vote_compacts [OF advancedD(1)]\<close>)
    then show ?thesis using True S(7,10) by (simp add: eq)
  next
    case False
    then have eq: "startElection rpc arrivals n = collect_votes round 1 ?rs n1"
      using c r S(1-3) by (simp add: startElection_def)
    have "commitIndex n1 \<le> max_int64" "role n1 \<noteq> RoleLeader" using S(6,8) assms(2) by simp_all
    from collect_votes_only [OF S(5,11) this assms(4) [unfolded eq]]
    have w: "majorityLocked n \<le> 1 + length (filter granted ?rs)"
      "currentTerm (collect_votes round 1 ?rs n1) = currentTerm n + 1"
      "disk_vote (ndb (collect_votes round 1 ?rs n1)) = (currentTerm n + 1, node_id n)"
      using S(3,7,10) by simp_all
    then show ?thesis unfolding eq by (simp add: filter_map comp_def)
  qed
qed

definition grant_all :: "string \<Rightarrow> RequestVoteRequest \<Rightarrow> RequestVoteResponse option" where
  "grant_all p req = Some \<lparr>VoteResp_Term = VoteReq_Term req, VoteResp_VoteGranted = True\<rparr>"

lemma example_election_wins:
  "role (startElection grant_all id (example_node ''n1'' [''n2''] 1 (example_log [1, 2]))) = RoleLeader"
proof -
  let ?n = "example_node ''n1'' [''n2''] 1 (example_log [1, 2])"
  obtain r n1 where c: "becomeCandidate ?n = (r, n1)" by fastforce
  have "r \<noteq> None"
    by (rule becomeCandidate_outcome [OF log_ok_meta c]) auto
  then obtain round where r: "r = Some round" by auto
  have ok: "log_ok (ndb ?n)" by simp
  note S = startElection_run [OF ok c [unfolded r]]
  have m: "majorityLocked ?n = 2" by (simp add: majorityLocked_def)
  have "role (collect_votes round 1 [grant_all ''n2'' (election_request ?n)] n1) = RoleLeader"
    by (rule collect_votes_wins [OF S(5)]) (use S(3-9) m in \<open>auto simp: grant_all_def election_request_def\<close>)
  then show ?thesis using c r S(1-3) m by (simp add: startElection_def)
qed

theorem election_needs_majority_witness:
  "majorityLocked (example_node ''n1'' [''n2''] 1 (example_log [1, 2])) = 2
   \<and> disk_vote (ndb (startElection grant_all id (example_node ''n1'' [''n2''] 1 (example_log [1, 2])))) = (2, ''n1'')"
  using election_needs_majority [OF _ _ _ example_election_wins] by (simp add: majorityLocked_def)

text \<open>
  C20: conversely, when the store works, a majority of the peers grants the request and no reply carries
  a newer term, the node does become leader of the next term.
\<close>

theorem election_won:
  assumes "log_ok (ndb n)" and "clean n" and "commitIndex n \<le> max_int64" and "role n \<noteq> RoleLeader"
    and "\<forall>p \<in> set (arrivals (peers n)). \<forall>resp. rpc (Peer_ID p) (election_request n) = Some resp \<longrightarrow>
           VoteResp_Term resp \<le> currentTerm n + 1"
    and "majorityLocked n \<le> 1 + length (filter (\<lambda>p. granted (rpc (Peer_ID p) (election_request n))) (arrivals (peers n)))"
  shows "role (startElection rpc arrivals n) = RoleLeader"
proof -
  obtain r n1 where c: "becomeCandidate n = (r, n1)" by fastforce
  have "r \<noteq> None"
    by (rule becomeCandidate_outcome [OF log_ok_meta [OF assms(1)] c]) (use assms(2,4) in auto)
  then obtain round where r: "r = Some round" by auto
  note S = startElection_run [OF assms(1) c [unfolded r]]
  let ?rs = "map (\<lambda>p. rpc (Peer_ID p) (election_request n)) (arrivals (peers n))"
  have b: "commitIndex n1 \<le> max_int64" using S(8) assms(3) by simp
  show ?thesis
  proof (cases "majorityLocked n \<le> 1")
    case True
    then have eq: "startElection rpc arrivals n = becomeLeader (currentTerm n + 1) n1"
      using c r S(3,4) by (simp add: startElection_def)
    have "role (becomeLeader (currentTerm n + 1) n1) = RoleLeader"
      by (rule becomeLeader_outcome [OF S(5) b, of "currentTerm n + 1"])
         (use S(6,7,9) assms(2) in \<open>auto dest: advancedD(6)\<close>)
    then show ?thesis by (simp add: eq)
  next
    case False
    have "role (collect_votes round 1 ?rs n1) = RoleLeader"
      by (rule collect_votes_wins [OF S(5) S(9) [OF assms(2)] b S(6)])
         (use False S(3,4,7) assms(5,6) in \<open>auto simp: filter_map comp_def\<close>)
    then show ?thesis using False c r S(1-3) by (simp add: startElection_def)
  qed
qed

theorem election_won_witness:
  "role (startElection grant_all id (example_node ''n1'' [''n2'', ''n3''] 1 (example_log [1, 2]))) = RoleLeader"
  by (rule election_won)
     (simp_all add: grant_all_def election_request_def majorityLocked_def)

end
