(* ===== verification/Replication.thy ===== *)
theory Replication imports Votes
begin

text \<open>
  The leader's side of replication (the first half and the end of internal/raft/replication.go):
  building requests, the calls to a peer and what their replies change.

  A call leaves the node: \<open>'w\<close> is the state of the world outside it, which the calls read and change.
  Each call splits an operation into the critical section that prepares the request and the one that
  handles the reply; both are functions of their own, so that other operations of the node may run
  in between.  The composed operations run without such interference.
\<close>

section \<open>Positions\<close>

definition maxAppendRounds :: nat where
  "maxAppendRounds = 32"

datatype appendOutcome = appendAccepted | appendRejected | appendFailed

definition nextIndexLocked :: "string \<Rightarrow> Node \<Rightarrow> u64" where
  "nextIndexLocked peerID n = max (u64_at (nextIndex n) peerID) 1"

definition nextIndexAfterRejection :: "u64 \<Rightarrow> u64 \<Rightarrow> u64" where
  "nextIndexAfterRejection current followerLastIndex =
     (if followerLastIndex \<ge> current then followerLastIndex + 1
      else if current \<le> 1 then 1
      else max (min (current - 1) (followerLastIndex + 1)) 1)"

definition lastEntryIndex :: "AppendEntriesRequest \<Rightarrow> u64" where
  "lastEntryIndex req =
     (let entries = AppendReq_Entries req in
      if 0 < length entries then LogEntry_Index (entries ! (length entries - 1)) else AppendReq_PrevLogIndex req)"

definition recordPeerProgressLocked :: "string \<Rightarrow> u64 \<Rightarrow> Node \<Rightarrow> Node" where
  "recordPeerProgressLocked peerID match n =
     (let n1 = (if match > u64_at (matchIndex n) peerID then n\<lparr>matchIndex := (matchIndex n)(peerID \<mapsto> match)\<rparr> else n);
          n2 = n1\<lparr>nextIndex := (nextIndex n1)(peerID \<mapsto> u64_at (matchIndex n1) peerID + 1)\<rparr>
      in case on_store LastIndexAndTerm n2 of
           (Inl e, n3) \<Rightarrow> n3
         | (Inr (lastLogIndex, _), n3) \<Rightarrow>
             on_metrics (SetReplicationLag peerID
               (lastLogIndex - min lastLogIndex (u64_at (matchIndex n3) peerID))) n3)"

definition notePeerUnreachable :: "string \<Rightarrow> Node \<Rightarrow> Node" where
  "notePeerUnreachable peerID n =
     (if bool_at (unreachable n) peerID then n else n\<lparr>unreachable := (unreachable n)(peerID \<mapsto> True)\<rparr>)"

definition notePeerReachableLocked :: "string \<Rightarrow> Node \<Rightarrow> Node" where
  "notePeerReachableLocked peerID n =
     (if \<not> bool_at (unreachable n) peerID then n else n\<lparr>unreachable := (unreachable n)(peerID := None)\<rparr>)"

section \<open>Requests\<close>

definition peerNeedsSnapshot :: "string \<Rightarrow> Node \<Rightarrow> (error + bool) \<times> Node" where
  "peerNeedsSnapshot peerID n =
     (case on_store SnapshotIndexTerm n of
        (Inl e, n1) \<Rightarrow> (Inl e, n1)
      | (Inr (snapshotIndex, _), n1) \<Rightarrow> (Inr (nextIndexLocked peerID n1 \<le> snapshotIndex), n1))"

definition toLogEntry :: "Entry \<Rightarrow> LogEntry" where
  "toLogEntry e = \<lparr>LogEntry_Index = Entry_Index e, LogEntry_Term = Entry_Term e, LogEntry_Command = Entry_Command e\<rparr>"

text \<open>\<open>Inr None\<close>: the local log cannot describe the position the peer is at.\<close>

definition buildAppendRequestLocked :: "string \<Rightarrow> Node \<Rightarrow> (error + AppendEntriesRequest option) \<times> Node" where
  "buildAppendRequestLocked peerID n =
     (let next = nextIndexLocked peerID n; prevLogIndex = next - 1 in
      case on_store (Store_Term prevLogIndex) n of
        (Inl e, n1) \<Rightarrow> (Inl e, n1)
      | (Inr None, n1) \<Rightarrow> (Inr None, n1\<lparr>nextIndex := (nextIndex n1)(peerID \<mapsto> max prevLogIndex 1)\<rparr>)
      | (Inr (Some prevLogTerm), n1) \<Rightarrow>
          (case on_store (EntriesFrom next appendBatchSize) n1 of
             (Inl e, n2) \<Rightarrow> (Inl e, n2)
           | (Inr entries, n2) \<Rightarrow>
               (Inr (Some \<lparr>AppendReq_Term = currentTerm n2, AppendReq_LeaderId = node_id n2,
                           AppendReq_PrevLogIndex = prevLogIndex, AppendReq_PrevLogTerm = prevLogTerm,
                           AppendReq_Entries = map toLogEntry entries, AppendReq_LeaderCommit = commitIndex n2\<rparr>), n2)))"

text \<open>What \<open>sendEntries\<close> does with a reply, once the higher-term check has passed.\<close>

definition accept_reply :: "string \<Rightarrow> u64 \<Rightarrow> AppendEntriesRequest \<Rightarrow> AppendEntriesResponse \<Rightarrow> Node \<Rightarrow> appendOutcome \<times> Node" where
  "accept_reply peerID term req reply n =
     (let n1 = notePeerReachableLocked peerID n in
      if role n1 \<noteq> RoleLeader \<or> currentTerm n1 \<noteq> term then (appendFailed, n1)
      else if \<not> AppendResp_Success reply
      then (appendRejected, n1\<lparr>nextIndex := (nextIndex n1)(peerID \<mapsto>
              nextIndexAfterRejection (nextIndexLocked peerID n1) (AppendResp_MatchIndex reply))\<rparr>)
      else (appendAccepted, publishStateLocked (advanceCommitLocked
              (recordPeerProgressLocked peerID (max (AppendResp_MatchIndex reply) (lastEntryIndex req)) n1))))"

definition append_reply ::
  "string \<Rightarrow> u64 \<Rightarrow> AppendEntriesRequest \<Rightarrow> AppendEntriesResponse option \<Rightarrow> Node \<Rightarrow> appendOutcome \<times> Node" where
  "append_reply peerID term req reply n =
     (case reply of
        None \<Rightarrow> (appendFailed, notePeerUnreachable peerID n)
      | Some resp \<Rightarrow>
          (case observeHigherTerm (AppendResp_Term resp) n of
             (True, n1) \<Rightarrow> (appendFailed, n1)
           | (False, n1) \<Rightarrow> accept_reply peerID term req resp n1))"

text \<open>The snapshot request and what its reply changes.\<close>

definition build_snapshot :: "Node \<Rightarrow> (error + InstallSnapshotRequest) \<times> Node" where
  "build_snapshot n =
     (case on_store LoadSnapshot n of
        (Inl e, n1) \<Rightarrow> (Inl e, n1)
      | (Inr sn, n1) \<Rightarrow>
          (Inr \<lparr>SnapReq_Term = currentTerm n, SnapReq_LeaderId = node_id n1,
                SnapReq_LastIncludedIndex = LastIncludedIndex sn, SnapReq_LastIncludedTerm = LastIncludedTerm sn,
                SnapReq_Data = Snapshot_Data sn\<rparr>, n1))"

definition snapshot_reply :: "string \<Rightarrow> InstallSnapshotRequest \<Rightarrow> InstallSnapshotResponse option \<Rightarrow> Node \<Rightarrow> bool \<times> Node" where
  "snapshot_reply peerID req reply n =
     (case reply of
        None \<Rightarrow> (False, notePeerUnreachable peerID n)
      | Some resp \<Rightarrow>
          (case observeHigherTerm (SnapResp_Term resp) n of
             (True, n1) \<Rightarrow> (False, n1)
           | (False, n1) \<Rightarrow>
               let n2 = notePeerReachableLocked peerID n1 in
               if role n2 \<noteq> RoleLeader \<or> currentTerm n2 \<noteq> SnapReq_Term req then (False, n2)
               else (True, publishStateLocked (advanceCommitLocked
                       (recordPeerProgressLocked peerID (SnapReq_LastIncludedIndex req) n2)))))"

section \<open>Calls\<close>

record 'w network =
  net_append :: "string \<Rightarrow> AppendEntriesRequest \<Rightarrow> 'w \<Rightarrow> AppendEntriesResponse option \<times> 'w"
  net_snapshot :: "string \<Rightarrow> InstallSnapshotRequest \<Rightarrow> 'w \<Rightarrow> InstallSnapshotResponse option \<times> 'w"
  net_cancelled :: "'w \<Rightarrow> bool"

definition sendEntries :: "'w network \<Rightarrow> string \<Rightarrow> Node \<Rightarrow> 'w \<Rightarrow> appendOutcome \<times> Node \<times> 'w" where
  "sendEntries net peerID n w =
     (let term = currentTerm n in
      case buildAppendRequestLocked peerID n of
        (Inl e, n1) \<Rightarrow> (appendFailed, n1, w)
      | (Inr None, n1) \<Rightarrow> (appendRejected, n1, w)
      | (Inr (Some req), n1) \<Rightarrow>
          (case net_append net peerID req w of
             (reply, w1) \<Rightarrow>
               (case append_reply peerID term req reply n1 of (outcome, n2) \<Rightarrow> (outcome, n2, w1))))"

definition sendSnapshot :: "'w network \<Rightarrow> string \<Rightarrow> Node \<Rightarrow> 'w \<Rightarrow> bool \<times> Node \<times> 'w" where
  "sendSnapshot net peerID n w =
     (case build_snapshot n of
        (Inl e, n1) \<Rightarrow> (False, n1, w)
      | (Inr req, n1) \<Rightarrow>
          (case net_snapshot net peerID req w of
             (reply, w1) \<Rightarrow> (case snapshot_reply peerID req reply n1 of (ok, n2) \<Rightarrow> (ok, n2, w1))))"

text \<open>The rounds of \<open>replicatePeer\<close>; the first argument counts down the rounds that are left.\<close>

fun replicate_rounds :: "nat \<Rightarrow> 'w network \<Rightarrow> string \<Rightarrow> Node \<Rightarrow> 'w \<Rightarrow> bool \<times> Node \<times> 'w" where
  "replicate_rounds 0 net peerID n w = (False, n, w)"
| "replicate_rounds (Suc k) net peerID n w =
     (if net_cancelled net w \<or> \<not> isLeader n then (False, n, w)
      else case peerNeedsSnapshot peerID n of
        (Inl e, n1) \<Rightarrow> (False, n1, w)
      | (Inr True, n1) \<Rightarrow> sendSnapshot net peerID n1 w
      | (Inr False, n1) \<Rightarrow>
          (case sendEntries net peerID n1 w of
             (appendAccepted, n2, w1) \<Rightarrow> (True, n2, w1)
           | (appendFailed, n2, w1) \<Rightarrow> (False, n2, w1)
           | (appendRejected, n2, w1) \<Rightarrow> replicate_rounds k net peerID n2 w1))"

definition replicatePeer :: "'w network \<Rightarrow> string \<Rightarrow> Node \<Rightarrow> 'w \<Rightarrow> bool \<times> Node \<times> 'w" where
  "replicatePeer net peerID n w = replicate_rounds maxAppendRounds net peerID n w"

text \<open>\<open>replicateAll\<close> with the peers' goroutines one after the other.\<close>

fun replicate_each :: "'w network \<Rightarrow> Peer list \<Rightarrow> nat \<Rightarrow> Node \<Rightarrow> 'w \<Rightarrow> nat \<times> Node \<times> 'w" where
  "replicate_each net [] inSync n w = (inSync, n, w)"
| "replicate_each net (p # ps) inSync n w =
     (case replicatePeer net (Peer_ID p) n w of
        (ok, n1, w1) \<Rightarrow> replicate_each net ps (if ok then inSync + 1 else inSync) n1 w1)"

definition replicateAll :: "'w network \<Rightarrow> Node \<Rightarrow> 'w \<Rightarrow> nat \<times> Node \<times> 'w" where
  "replicateAll net n w = replicate_each net (peers n) 1 n w"

text \<open>
  One turn of the loop in \<open>runReplication\<close>: a heartbeat tick, or a wake-up that takes the token out of
  the peer's channel.
\<close>

definition replication_turn :: "bool \<Rightarrow> 'w network \<Rightarrow> string \<Rightarrow> Node \<Rightarrow> 'w \<Rightarrow> Node \<times> 'w" where
  "replication_turn tick net peerID n w =
     (let n1 = (if tick then n else n\<lparr>replicateNow := (replicateNow n)(peerID \<mapsto> False)\<rparr>) in
      if isLeader n1 then snd (replicatePeer net peerID n1 w) else (n1, w))"

section \<open>Batches\<close>

lemma rows_follow:
  assumes "map fst rows = [int64 p + 1 .. int64 q]" and "p \<le> q" and "q \<le> max_int64"
  shows "follows p (map entry_of_row rows)" and "end_index p (map entry_of_row rows) = q"
proof -
  have "follows p (map entry_of_row rows) \<and> end_index p (map entry_of_row rows) = q"
    using assms(1,2)
  proof (induction rows arbitrary: p)
    case Nil
    have "int64 q \<le> int64 p" using Nil(1) by simp
    then have "p = q" using Nil(2) assms(3) order_trans [OF Nil(2) assms(3)] by simp
    then show ?case by simp
  next
    case (Cons r rows)
    have ne: "int64 p + 1 \<le> int64 q" using Cons.prems(1) by (metis list.simps(3,9) upto_empty not_le)
    have pm: "p \<le> max_int64" using Cons.prems(2) assms(3) by (rule order_trans)
    have "p < q" using ne pm assms(3) by (metis int64_less_iff zless_iff_Suc_zadd zle_add1_eq_le add1_zle_eq)
    then have p: "p < max_int64" "p + 1 \<le> q" using assms(3) by (auto intro: inc_le order.strict_trans2)
    have k: "fst r = int64 (p + 1)" "map fst rows = [int64 (p + 1) + 1 .. int64 q]"
      using Cons.prems(1) ne by (simp_all add: upto_rec1 u64_inc_int64 [OF p(1)])
    have "Entry_Index (entry_of_row r) = p + 1" using k(1) by (cases r) simp
    then show ?case using Cons.IH [OF k(2) p(2)] p(1) by simp
  qed
  then show "follows p (map entry_of_row rows)" and "end_index p (map entry_of_row rows) = q" by simp_all
qed

text \<open>The rows of the log behind position \<open>p\<close>, and the entries a request from there carries.\<close>

definition rows_after :: "u64 \<Rightarrow> db \<Rightarrow> (int \<times> int \<times> bytes) list" where
  "rows_after p d = filter (\<lambda>(k, _). int64 p < k) (log_entries d)"

lemma rows_after_keys:
  assumes "log_ok d" and "snap_index d \<le> p" and "p \<le> max_int64"
  shows "map fst (rows_after p d) = [int64 p + 1 .. int64 (last_index d)]"
proof -
  have "map fst (rows_after p d) = filter (\<lambda>k. \<not> k \<le> int64 p) (map fst (log_entries d))"
    unfolding rows_after_def by (induction "log_entries d" arbitrary: d rule: list.induct) (auto simp: filter_map comp_def case_prod_unfold not_le)
  moreover have "int64 (snap_index d) \<le> int64 p" using assms by (simp add: log_ok_snap)
  ultimately show ?thesis by (simp add: log_keys [OF assms(1)] filter_upto(2))
qed

lemma batch_rows:
  assumes "log_ok d" and "snap_index d \<le> p" and "p < max_int64"
  shows "entries_from (p + 1) appendBatchSize d = take 128 (map entry_of_row (rows_after p d))"
proof -
  have "snap_index d < p + 1" using assms(2) u64_less_not_max [OF assms(3)] by (simp add: u64_less_inc_iff)
  then have "\<not> p + 1 \<le> snap_index d" by (rule linorder_not_le [THEN iffD2])
  moreover have "(\<lambda>k. int64 (p + 1) \<le> k) = (\<lambda>k. int64 p < k)"
    by (simp add: fun_eq_iff u64_inc_int64 [OF assms(3)] add1_zle_eq)
  ultimately show ?thesis
    using select_ordered_ok [OF db_okD(2) [OF log_okD(1) [OF assms(1)]], of "\<lambda>k. int64 p < k"]
    by (simp add: entries_from_def sql_limit_def appendBatchSize_def rows_after_def take_map)
qed

lemma rows_after_entry:
  assumes "log_ok d" and "r \<in> set (rows_after p d)"
  shows "entry_at d (Entry_Index (entry_of_row r)) = Some (entry_of_row r)"
proof -
  obtain k t c where r: "r = (k, t, c)" by (cases r)
  have row: "(k, t, c) \<in> set (log_entries d)" using assms(2) r by (auto simp: rows_after_def)
  then have "k \<in> set (map fst (log_entries d))" by force
  then have k: "int64 (snap_index d) < k" "k \<le> int64 (last_index d)"
    by (auto simp: log_keys [OF assms(1)])
  have "0 \<le> int64 (snap_index d)" "int64 (last_index d) \<le> int64 max_int64"
    using int64_le_iff [of 0 "snap_index d"] log_ok_snap [OF assms(1)] log_okD(3) [OF assms(1)] by simp_all
  then have "int64 (uint64 k) = k" using k by (intro int64_uint64) (auto simp: max_int64_def int64_def)
  then show ?thesis
    using row lookup_in_rows [OF db_okD(2) [OF log_okD(1) [OF assms(1)]]] by (simp add: r entry_at_def)
qed

lemma follows_length: "follows p es \<Longrightarrow> p \<le> max_int64 \<Longrightarrow> unat (end_index p es) = unat p + length es"
proof (induction es arbitrary: p)
  case (Cons e es)
  then have i: "p < max_int64" and m: "p + 1 \<le> max_int64" and f: "follows (p + 1) es" and e: "Entry_Index e = p + 1"
    by (auto intro: inc_le)
  then show ?case using Cons.IH [OF f m] u64_unat_inc [OF u64_less_not_max [OF i]] by simp
qed simp

lemma batch_spec:
  assumes "log_ok d" and "snap_index d \<le> p" and "p < max_int64"
  defines "es \<equiv> entries_from (p + 1) appendBatchSize d"
  shows "follows p es" and "e \<in> set es \<Longrightarrow> entry_at d (Entry_Index e) = Some e" and "length es \<le> 128"
    and "p \<le> last_index d \<Longrightarrow> end_index p es \<le> last_index d"
    and "p < last_index d \<Longrightarrow> p < end_index p es"
    and "last_index d \<le> p \<Longrightarrow> es = []"
    and "p \<le> last_index d \<Longrightarrow> last_index d - p \<le> 128 \<Longrightarrow> end_index p es = last_index d"
    and "p \<le> last_index d \<Longrightarrow> unat (end_index p es) = min (unat (last_index d)) (unat p + 128)"
proof -
  let ?all = "map entry_of_row (rows_after p d)"
  have es: "es = take 128 ?all" unfolding es_def by (rule batch_rows [OF assms(1-3)])
  have pm: "p \<le> max_int64" using assms(3) by simp
  note keys = rows_after_keys [OF assms(1,2) pm]
  note lm = log_okD(3) [OF assms(1)]
  show "length es \<le> 128" by (simp add: es)
  show "e \<in> set es \<Longrightarrow> entry_at d (Entry_Index e) = Some e"
    using rows_after_entry [OF assms(1)] by (auto simp: es dest!: in_set_takeD)
  show none: "last_index d \<le> p \<Longrightarrow> es = []"
    using keys lm pm by (simp add: es)
  have all: "follows p ?all" "end_index p ?all = last_index d" if "p \<le> last_index d"
    using rows_follow [OF keys that lm] by simp_all
  have split: "follows p es" "end_index (end_index p es) (drop 128 ?all) = last_index d"
      "follows (end_index p es) (drop 128 ?all)" if "p \<le> last_index d"
    using all [OF that] follows_append [of p es "drop 128 ?all"] end_index_append [of p es "drop 128 ?all"]
    by (simp_all add: es)
  show "follows p es"
    using split(1) none by (cases "p \<le> last_index d") (simp_all add: not_le less_imp_le)
  show le: "end_index p es \<le> last_index d" if "p \<le> last_index d"
    using split [OF that] follows_end [OF split(1) [OF that] pm] follows_end [OF split(3) [OF that]] by simp
  show "p < end_index p es" if "p < last_index d"
  proof -
    have "es \<noteq> []" using all(2) [OF less_imp_le [OF that]] that by (auto simp: es)
    then obtain e where "e \<in> set es" by (cases es) auto
    note f = split(1) [OF less_imp_le [OF that]]
    show ?thesis
      using follows_index [OF f pm \<open>e \<in> set es\<close>] follows_index_end [OF f pm \<open>e \<in> set es\<close>]
      by (auto intro: order.strict_trans2)
  qed
  have len: "length (rows_after p d) = unat (last_index d) - unat p"
  proof -
    have "int64 (last_index d) = int (unat (last_index d))" "int64 p = int (unat p)"
      using lm pm by (simp_all add: int64_eq_uint)
    then show ?thesis using arg_cong [OF keys, of length] by (simp add: nat_diff_distrib')
  qed
  show unat: "unat (end_index p es) = min (unat (last_index d)) (unat p + 128)" if "p \<le> last_index d"
  proof -
    have "unat p \<le> unat (last_index d)" using that by (simp add: word_le_nat_alt)
    moreover have "length es = min 128 (unat (last_index d) - unat p)" by (simp add: es len min.commute)
    ultimately show ?thesis using follows_length [OF split(1) [OF that] pm] by linarith
  qed
  show "end_index p es = last_index d" if "p \<le> last_index d" "last_index d - p \<le> 128"
    using unat [OF that(1)] that by (simp add: word_unat_eq_iff word_le_nat_alt unat_sub)
qed

section \<open>Laws\<close>

text \<open>
  \<open>tracks n' n\<close>: only what a leader knows about its peers, and what \<open>frame\<close> leaves open, differs.
\<close>

definition tracks :: "Node \<Rightarrow> Node \<Rightarrow> bool" where
  "tracks n' n \<longleftrightarrow>
     frame n' (n\<lparr>nextIndex := nextIndex n', matchIndex := matchIndex n', unreachable := unreachable n',
                 replicateNow := replicateNow n'\<rparr>)"

lemma tracksD:
  assumes "tracks n' n"
  shows "ndb n' = ndb n" and "node_id n' = node_id n" and "peers n' = peers n" and "role n' = role n"
    and "currentTerm n' = currentTerm n" and "votedFor n' = votedFor n" and "leaderID n' = leaderID n"
    and "commitIndex n' = commitIndex n" and "lastApplied n' = lastApplied n" and "clean n \<Longrightarrow> clean n'"
    and "snapshotThreshold n' = snapshotThreshold n"
  using frameD [OF assms [unfolded tracks_def]] frame_clean [OF assms [unfolded tracks_def]] by simp_all

lemma tracks_frame: "frame n' n \<Longrightarrow> tracks n' n"
  using frameD(16-20) [of n' n] by (simp add: tracks_def)

lemma tracks_refl [simp]: "tracks n n"
  by (simp add: tracks_frame)

lemma tracks_trans: "tracks n'' n' \<Longrightarrow> tracks n' n \<Longrightarrow> tracks n'' n"
  by (auto simp: tracks_def frame_def same_iff)

lemma tracks_upd [simp]:
  "tracks (n\<lparr>nextIndex := nx\<rparr>) n" "tracks (n\<lparr>matchIndex := mt\<rparr>) n" "tracks (n\<lparr>unreachable := un\<rparr>) n"
  "tracks (n\<lparr>replicateNow := rn\<rparr>) n"
  by (simp_all add: tracks_def)

lemma tracks_peers [simp]:
  "tracks (notePeerUnreachable p n) n" "tracks (notePeerReachableLocked p n) n" "tracks (signalReplication n) n"
  by (simp_all add: notePeerUnreachable_def notePeerReachableLocked_def signalReplication_def)

lemma follows_votes_tracks:
  assumes "follows_votes n m" and "tracks n' m"
  shows "follows_votes n n'"
  using assms tracksD(1-6) [OF assms(2)]
  by (simp add: follows_votes_def vote_step_def vote_ok_def mem_vote_def)

text \<open>The progress a leader records never goes back, and the next index follows it.\<close>

definition progressed :: "string \<Rightarrow> u64 \<Rightarrow> Node \<Rightarrow> Node" where
  "progressed p m n =
     (let mt = (if m > u64_at (matchIndex n) p then (matchIndex n)(p \<mapsto> m) else matchIndex n)
      in n\<lparr>matchIndex := mt, nextIndex := (nextIndex n)(p \<mapsto> u64_at mt p + 1)\<rparr>)"

lemma progressed_fields [simp]:
  "store (progressed p m n) = store n" "node_id (progressed p m n) = node_id n" "peers (progressed p m n) = peers n"
  "role (progressed p m n) = role n" "currentTerm (progressed p m n) = currentTerm n"
  "votedFor (progressed p m n) = votedFor n" "commitIndex (progressed p m n) = commitIndex n"
  "lastApplied (progressed p m n) = lastApplied n"
  "u64_at (matchIndex (progressed p m n)) q =
     (if q = p then max (u64_at (matchIndex n) p) m else u64_at (matchIndex n) q)"
  "u64_at (nextIndex (progressed p m n)) q =
     (if q = p then max (u64_at (matchIndex n) p) m + 1 else u64_at (nextIndex n) q)"
  by (auto simp: progressed_def Let_def max_def)

lemma tracks_progressed [simp]: "tracks (progressed p m n) n"
  unfolding progressed_def Let_def by (rule tracks_trans [OF tracks_upd(1) tracks_upd(2)])

lemma recordPeerProgressLocked_frame:
  assumes "meta_ok (ndb n)"
  shows "frame (recordPeerProgressLocked p m n) (progressed p m n)"
proof -
  define mt where "mt = (if m > u64_at (matchIndex n) p then (matchIndex n)(p \<mapsto> m) else matchIndex n)"
  define n2 where "n2 = n\<lparr>matchIndex := mt, nextIndex := (nextIndex n)(p \<mapsto> u64_at mt p + 1)\<rparr>"
  obtain r n3 where a: "on_store LastIndexAndTerm n2 = (r, n3)" by fastforce
  have "meta_ok (ndb n2)" using assms(1) by (simp add: n2_def)
  note A = on_store_answers [OF LastIndexAndTerm_answers this a]
  let ?n1 = "if m > u64_at (matchIndex n) p then n\<lparr>matchIndex := (matchIndex n)(p \<mapsto> m)\<rparr> else n"
  have "?n1\<lparr>nextIndex := (nextIndex ?n1)(p \<mapsto> u64_at (matchIndex ?n1) p + 1)\<rparr> = n2"
    by (simp add: n2_def mt_def)
  then have "recordPeerProgressLocked p m n = (case (r, n3) of (Inl e, n3) \<Rightarrow> n3
      | (Inr (i, _), n3) \<Rightarrow> on_metrics (SetReplicationLag p (i - min i (u64_at (matchIndex n3) p))) n3)"
    unfolding recordPeerProgressLocked_def Let_def by (simp only: a [symmetric])
  then have "frame (recordPeerProgressLocked p m n) n2"
    using A(1) by (cases r) (auto intro: frame_trans [OF frame_metrics])
  then show ?thesis by (simp only: n2_def progressed_def mt_def Let_def)
qed

lemma buildAppendRequestLocked_outcome:
  assumes "log_ok (ndb n)" and "buildAppendRequestLocked q n = (r, n')"
  defines "p \<equiv> nextIndexLocked q n - 1"
  obtains (failed) "isl r" and "\<not> clean n" and "frame n' n"
  | (unknown) "r = Inr None" and "term_at (ndb n) p = None" and "frame n' (n\<lparr>nextIndex := (nextIndex n)(q \<mapsto> max p 1)\<rparr>)"
  | (built) t where "term_at (ndb n) p = Some t" and "frame n' n"
      and "r = Inr (Some \<lparr>AppendReq_Term = currentTerm n, AppendReq_LeaderId = node_id n, AppendReq_PrevLogIndex = p,
             AppendReq_PrevLogTerm = t,
             AppendReq_Entries = map toLogEntry (entries_from (p + 1) appendBatchSize (ndb n)),
             AppendReq_LeaderCommit = commitIndex n\<rparr>)"
proof -
  have p: "nextIndexLocked q n = p + 1" by (simp add: p_def)
  obtain r1 n1 where a: "on_store (Store_Term p) n = (r1, n1)" by fastforce
  note A = on_store_answers [OF Store_Term_answers log_ok_meta [OF assms(1)] a]
  note F = frameD [OF A(1)]
  obtain r2 n2 where b: "on_store (EntriesFrom (p + 1) appendBatchSize) n1 = (r2, n2)" by fastforce
  have "meta_ok (ndb n1)" using F(1) log_ok_meta [OF assms(1)] by simp
  note B = on_store_answers [OF EntriesFrom_answers this b, unfolded F(1)]
  have f2: "frame n2 n" using B(1) A(1) by (rule frame_trans)
  note run = assms(2) [unfolded buildAppendRequestLocked_def Let_def p add_diff_cancel_right', unfolded a]
  show ?thesis
  proof (cases r1)
    case (Inl e)
    then show ?thesis using run A(1) A(3) [OF Inl] by (intro failed) auto
  next
    case (Inr known)
    have k: "known = term_at (ndb n) p" using A(2) [OF Inr] .
    show ?thesis
    proof (cases known)
      case None
      then have "r = Inr None" "n' = n1\<lparr>nextIndex := (nextIndex n1)(q \<mapsto> max p 1)\<rparr>" using run Inr by simp_all
      then show ?thesis using frame_upd(7) [OF A(1)] F(16) k None by (intro unknown) simp_all
    next
      case (Some t)
      show ?thesis
      proof (cases r2)
        case e: (Inl e)
        then show ?thesis using run Inr Some b f2 B(3) [OF e] frame_clean [OF A(1)] by (intro failed) auto
      next
        case es: (Inr es)
        have "es = entries_from (p + 1) appendBatchSize (ndb n)" using B(2) [OF es] .
        then have "r = Inr (Some \<lparr>AppendReq_Term = currentTerm n, AppendReq_LeaderId = node_id n, AppendReq_PrevLogIndex = p,
             AppendReq_PrevLogTerm = t, AppendReq_Entries = map toLogEntry (entries_from (p + 1) appendBatchSize (ndb n)),
             AppendReq_LeaderCommit = commitIndex n\<rparr>)" "n' = n2"
          using run Inr Some b es frameD(2,11,14) [OF f2] by simp_all
        then show ?thesis using f2 k Some by (intro built [of t]) simp_all
      qed
    qed
  qed
qed

lemma peerNeedsSnapshot_answers:
  assumes "meta_ok (ndb n)" and "peerNeedsSnapshot p n = (r, n')"
  shows "frame n' n" and "\<And>b. r = Inr b \<Longrightarrow> b \<longleftrightarrow> nextIndexLocked p n \<le> snap_index (ndb n)"
    and "clean n \<Longrightarrow> r = Inr (nextIndexLocked p n \<le> snap_index (ndb n)) \<and> n' = n"
proof -
  obtain r1 n1 where a: "on_store SnapshotIndexTerm n = (r1, n1)" by fastforce
  note A = on_store_answers [OF SnapshotIndexTerm_answers assms(1) a]
  have ni: "nextIndexLocked p n1 = nextIndexLocked p n" using frameD(16) [OF A(1)] by (simp add: nextIndexLocked_def)
  show "frame n' n" using assms(2) a A(1) by (cases r1) (auto simp: peerNeedsSnapshot_def)
  show "b \<longleftrightarrow> nextIndexLocked p n \<le> snap_index (ndb n)" if "r = Inr b" for b
  proof (cases r1)
    case (Inr x)
    then show ?thesis using that assms(2) a A(2) [OF Inr] ni by (auto simp: peerNeedsSnapshot_def)
  qed (use that assms(2) a in \<open>simp add: peerNeedsSnapshot_def\<close>)
  show "r = Inr (nextIndexLocked p n \<le> snap_index (ndb n)) \<and> n' = n" if "clean n"
    using assms(2) a A(4) [OF that] by (auto simp: peerNeedsSnapshot_def)
qed

text \<open>The end of \<open>sendEntries\<close> and of \<open>sendSnapshot\<close>: record the progress, commit and publish.\<close>

lemma advanceCommitLocked_log_ok:
  assumes "log_ok (ndb n)"
  shows "log_ok (ndb (advanceCommitLocked n))"
  using advanceCommitLocked_run [OF assms]
proof (elim disjE exE conjE)
  assume "frame (advanceCommitLocked n) n"
  then show ?thesis using frameD(1) assms by simp
next
  fix m assume m: "frame m (n\<lparr>commitIndex := commit_target n\<rparr>)" and eq: "advanceCommitLocked n = applyCommittedLocked m"
  have "log_ok (ndb m)" using frameD(1) [OF m] assms by simp
  from advanced_log_ok [OF applyCommittedLocked_advanced [OF this]] show ?thesis by (simp add: eq)
qed

lemma progress_published:
  assumes "log_ok (ndb n)"
  obtains k where "frame k (progressed p m n)"
    and "frame (publishStateLocked (advanceCommitLocked (recordPeerProgressLocked p m n))) (advanceCommitLocked k)"
    and "commitIndex n \<le> max_int64 \<Longrightarrow> advanced (advanceCommitLocked k) (progressed p m n)"
proof -
  let ?k = "recordPeerProgressLocked p m n"
  have f: "frame ?k (progressed p m n)" by (rule recordPeerProgressLocked_frame [OF log_ok_meta [OF assms]])
  have ok: "log_ok (ndb ?k)" using frameD(1) [OF f] assms by simp
  have okp: "log_ok (ndb (progressed p m n))" using assms by simp
  have A: "advanced (advanceCommitLocked ?k) ?k" if "commitIndex n \<le> max_int64"
    using advanceCommitLocked_advanced(1) [OF ok] frameD(14) [OF f] that by simp
  have "meta_ok (ndb (advanceCommitLocked ?k))"
    by (rule log_ok_meta [OF advanceCommitLocked_log_ok [OF ok]])
  then show ?thesis
    using that [OF f publishStateLocked_frame] advanced_trans [OF A advanced_frame [OF okp f]] by blast
qed

lemma append_reply_outcome:
  assumes "log_ok (ndb n)" and "append_reply p t req reply n = (out, n')"
  obtains (unreachable) "reply = None" and "out = appendFailed" and "tracks n' n"
  | (deposed) resp where "reply = Some resp" and "out = appendFailed"
      and "observeHigherTerm (AppendResp_Term resp) n = (True, n')"
  | (late) resp where "reply = Some resp" and "out = appendFailed" and "tracks n' n"
      and "role n \<noteq> RoleLeader \<or> currentTerm n \<noteq> t"
  | (rejected) resp m where "reply = Some resp" and "out = appendRejected" and "role n = RoleLeader" and "currentTerm n = t"
      and "\<not> AppendResp_Success resp" and "AppendResp_Term resp \<le> t" and "m = notePeerReachableLocked p n"
      and "n' = m\<lparr>nextIndex := (nextIndex m)(p \<mapsto>
              nextIndexAfterRejection (nextIndexLocked p m) (AppendResp_MatchIndex resp))\<rparr>"
  | (accepted) resp k where "reply = Some resp" and "out = appendAccepted" and "role n = RoleLeader" and "currentTerm n = t"
      and "AppendResp_Success resp" and "AppendResp_Term resp \<le> t"
      and "frame k (progressed p (max (AppendResp_MatchIndex resp) (lastEntryIndex req)) (notePeerReachableLocked p n))"
      and "frame n' (advanceCommitLocked k)"
proof (cases reply)
  case None
  then show ?thesis using assms(2) by (intro unreachable) (auto simp: append_reply_def)
next
  case (Some resp)
  obtain b n1 where o: "observeHigherTerm (AppendResp_Term resp) n = (b, n1)" by fastforce
  show ?thesis
  proof (cases b)
    case True
    then show ?thesis using assms(2) Some o by (intro deposed [OF Some]) (auto simp: append_reply_def)
  next
    case False
    then have n1: "n1 = n" "AppendResp_Term resp \<le> currentTerm n"
      using o by (auto simp: observeHigherTerm_def split: if_splits)
    have run: "accept_reply p t req resp n = (out, n')" using assms(2) Some o False n1 by (simp add: append_reply_def)
    define m where "m = notePeerReachableLocked p n"
    have tm: "tracks m n" by (simp add: m_def)
    note T = tracksD [OF tm]
    show ?thesis
    proof (cases "role n \<noteq> RoleLeader \<or> currentTerm n \<noteq> t")
      case True
      then have "out = appendFailed" "n' = m"
        using run T(4,5) by (auto simp: accept_reply_def Let_def m_def)
      then show ?thesis using True tm by (intro late [OF Some]) simp_all
    next
      case lead: False
      show ?thesis
      proof (cases "AppendResp_Success resp")
        case True
        have "log_ok (ndb m)" using T(1) assms(1) by simp
        then obtain k where "frame k (progressed p (max (AppendResp_MatchIndex resp) (lastEntryIndex req)) m)"
          and "frame (publishStateLocked (advanceCommitLocked
            (recordPeerProgressLocked p (max (AppendResp_MatchIndex resp) (lastEntryIndex req)) m))) (advanceCommitLocked k)"
          by (rule progress_published) blast
        then show ?thesis
          using run lead True T(4,5) n1(2) by (intro accepted [OF Some, of k]) (auto simp: accept_reply_def Let_def m_def)
      next
        case no: False
        then have "out = appendRejected" "n' = m\<lparr>nextIndex := (nextIndex m)(p \<mapsto>
              nextIndexAfterRejection (nextIndexLocked p m) (AppendResp_MatchIndex resp))\<rparr>"
          using run lead T(4,5) by (auto simp: accept_reply_def Let_def m_def)
        then show ?thesis using lead no n1(2) by (intro rejected [OF Some, of m]) (auto simp: m_def)
      qed
    qed
  qed
qed

lemma build_snapshot_outcome:
  assumes "meta_ok (ndb n)" and "build_snapshot n = (r, n')"
  defines "sn \<equiv> saved_snapshot (ndb n)"
  shows "frame n' n"
    and "\<And>req. r = Inr req \<Longrightarrow> req = \<lparr>SnapReq_Term = currentTerm n, SnapReq_LeaderId = node_id n,
          SnapReq_LastIncludedIndex = LastIncludedIndex sn, SnapReq_LastIncludedTerm = LastIncludedTerm sn,
          SnapReq_Data = Snapshot_Data sn\<rparr>"
    and "clean n \<Longrightarrow> \<not> isl r"
proof -
  obtain r1 n1 where a: "on_store LoadSnapshot n = (r1, n1)" by fastforce
  note A = on_store_answers [OF LoadSnapshot_answers assms(1) a, folded sn_def]
  show "frame n' n" using assms(2) a A(1) by (cases r1) (auto simp: build_snapshot_def)
  show "req = \<lparr>SnapReq_Term = currentTerm n, SnapReq_LeaderId = node_id n,
          SnapReq_LastIncludedIndex = LastIncludedIndex sn, SnapReq_LastIncludedTerm = LastIncludedTerm sn,
          SnapReq_Data = Snapshot_Data sn\<rparr>" if "r = Inr req" for req
  proof (cases r1)
    case (Inr x)
    then show ?thesis using that assms(2) a A(2) [OF Inr] frameD(2) [OF A(1)] by (auto simp: build_snapshot_def)
  qed (use that assms(2) a in \<open>simp add: build_snapshot_def\<close>)
  show "\<not> isl r" if "clean n"
    using assms(2) a A(4) [OF that] by (auto simp: build_snapshot_def)
qed

lemma snapshot_reply_outcome:
  assumes "log_ok (ndb n)" and "snapshot_reply p req reply n = (ok, n')"
  obtains (kept) "\<not> ok" and "tracks n' n"
  | (deposed) resp where "\<not> ok" and "reply = Some resp" and "observeHigherTerm (SnapResp_Term resp) n = (True, n')"
  | (shipped) resp k where ok and "reply = Some resp" and "role n = RoleLeader" and "currentTerm n = SnapReq_Term req"
      and "frame k (progressed p (SnapReq_LastIncludedIndex req) (notePeerReachableLocked p n))"
      and "frame n' (advanceCommitLocked k)"
proof (cases reply)
  case None
  then show ?thesis using assms(2) by (intro kept) (auto simp: snapshot_reply_def)
next
  case (Some resp)
  obtain b n1 where o: "observeHigherTerm (SnapResp_Term resp) n = (b, n1)" by fastforce
  define m where "m = notePeerReachableLocked p n"
  have tm: "tracks m n" by (simp add: m_def)
  note T = tracksD [OF tm]
  show ?thesis
  proof (cases b)
    case True
    then show ?thesis using assms(2) Some o by (intro deposed [OF _ Some]) (auto simp: snapshot_reply_def)
  next
    case False
    then have n1: "n1 = n" using o by (auto simp: observeHigherTerm_def split: if_splits)
    show ?thesis
    proof (cases "role n \<noteq> RoleLeader \<or> currentTerm n \<noteq> SnapReq_Term req")
      case True
      then have "\<not> ok \<and> n' = m"
        using assms(2) Some o False n1 T(4,5) by (auto simp: snapshot_reply_def Let_def m_def)
      then show ?thesis using tm by (intro kept) simp_all
    next
      case lead: False
      have "log_ok (ndb m)" using T(1) assms(1) by simp
      then obtain k where "frame k (progressed p (SnapReq_LastIncludedIndex req) m)"
        and "frame (publishStateLocked (advanceCommitLocked
              (recordPeerProgressLocked p (SnapReq_LastIncludedIndex req) m))) (advanceCommitLocked k)"
        by (rule progress_published) blast
      then show ?thesis
        using assms(2) Some o False n1 lead T(4,5)
        by (intro shipped [OF _ Some, of k]) (auto simp: snapshot_reply_def Let_def m_def)
    qed
  qed
qed

text \<open>A leader's reply handlers keep the votes and the log and give the role up only to a newer term.\<close>

lemma follows_votes_progress:
  assumes "log_ok (ndb n)" and "vote_ok n" and "commitIndex n \<le> max_int64"
    and "frame k (progressed p m (notePeerReachableLocked p n))" and "frame n' (advanceCommitLocked k)"
  shows "follows_votes n n'"
proof -
  note K = frameD [OF assms(4)] and T = tracksD [OF tracks_peers(2) [of p n]]
  have k: "follows_votes n k"
    using follows_votes_frame [OF follows_votes_tracks [OF follows_votes_tracks [OF follows_votes_refl [OF assms(2,1)]
        tracks_peers(2)] tracks_progressed] assms(4)] .
  have "log_ok (ndb k)" "commitIndex k \<le> max_int64" using K(1,14) T(1,8) assms(1,3) by simp_all
  from follows_votes_advanced [OF k advanceCommitLocked_advanced(1) [OF this]]
  show ?thesis using assms(5) by (rule follows_votes_frame)
qed

lemma append_reply_follows:
  assumes "log_ok (ndb n)" and "vote_ok n" and "commitIndex n \<le> max_int64"
    and "append_reply p t req reply n = (out, n')"
  shows "follows_votes n n'"
proof (cases rule: append_reply_outcome [OF assms(1,4)])
  case (2 resp)
  then show ?thesis using observeHigherTerm_follows(1) [OF assms(1,2)] by blast
next
  case (4 resp m)
  have "tracks n' n"
    unfolding 4(8) by (rule tracks_trans [OF tracks_upd(1)]) (simp add: 4(7))
  then show ?thesis using follows_votes_tracks [OF follows_votes_refl [OF assms(2,1)]] by blast
next
  case (5 resp k)
  then show ?thesis using follows_votes_progress [OF assms(1-3)] by blast
qed (use follows_votes_tracks [OF follows_votes_refl [OF assms(2,1)]] in blast)+

lemma snapshot_reply_follows:
  assumes "log_ok (ndb n)" and "vote_ok n" and "commitIndex n \<le> max_int64"
    and "snapshot_reply p req reply n = (ok, n')"
  shows "follows_votes n n'"
proof (cases rule: snapshot_reply_outcome [OF assms(1,4)])
  case 1
  then show ?thesis using follows_votes_tracks [OF follows_votes_refl [OF assms(2,1)]] by blast
next
  case (2 resp)
  then show ?thesis using observeHigherTerm_follows(1) [OF assms(1,2)] by blast
next
  case (3 resp k)
  then show ?thesis using follows_votes_progress [OF assms(1-3)] by blast
qed

end
