(* ===== verification/Client.thy ===== *)
theory Client imports Replication
begin

text \<open>
  The client API of a node (internal/raft/client.go): writes, deletes and reads with their
  forwarding to the leader, the wait for a commit, and the two inspection calls.
\<close>

section \<open>Calls and contexts\<close>

text \<open>The metadata of a call's context: what came in with it, and what goes out with calls made under it.\<close>

record Context =
  ctx_incoming :: "(string \<rightharpoonup> string list) option"
  ctx_outgoing :: "string \<rightharpoonup> string list"

definition forwardedHeader :: string where
  "forwardedHeader = ''x-raft-forwarded''"

definition forwardContext :: "Context \<Rightarrow> Context" where
  "forwardContext ctx =
     ctx\<lparr>ctx_outgoing := (ctx_outgoing ctx)(forwardedHeader \<mapsto>
            (case ctx_outgoing ctx forwardedHeader of None \<Rightarrow> [] | Some vs \<Rightarrow> vs) @ [''true''])\<rparr>"

definition wasForwarded :: "Context \<Rightarrow> bool" where
  "wasForwarded ctx \<longleftrightarrow>
     (case ctx_incoming ctx of
        None \<Rightarrow> False
      | Some md \<Rightarrow> 0 < length (case md forwardedHeader of None \<Rightarrow> [] | Some vs \<Rightarrow> vs))"

definition notLeaderError :: "string \<Rightarrow> status" where
  "notLeaderError lid =
     (if lid = [] then Status Unavailable ''no leader has been elected yet''
      else Statusf Unavailable ''this node is not the leader, try %q'' [lid])"

text \<open>\<open>Inr None\<close>: this node is the leader itself.\<close>

definition leaderClient :: "Context \<Rightarrow> Node \<Rightarrow> status + string option" where
  "leaderClient ctx n =
     (if role n = RoleLeader then Inr None
      else if leaderID n = [] then Inl (Status Unavailable ''no leader has been elected yet'')
      else if wasForwarded ctx then Inl (notLeaderError (leaderID n))
      else case kvClients n (leaderID n) of
        None \<Rightarrow> Inl (Statusf Internal ''leader %q is not a configured peer'' [leaderID n])
      | Some client \<Rightarrow> Inr (Some client))"

section \<open>Writing\<close>

definition appendClientEntry :: "bytes \<Rightarrow> Node \<Rightarrow> (status + Entry \<times> u64) \<times> Node" where
  "appendClientEntry payload n =
     (if role n \<noteq> RoleLeader then (Inl (notLeaderError (leaderID n)), n)
      else case on_store LastIndexAndTerm n of
        (Inl e, n1) \<Rightarrow> (Inl (internalError e), n1)
      | (Inr (lastLogIndex, _), n1) \<Rightarrow>
          let entry = \<lparr>Entry_Index = lastLogIndex + 1, Entry_Term = currentTerm n1, Entry_Command = payload\<rparr> in
          (case on_store (Store_AppendEntries [entry]) n1 of
             (Inl e, n2) \<Rightarrow> (Inl (internalError e), n2)
           | (Inr _, n2) \<Rightarrow>
               let n3 = publishStateLocked (if peers n2 = [] then advanceCommitLocked n2 else n2)
               in (Inr (entry, currentTerm n3), n3)))"

text \<open>
  \<open>waitForCommit\<close> polls: each turn says what the other goroutines did to the node since the last one
  and what ends the wait after it, a tick or the context; the result is \<open>None\<close> while it still waits.
\<close>

datatype wake = Tick | CtxDeadlineExceeded | CtxCanceled

definition poll_commit :: "u64 \<Rightarrow> u64 \<Rightarrow> Node \<Rightarrow> (status + unit) option" where
  "poll_commit index term n =
     (if commitIndex n \<ge> index then Some (Inr ())
      else if role n \<noteq> RoleLeader \<or> currentTerm n \<noteq> term then Some (Inl (notLeaderError (leaderID n)))
      else None)"

fun waitForCommit ::
  "u64 \<Rightarrow> u64 \<Rightarrow> ((Node \<Rightarrow> Node) \<times> wake) list \<Rightarrow> Node \<Rightarrow> (status + unit) option \<times> Node" where
  "waitForCommit index term [] n = (None, n)"
| "waitForCommit index term ((others, w) # turns) n =
     (let n1 = others n in
      case poll_commit index term n1 of
        Some r \<Rightarrow> (Some r, n1)
      | None \<Rightarrow>
          (case w of
             Tick \<Rightarrow> waitForCommit index term turns n1
           | CtxDeadlineExceeded \<Rightarrow>
               (Some (Inl (Statusf DeadlineExceeded
                  ''entry %d is stored on the leader but was not committed by a majority'' [FormatUint index])), n1)
           | CtxCanceled \<Rightarrow> (Some (Inl (Status Canceled ''context canceled'')), n1)))"

definition propose ::
  "command \<Rightarrow> ((Node \<Rightarrow> Node) \<times> wake) list \<Rightarrow> Node \<Rightarrow> (status + WriteResponse) option \<times> Node" where
  "propose cmd turns n =
     (case encode cmd of
        Inl e \<Rightarrow> (Some (Inl (internalError e)), n)
      | Inr payload \<Rightarrow>
          (case appendClientEntry payload n of
             (Inl s, n1) \<Rightarrow> (Some (Inl s), n1)
           | (Inr (entry, term), n1) \<Rightarrow>
               (case time_Now n1 of
                  (started, n2) \<Rightarrow>
                    (case waitForCommit (Entry_Index entry) term turns (signalReplication n2) of
                       (None, n3) \<Rightarrow> (None, n3)
                     | (Some (Inl s), n3) \<Rightarrow> (Some (Inl s), n3)
                     | (Some (Inr _), n3) \<Rightarrow>
                         (case time_Now n3 of
                            (now, n4) \<Rightarrow>
                              (Some (Inr \<lparr>WriteResp_LeaderId = node_id n4, WriteResp_Index = Entry_Index entry,
                                          WriteResp_Term = term\<rparr>),
                               on_metrics (CommitLatency (duration_sub now started)) n4))))))"

section \<open>The handlers\<close>

text \<open>The client services of the other nodes, by the target they were dialled under.\<close>

record 'w services =
  svc_write :: "string \<Rightarrow> Context \<Rightarrow> WriteRequest \<Rightarrow> 'w \<Rightarrow> (status + WriteResponse) option \<times> 'w"
  svc_delete :: "string \<Rightarrow> Context \<Rightarrow> DeleteRequest \<Rightarrow> 'w \<Rightarrow> (status + WriteResponse) option \<times> 'w"
  svc_read :: "string \<Rightarrow> Context \<Rightarrow> ReadRequest \<Rightarrow> 'w \<Rightarrow> (status + ReadResponse) \<times> 'w"

definition Write ::
  "'w services \<Rightarrow> Context \<Rightarrow> WriteRequest \<Rightarrow> ((Node \<Rightarrow> Node) \<times> wake) list \<Rightarrow> Node \<Rightarrow> 'w
     \<Rightarrow> (status + WriteResponse) option \<times> Node \<times> 'w" where
  "Write svc ctx req turns n w =
     (if WriteReq_Key req = [] then (Some (Inl (Status InvalidArgument ''key is required'')), n, w)
      else case leaderClient ctx n of
        Inl s \<Rightarrow> (Some (Inl s), n, w)
      | Inr (Some client) \<Rightarrow> (case svc_write svc client (forwardContext ctx) req w of (r, w1) \<Rightarrow> (r, n, w1))
      | Inr None \<Rightarrow>
          (case propose (setCommand (WriteReq_Key req) (WriteReq_Value req)) turns n of (r, n1) \<Rightarrow> (r, n1, w)))"

definition Delete ::
  "'w services \<Rightarrow> Context \<Rightarrow> DeleteRequest \<Rightarrow> ((Node \<Rightarrow> Node) \<times> wake) list \<Rightarrow> Node \<Rightarrow> 'w
     \<Rightarrow> (status + WriteResponse) option \<times> Node \<times> 'w" where
  "Delete svc ctx req turns n w =
     (if DeleteReq_Key req = [] then (Some (Inl (Status InvalidArgument ''key is required'')), n, w)
      else case leaderClient ctx n of
        Inl s \<Rightarrow> (Some (Inl s), n, w)
      | Inr (Some client) \<Rightarrow> (case svc_delete svc client (forwardContext ctx) req w of (r, w1) \<Rightarrow> (r, n, w1))
      | Inr None \<Rightarrow> (case propose (deleteCommand (DeleteReq_Key req)) turns n of (r, n1) \<Rightarrow> (r, n1, w)))"

definition confirmLeadership :: "'w network \<Rightarrow> Node \<Rightarrow> 'w \<Rightarrow> (status + unit) \<times> Node \<times> 'w" where
  "confirmLeadership net n w =
     (case replicateAll net n w of
        (inSync, n1, w1) \<Rightarrow>
          if role n1 \<noteq> RoleLeader then (Inl (notLeaderError (leaderID n1)), n1, w1)
          else if inSync < majorityLocked n1
          then (Inl (Statusf Unavailable ''only %d of %d nodes answered, refusing to serve a stale read''
                  [FormatUint (of_nat inSync), FormatUint (of_nat (majorityLocked n1))]), n1, w1)
          else (Inr (), n1, w1))"

definition read_local :: "ReadRequest \<Rightarrow> Node \<Rightarrow> (status + ReadResponse) \<times> Node" where
  "read_local req n =
     (case on_store (Store_Get (ReadReq_Key req)) n of
        (Inl e, n1) \<Rightarrow> (Inl (internalError e), n1)
      | (Inr None, n1) \<Rightarrow> (Inl (Statusf NotFound ''key %q does not exist'' [ReadReq_Key req]), n1)
      | (Inr (Some v), n1) \<Rightarrow> (Inr \<lparr>ReadResp_LeaderId = node_id n1, ReadResp_Value = v\<rparr>, n1))"

definition Read ::
  "'w services \<Rightarrow> 'w network \<Rightarrow> Context \<Rightarrow> ReadRequest \<Rightarrow> Node \<Rightarrow> 'w \<Rightarrow> (status + ReadResponse) \<times> Node \<times> 'w" where
  "Read svc net ctx req n w =
     (if ReadReq_Key req = [] then (Inl (Status InvalidArgument ''key is required''), n, w)
      else case leaderClient ctx n of
        Inl s \<Rightarrow> (Inl s, n, w)
      | Inr (Some client) \<Rightarrow> (case svc_read svc client (forwardContext ctx) req w of (r, w1) \<Rightarrow> (r, n, w1))
      | Inr None \<Rightarrow>
          (case confirmLeadership net n w of
             (Inl s, n1, w1) \<Rightarrow> (Inl s, n1, w1)
           | (Inr _, n1, w1) \<Rightarrow> (case read_local req n1 of (r, n2) \<Rightarrow> (r, n2, w1))))"

definition Node_Status :: "Node \<Rightarrow> (status + StatusResponse) \<times> Node" where
  "Node_Status n =
     (case on_store LastIndexAndTerm n of
        (Inl e, n1) \<Rightarrow> (Inl (internalError e), n1)
      | (Inr (lastLogIndex, _), n1) \<Rightarrow>
          (case on_store SnapshotIndexTerm n1 of
             (Inl e, n2) \<Rightarrow> (Inl (internalError e), n2)
           | (Inr (snapshotIndex, _), n2) \<Rightarrow>
               (Inr \<lparr>StatusResp_Id = node_id n2, StatusResp_Role = role_string (role n2),
                     StatusResp_Term = currentTerm n2,
                     StatusResp_LeaderId = (if role n2 = RoleLeader then node_id n2 else leaderID n2),
                     StatusResp_CommitIndex = commitIndex n2, StatusResp_LastApplied = lastApplied n2,
                     StatusResp_LastLogIndex = lastLogIndex, StatusResp_SnapshotIndex = snapshotIndex,
                     StatusResp_Peers = map (\<lambda>p. \<lparr>PeerStatus_Id = Peer_ID p, PeerStatus_Address = Peer_Address p,
                        PeerStatus_MatchIndex = u64_at (matchIndex n2) (Peer_ID p),
                        PeerStatus_NextIndex = u64_at (nextIndex n2) (Peer_ID p)\<rparr>) (peers n2)\<rparr>, n2)))"

definition InspectLog :: "Node \<Rightarrow> (status + InspectLogResponse) \<times> Node" where
  "InspectLog n =
     (case on_store SnapshotIndexTerm n of
        (Inl e, n1) \<Rightarrow> (Inl (internalError e), n1)
      | (Inr (snapshotIndex, _), n1) \<Rightarrow>
          (case on_store (EntriesFrom (snapshotIndex + 1) 0) n1 of
             (Inl e, n2) \<Rightarrow> (Inl (internalError e), n2)
           | (Inr entries, n2) \<Rightarrow>
               (case on_store Store_All n2 of
                  (Inl e, n3) \<Rightarrow> (Inl (internalError e), n3)
                | (Inr state, n3) \<Rightarrow>
                    (Inr \<lparr>InspectResp_Id = node_id n3, InspectResp_Role = role_string (role n3),
                          InspectResp_Term = currentTerm n3, InspectResp_CommitIndex = commitIndex n3,
                          InspectResp_LastApplied = lastApplied n3, InspectResp_SnapshotIndex = snapshotIndex,
                          InspectResp_Entries = map toLogEntry entries, InspectResp_State = state\<rparr>, n3))))"

section \<open>Laws\<close>

definition client_entry :: "bytes \<Rightarrow> Node \<Rightarrow> Entry" where
  "client_entry payload n =
     \<lparr>Entry_Index = last_index (ndb n) + 1, Entry_Term = currentTerm n, Entry_Command = payload\<rparr>"

lemma client_entry_fields [simp]:
  "Entry_Index (client_entry payload n) = last_index (ndb n) + 1" "Entry_Term (client_entry payload n) = currentTerm n"
  "Entry_Command (client_entry payload n) = payload"
  by (simp_all add: client_entry_def)

definition with_entry :: "bytes \<Rightarrow> Node \<Rightarrow> db" where
  "with_entry payload n = put_entries [client_entry payload n] (ndb n)"

lemma client_entry_log:
  assumes "log_ok (ndb n)" and "last_index (ndb n) < max_int64"
  shows "log_ok (with_entry payload n)" and "last_index (with_entry payload n) = last_index (ndb n) + 1"
    and "entry_at (with_entry payload n) (last_index (ndb n) + 1) = Some (client_entry payload n)"
    and "i \<le> last_index (ndb n) \<Longrightarrow> entry_at (with_entry payload n) i = entry_at (ndb n) i"
proof -
  have f: "follows (last_index (ndb n)) [client_entry payload n]" using assms(2) by simp
  note P = put_entries_log [OF assms(1) f]
  show "log_ok (with_entry payload n)" and "last_index (with_entry payload n) = last_index (ndb n) + 1"
    using P by (simp_all add: with_entry_def)
  show "entry_at (with_entry payload n) (last_index (ndb n) + 1) = Some (client_entry payload n)"
    using entry_at_appended [OF assms(1) f, of "client_entry payload n"] by (simp add: with_entry_def)
  assume "i \<le> last_index (ndb n)"
  then have "i < last_index (ndb n) + 1" using u64_less_inc_iff [OF u64_less_not_max [OF assms(2)], of i] by simp
  then have "i \<noteq> last_index (ndb n) + 1" by auto
  then show "entry_at (with_entry payload n) i = entry_at (ndb n) i"
    using entry_at_put_entries [OF db_okD(2) [OF log_okD(1) [OF assms(1)]], of "[client_entry payload n]" i]
    by (simp add: with_entry_def)
qed

lemma advanceCommitLocked_term:
  assumes "log_ok (ndb n)"
  shows "currentTerm (advanceCommitLocked n) = currentTerm n"
  using advanceCommitLocked_run [OF assms]
proof (elim disjE exE conjE)
  assume "frame (advanceCommitLocked n) n"
  then show ?thesis by (rule frameD(11))
next
  fix m assume m: "frame m (n\<lparr>commitIndex := commit_target n\<rparr>)" and eq: "advanceCommitLocked n = applyCommittedLocked m"
  have "log_ok (ndb m)" using frameD(1) [OF m] assms by simp
  from advancedD(7) [OF applyCommittedLocked_advanced [OF this]] frameD(11) [OF m] show ?thesis by (simp add: eq)
qed

lemma appendClientEntry_outcome:
  assumes "log_ok (ndb n)" and "last_index (ndb n) < max_int64" and "appendClientEntry payload n = (r, n')"
  obtains (refused) "role n \<noteq> RoleLeader" and "r = Inl (notLeaderError (leaderID n))" and "n' = n"
  | (failed) "isl r" and "\<not> clean n" and "frame n' n"
  | (appended) m k where "role n = RoleLeader" and "r = Inr (client_entry payload n, currentTerm n)"
      and "frame m (with_db (with_entry payload n) n)" and "k = (if peers n = [] then advanceCommitLocked m else m)" and "frame n' k"
proof (cases "role n = RoleLeader")
  case False
  then show ?thesis using assms(3) by (intro refused) (auto simp: appendClientEntry_def)
next
  case True
  obtain r1 n1 where a: "on_store LastIndexAndTerm n = (r1, n1)" by fastforce
  note A = on_store_answers [OF LastIndexAndTerm_answers log_ok_meta [OF assms(1)] a]
  note F = frameD [OF A(1)]
  let ?e = "client_entry payload n"
  obtain r2 n2 where b: "on_store (Store_AppendEntries [?e]) n1 = (r2, n2)" by fastforce
  note B = on_store_commits [OF Store_AppendEntries_commits b, unfolded F(1)]
  note L = client_entry_log [OF assms(1,2)]
  define k where "k = (if peers n2 = [] then advanceCommitLocked n2 else n2)"
  show ?thesis
  proof (cases r1)
    case (Inl e)
    then show ?thesis using assms(3) True a A(1) A(3) [OF Inl] by (intro failed) (auto simp: appendClientEntry_def)
  next
    case (Inr x)
    have "fst x = last_index (ndb n)" using A(2) [OF Inr] by (simp add: last_index_def)
    then have run: "(case r2 of Inl e \<Rightarrow> (Inl (internalError e), n2)
        | Inr _ \<Rightarrow> (Inr (?e, currentTerm (publishStateLocked k)), publishStateLocked k)) = (r, n')"
      using assms(3) True a Inr b F(11)
      by (cases x; cases r2) (auto simp: appendClientEntry_def client_entry_def Let_def k_def)
    show ?thesis
    proof (cases r2)
      case e: (Inl e)
      have "frame n2 n" "\<not> clean n" using B(2) [OF e] frame_trans [OF _ A(1)] frame_clean [OF A(1)] by auto
      then show ?thesis using run e by (intro failed) auto
    next
      case u: (Inr u)
      have f2: "frame n2 (with_db (with_entry payload n) n)"
        using frame_trans [OF B(1) [OF u] frame_with_db [OF A(1)]] by (simp add: with_entry_def)
      have "log_ok (ndb n2)" using frameD(1) [OF f2] L(1) by simp
      then have ok: "log_ok (ndb k)" using advanceCommitLocked_log_ok by (simp add: k_def)
      have p: "peers n2 = peers n" using frameD(5) [OF f2] by simp
      have f3: "frame (publishStateLocked k) k" by (rule publishStateLocked_frame [OF log_ok_meta [OF ok]])
      have "currentTerm k = currentTerm n"
      proof (cases "peers n2 = []")
        case False
        then show ?thesis using frameD(11) [OF f2] by (simp add: k_def)
      next
        case True
        then show ?thesis
          using advanceCommitLocked_term [OF \<open>log_ok (ndb n2)\<close>] frameD(11) [OF f2] by (simp add: k_def)
      qed
      then have "r = Inr (?e, currentTerm n)" "n' = publishStateLocked k"
        using run u frameD(11) [OF f3] by simp_all
      then show ?thesis using True f2 f3 p by (intro appended [of n2 k]) (simp_all add: k_def)
    qed
  qed
qed

lemma appendClientEntry_follows:
  assumes "log_ok (ndb n)" and "vote_ok n" and "commitIndex n \<le> max_int64" and "last_index (ndb n) < max_int64"
    and "appendClientEntry payload n = (r, n')"
  shows "follows_votes n n'"
proof (cases rule: appendClientEntry_outcome [OF assms(1,4,5)])
  case 1
  then show ?thesis using follows_votes_refl [OF assms(2,1)] by simp
next
  case 2
  then show ?thesis using follows_votes_frame [OF follows_votes_refl [OF assms(2,1)]] by blast
next
  case (3 m k)
  note L = client_entry_log [OF assms(1,4)]
  have "follows_votes n (with_db (with_entry payload n) n)"
    using assms(2) L(1) by (simp add: follows_votes_def vote_step_def vote_ok_def mem_vote_def with_entry_def)
  then have m: "follows_votes n m" using 3(3) by (rule follows_votes_frame)
  have "log_ok (ndb m)" "commitIndex m \<le> max_int64" using frameD(1,14) [OF 3(3)] L(1) assms(3) by simp_all
  from follows_votes_advanced [OF m advanceCommitLocked_advanced(1) [OF this]]
  have "follows_votes n k" using m 3(4) by simp
  then show ?thesis using 3(5) by (rule follows_votes_frame)
qed

text \<open>The calls that only look.\<close>

lemma read_local_frame:
  assumes "meta_ok (ndb n)" and "read_local req n = (r, n')"
  shows "frame n' n" and "\<And>x. r = Inr x \<Longrightarrow> kv_get (ndb n) (ReadReq_Key req) = Some (ReadResp_Value x)"
    and "clean n \<Longrightarrow> (case kv_get (ndb n) (ReadReq_Key req) of
           Some v \<Rightarrow> r = Inr \<lparr>ReadResp_LeaderId = node_id n, ReadResp_Value = v\<rparr>
         | None \<Rightarrow> r = Inl (Statusf NotFound ''key %q does not exist'' [ReadReq_Key req]))"
proof -
  obtain r1 n1 where a: "on_store (Store_Get (ReadReq_Key req)) n = (r1, n1)" by fastforce
  note A = on_store_answers [OF Store_Get_answers assms(1) a]
  show "frame n' n"
    using assms(2) a A(1) by (cases r1) (auto simp: read_local_def split: option.splits)
  show "kv_get (ndb n) (ReadReq_Key req) = Some (ReadResp_Value x)" if "r = Inr x" for x
  proof (cases r1)
    case (Inr v)
    then show ?thesis using assms(2) a A(2) [OF Inr] that by (auto simp: read_local_def split: option.splits)
  qed (use assms(2) a that in \<open>simp add: read_local_def\<close>)
  show "case kv_get (ndb n) (ReadReq_Key req) of
           Some v \<Rightarrow> r = Inr \<lparr>ReadResp_LeaderId = node_id n, ReadResp_Value = v\<rparr>
         | None \<Rightarrow> r = Inl (Statusf NotFound ''key %q does not exist'' [ReadReq_Key req])" if "clean n"
    using assms(2) a A(4) [OF that] by (auto simp: read_local_def split: option.splits)
qed

lemma Node_Status_frame:
  assumes "meta_ok (ndb n)" and "Node_Status n = (r, n')"
  shows "frame n' n" and "clean n \<Longrightarrow> \<not> isl r"
proof -
  obtain r1 n1 where a: "on_store LastIndexAndTerm n = (r1, n1)" by fastforce
  obtain r2 n2 where b: "on_store SnapshotIndexTerm n1 = (r2, n2)" by fastforce
  note A = on_store_answers [OF LastIndexAndTerm_answers assms(1) a]
  have "meta_ok (ndb n1)" using frameD(1) [OF A(1)] assms(1) by simp
  note B = on_store_answers [OF SnapshotIndexTerm_answers this b]
  show "frame n' n"
    using assms(2) a b A(1) frame_trans [OF B(1) A(1)] by (cases r1; cases r2) (auto simp: Node_Status_def)
  show "\<not> isl r" if "clean n"
    using assms(2) a b A(4) [OF that] B(4) that by (auto simp: Node_Status_def split: prod.splits)
qed

lemma InspectLog_frame:
  assumes "meta_ok (ndb n)" and "InspectLog n = (r, n')"
  shows "frame n' n"
    and "\<And>x. r = Inr x \<Longrightarrow> InspectResp_Id x = node_id n \<and> InspectResp_SnapshotIndex x = snap_index (ndb n)
          \<and> InspectResp_Entries x = map toLogEntry (entries_from (snap_index (ndb n) + 1) 0 (ndb n))
          \<and> InspectResp_State x = kv_state (ndb n) \<and> InspectResp_CommitIndex x = commitIndex n
          \<and> InspectResp_LastApplied x = lastApplied n"
    and "clean n \<Longrightarrow> \<not> isl r"
proof -
  obtain r1 n1 where a: "on_store SnapshotIndexTerm n = (r1, n1)" by fastforce
  note A = on_store_answers [OF SnapshotIndexTerm_answers assms(1) a]
  define i where "i = snap_index (ndb n)"
  obtain r2 n2 where b: "on_store (EntriesFrom (i + 1) 0) n1 = (r2, n2)" by fastforce
  have d1: "ndb n1 = ndb n" using frameD(1) [OF A(1)] by simp
  have "meta_ok (ndb n1)" using d1 assms(1) by simp
  note B = on_store_answers [OF EntriesFrom_answers this b, unfolded d1]
  obtain r3 n3 where c: "on_store Store_All n2 = (r3, n3)" by fastforce
  have f2: "frame n2 n" using B(1) A(1) by (rule frame_trans)
  have "meta_ok (ndb n2)" using frameD(1) [OF f2] assms(1) by simp
  note E = on_store_answers [OF Store_All_answers this c, unfolded frameD(1) [OF f2]]
  have f3: "frame n3 n" using E(1) f2 by (rule frame_trans)
  have x1: "x = (i, snap_term (ndb n))" if "r1 = Inr x" for x using A(2) [OF that] by (simp add: i_def)
  note F = frameD(2,14,15) [OF f3]
  show "frame n' n"
    using assms(2) a b c A(1) f2 f3 x1 by (cases r1; cases r2; cases r3) (auto simp: InspectLog_def)
  show "InspectResp_Id x = node_id n \<and> InspectResp_SnapshotIndex x = snap_index (ndb n)
          \<and> InspectResp_Entries x = map toLogEntry (entries_from (snap_index (ndb n) + 1) 0 (ndb n))
          \<and> InspectResp_State x = kv_state (ndb n) \<and> InspectResp_CommitIndex x = commitIndex n
          \<and> InspectResp_LastApplied x = lastApplied n" if "r = Inr x" for x
    using assms(2) that a b c x1 B(2) E(2) F
    by (cases r1; cases r2; cases r3) (auto simp: InspectLog_def i_def)
  show "\<not> isl r" if "clean n"
  proof -
    have "r1 = Inr (i, snap_term (ndb n))" "clean n1" using A(4) [OF that] that by (auto simp: i_def)
    moreover from this have "\<not> isl r2" "clean n2" using B(4) by auto
    moreover from this have "\<not> isl r3" using E(4) by auto
    ultimately show ?thesis using assms(2) a b c by (cases r2; cases r3) (auto simp: InspectLog_def)
  qed
qed

end
