(* ===== verification/Replication_Props.thy ===== *)
theory Replication_Props imports Replication
begin

text \<open>
  The properties of the leader's side: what a request says about the leader's log, what an accepted
  round establishes between the two logs, when a peer catches up, and where the walk back fails.
\<close>

section \<open>Requests\<close>

lemma toStorageEntry_toLogEntry [simp]: "toStorageEntry (toLogEntry e) = e" "toStorageEntry \<circ> toLogEntry = id"
  by (simp_all add: toStorageEntry_def toLogEntry_def fun_eq_iff)

lemma nextIndexLocked_pos: "nextIndexLocked q n \<noteq> 0"
  by (auto simp: nextIndexLocked_def max_def)

lemma prev_position:
  assumes "log_ok d" and "term_at d p = Some t" and "snap_index d \<le> p"
  shows "p \<le> last_index d"
  using assms(2,3) term_at_iff [OF assms(1), of p] log_okD(2) [OF assms(1)] by auto

text \<open>
  C21: a request that \<open>buildAppendRequestLocked\<close> prepares for a peer whose next index is beyond the
  leader's snapshot is well formed and truthful: consecutive entries after the previous position, the
  term at that position, at most \<open>appendBatchSize\<close> of them, all of them entries of the leader's log,
  and some of them whenever the leader has any.
\<close>

theorem append_request_describes_log:
  assumes "log_ok (ndb n)" and "snap_index (ndb n) < nextIndexLocked q n" and "last_index (ndb n) < max_int64"
    and "buildAppendRequestLocked q n = (Inr (Some req), n')"
  shows "request_ok req \<and> AppendReq_Term req = currentTerm n \<and> AppendReq_LeaderId req = node_id n
    \<and> AppendReq_LeaderCommit req = commitIndex n \<and> AppendReq_PrevLogIndex req = nextIndexLocked q n - 1
    \<and> term_at (ndb n) (AppendReq_PrevLogIndex req) = Some (AppendReq_PrevLogTerm req)
    \<and> (\<forall>e \<in> set (AppendReq_Entries req). entry_at (ndb n) (LogEntry_Index e) = Some (toStorageEntry e))
    \<and> length (AppendReq_Entries req) \<le> 128 \<and> lastEntryIndex req \<le> last_index (ndb n)
    \<and> (AppendReq_PrevLogIndex req < last_index (ndb n) \<longrightarrow> AppendReq_Entries req \<noteq> [])"
proof -
  let ?p = "nextIndexLocked q n - 1"
  have s: "snap_index (ndb n) \<le> ?p"
    using assms(2) u64_less_inc_iff [OF u64_less_not_max [OF u64_dec_less [OF nextIndexLocked_pos]], of "snap_index (ndb n)" q n]
    by simp
  show ?thesis
  proof (cases rule: buildAppendRequestLocked_outcome [OF assms(1,4)])
    case (3 t)
    let ?es = "entries_from (?p + 1) appendBatchSize (ndb n)"
    have p: "?p \<le> last_index (ndb n)" by (rule prev_position [OF assms(1) 3(1) s])
    then have "?p < max_int64" using assms(3) by (rule order.strict_trans1)
    note B = batch_spec [OF assms(1) s this]
    have es: "map toStorageEntry (AppendReq_Entries req) = ?es" using 3(3) by simp
    have last: "lastEntryIndex req = end_index ?p ?es"
      using 3(3) end_index_last [of ?es ?p]
      by (auto simp: lastEntryIndex_def Let_def last_conv_nth toLogEntry_def nth_map)
    have "entry_at (ndb n) (LogEntry_Index e) = Some (toStorageEntry e)" if "e \<in> set (AppendReq_Entries req)" for e
      using B(2) [of "toStorageEntry e"] that es by (metis image_eqI list.set_map toStorageEntry_fields(1))
    moreover have "?p < last_index (ndb n) \<longrightarrow> ?es \<noteq> []" using B(5) by auto
    ultimately show ?thesis
      using 3(1,3) B(1,3,4) p last es by (simp add: request_ok_def)
  qed simp_all
qed

definition example_leader :: "string list \<Rightarrow> u64 \<Rightarrow> db \<Rightarrow> u64 \<Rightarrow> Node" where
  "example_leader ps t d next =
     (example_node ''n1'' ps t d)\<lparr>role := RoleLeader, nextIndex := map_of (map (\<lambda>p. (p, next)) ps)\<rparr>"

lemma example_leader_fields [simp]:
  "ndb (example_leader ps t d i) = d" "clean (example_leader ps t d i)" "node_id (example_leader ps t d i) = ''n1''"
  "role (example_leader ps t d i) = RoleLeader" "currentTerm (example_leader ps t d i) = t"
  "commitIndex (example_leader ps t d i) = 0" "lastApplied (example_leader ps t d i) = 0"
  "q \<in> set ps \<Longrightarrow> nextIndexLocked q (example_leader ps t d i) = max i 1"
  "matchIndex (example_leader ps t d i) = Map.empty" "snapshotThreshold (example_leader ps t d i) = 0"
  by (simp_all add: example_leader_def nextIndexLocked_def u64_at_def map_of_map_restrict map_of_eq_None_iff)

lemma build_known:
  assumes "log_ok (ndb n)" and "clean n" and "term_at (ndb n) (nextIndexLocked q n - 1) = Some t"
  obtains req n' where "buildAppendRequestLocked q n = (Inr (Some req), n')" and "frame n' n"
    and "req = \<lparr>AppendReq_Term = currentTerm n, AppendReq_LeaderId = node_id n,
             AppendReq_PrevLogIndex = nextIndexLocked q n - 1, AppendReq_PrevLogTerm = t,
             AppendReq_Entries = map toLogEntry (entries_from (nextIndexLocked q n) appendBatchSize (ndb n)),
             AppendReq_LeaderCommit = commitIndex n\<rparr>"
proof -
  obtain r n' where run: "buildAppendRequestLocked q n = (r, n')" by fastforce
  show ?thesis
    by (rule buildAppendRequestLocked_outcome [OF assms(1) run]) (use assms(2,3) that run in auto)
qed

theorem append_request_describes_log_witness:
  "\<exists>req n'. buildAppendRequestLocked ''n2'' (example_leader [''n2''] 2 (example_log [1, 2]) 2) = (Inr (Some req), n')
     \<and> request_ok req \<and> AppendReq_PrevLogTerm req = 1 \<and> AppendReq_Entries req \<noteq> []"
proof -
  let ?n = "example_leader [''n2''] 2 (example_log [1, 2]) 2"
  have "term_at (ndb ?n) 1 = Some 1"
    using term_at_entry [of "example_log [1, 2]" 1] by (simp add: example_entry_def)
  then have t: "term_at (ndb ?n) (nextIndexLocked ''n2'' ?n - 1) = Some 1" by (simp add: max_def word_le_nat_alt)
  have ok: "log_ok (ndb ?n)" "clean ?n" by simp_all
  obtain req n' where run: "buildAppendRequestLocked ''n2'' ?n = (Inr (Some req), n')"
    and req: "AppendReq_PrevLogTerm req = 1"
    by (rule build_known [OF ok t]) simp
  have "snap_index (ndb ?n) < nextIndexLocked ''n2'' ?n" "last_index (ndb ?n) < max_int64"
    by (simp_all add: max_def max_int64_def)
  from append_request_describes_log [OF ok(1) this run] show ?thesis
    using run req by (simp add: max_def word_le_nat_alt)
qed

text \<open>
  C22: the check for a compacted position and the building of the request are two critical sections.
  When the leader compacts its log in between and the peer's next index is 1, the position 0 still
  counts as known, and the request asks to put the entries behind the leader's snapshot directly
  after position 0: its indices are not consecutive.
\<close>

theorem append_request_with_gap:
  assumes "log_ok (ndb n)" and "clean n" and "nextIndexLocked q n = 1" and "0 < snap_index (ndb n)"
    and "snap_index (ndb n) < last_index (ndb n)"
  shows "\<exists>req n'. buildAppendRequestLocked q n = (Inr (Some req), n') \<and> AppendReq_PrevLogIndex req = 0
    \<and> AppendReq_Entries req \<noteq> [] \<and> LogEntry_Index (hd (AppendReq_Entries req)) = snap_index (ndb n) + 1
    \<and> \<not> request_ok req"
proof -
  let ?s = "snap_index (ndb n)"
  have sm: "?s < max_int64" using assms(5) log_okD(3) [OF assms(1)] by (rule order.strict_trans2)
  have "1 \<le> ?s" using assms(4) inc_le [of 0 ?s] by simp
  moreover have "\<not> ?s + 1 \<le> ?s" using u64_less_inc [OF u64_less_not_max [OF sm]] by (rule linorder_not_le [THEN iffD2])
  ultimately have eq: "entries_from 1 appendBatchSize (ndb n) = entries_from (?s + 1) appendBatchSize (ndb n)"
    by (simp add: entries_from_def)
  note B = batch_spec [OF assms(1) order_refl sm]
  obtain e es where es: "entries_from (?s + 1) appendBatchSize (ndb n) = e # es"
    using B(5) [OF assms(5)] by (cases "entries_from (?s + 1) appendBatchSize (ndb n)") auto
  have e: "Entry_Index e = ?s + 1" using B(1) es by simp
  have "?s + 1 \<noteq> 1" using assms(4) by auto
  obtain t where "term_at (ndb n) (nextIndexLocked q n - 1) = Some t"
    using term_at_iff [OF assms(1), of 0] assms(3) by auto
  then obtain req n' where run: "buildAppendRequestLocked q n = (Inr (Some req), n')"
    and req: "req = \<lparr>AppendReq_Term = currentTerm n, AppendReq_LeaderId = node_id n,
             AppendReq_PrevLogIndex = nextIndexLocked q n - 1, AppendReq_PrevLogTerm = t,
             AppendReq_Entries = map toLogEntry (entries_from (nextIndexLocked q n) appendBatchSize (ndb n)),
             AppendReq_LeaderCommit = commitIndex n\<rparr>"
    by (rule build_known [OF assms(1,2)])
  show ?thesis
    using run \<open>?s + 1 \<noteq> 1\<close> e by (intro exI [of _ req] exI [of _ n']) (simp add: req assms(3) eq es request_ok_def toLogEntry_def)
qed

text \<open>A log of two entries, the first of them compacted.\<close>

definition compacted_log :: db where
  "compacted_log =
     drop_through 1 (put_snapshot \<lparr>LastIncludedIndex = 1, LastIncludedTerm = 1, Snapshot_Data = []\<rparr> (example_log [1, 2]))"

lemma compacted_log_views [simp]:
  "log_ok compacted_log" "last_index compacted_log = 2" "snap_index compacted_log = 1"
  using compact_log [of "example_log [1, 2]" 1 "\<lparr>LastIncludedIndex = 1, LastIncludedTerm = 1, Snapshot_Data = []\<rparr>"]
  by (simp_all add: compacted_log_def view_simps word_le_nat_alt)

theorem append_request_with_gap_witness:
  "\<exists>req n'. buildAppendRequestLocked ''n2'' (example_leader [''n2''] 2 compacted_log 1) = (Inr (Some req), n')
     \<and> AppendReq_PrevLogIndex req = 0 \<and> LogEntry_Index (hd (AppendReq_Entries req)) = 2"
  using append_request_with_gap [of "example_leader [''n2''] 2 compacted_log 1" "''n2''"] by auto

section \<open>A leader and a follower\<close>

text \<open>A network that delivers every call to one follower, which handles it.\<close>

definition follower_net :: "Node network" where
  "follower_net =
     \<lparr>net_append = (\<lambda>_ req f. case AppendEntries req f of (Inl _, f') \<Rightarrow> (None, f') | (Inr resp, f') \<Rightarrow> (Some resp, f')),
      net_snapshot = (\<lambda>_ req f. case InstallSnapshot req f of (Inl _, f') \<Rightarrow> (None, f') | (Inr resp, f') \<Rightarrow> (Some resp, f')),
      net_cancelled = (\<lambda>_. False)\<rparr>"

text \<open>
  The situation at a call: both stores work, the sender leads a term the follower has not gone
  beyond, and the leader's log describes the position before the peer's next index.
\<close>

definition can_call :: "string \<Rightarrow> Node \<Rightarrow> Node \<Rightarrow> u64 \<Rightarrow> bool" where
  "can_call q n f t \<longleftrightarrow>
     log_ok (ndb n) \<and> clean n \<and> role n = RoleLeader \<and> last_index (ndb n) < max_int64
     \<and> log_ok (ndb f) \<and> clean f \<and> currentTerm f \<le> currentTerm n
     \<and> snap_index (ndb n) < nextIndexLocked q n \<and> term_at (ndb n) (nextIndexLocked q n - 1) = Some t
     \<and> snap_index (ndb f) \<le> nextIndexLocked q n - 1"

lemma can_callD:
  assumes "can_call q n f t"
  shows "log_ok (ndb n)" and "clean n" and "role n = RoleLeader" and "last_index (ndb n) < max_int64"
    and "log_ok (ndb f)" and "clean f" and "currentTerm f \<le> currentTerm n"
    and "snap_index (ndb n) < nextIndexLocked q n" and "term_at (ndb n) (nextIndexLocked q n - 1) = Some t"
    and "snap_index (ndb f) \<le> nextIndexLocked q n - 1"
  using assms by (simp_all add: can_call_def)

lemma next_prev:
  assumes "snap < nextIndexLocked q n"
  shows "snap \<le> nextIndexLocked q n - 1"
  using assms u64_less_inc_iff [OF u64_less_not_max [OF u64_dec_less [OF nextIndexLocked_pos]], of snap q n] by simp

lemma call_request:
  assumes "can_call q n f t"
  obtains req n' where "buildAppendRequestLocked q n = (Inr (Some req), n')" and "frame n' n" and "request_ok req"
    and "AppendReq_Term req = currentTerm n" and "AppendReq_PrevLogIndex req = nextIndexLocked q n - 1"
    and "AppendReq_PrevLogTerm req = t" and "AppendReq_LeaderCommit req = commitIndex n"
    and "map toStorageEntry (AppendReq_Entries req) = entries_from (nextIndexLocked q n) appendBatchSize (ndb n)"
    and "lastEntryIndex req = end_index (nextIndexLocked q n - 1) (entries_from (nextIndexLocked q n) appendBatchSize (ndb n))"
proof -
  note C = can_callD [OF assms]
  let ?p = "nextIndexLocked q n - 1" and ?es = "entries_from (nextIndexLocked q n) appendBatchSize (ndb n)"
  note s = next_prev [OF C(8)]
  have "?p \<le> last_index (ndb n)" by (rule prev_position [OF C(1,9) s])
  then have "?p < max_int64" using C(4) by (rule order.strict_trans1)
  from batch_spec(1) [OF C(1) s this] have fo: "follows ?p ?es" by simp
  obtain req n' where run: "buildAppendRequestLocked q n = (Inr (Some req), n')" and f: "frame n' n"
    and req: "req = \<lparr>AppendReq_Term = currentTerm n, AppendReq_LeaderId = node_id n, AppendReq_PrevLogIndex = ?p,
             AppendReq_PrevLogTerm = t, AppendReq_Entries = map toLogEntry ?es, AppendReq_LeaderCommit = commitIndex n\<rparr>"
    by (rule build_known [OF C(1,2,9)])
  have "lastEntryIndex req = end_index ?p ?es"
    using end_index_last [of ?es ?p] by (auto simp: req lastEntryIndex_def Let_def last_conv_nth toLogEntry_def nth_map)
  then show ?thesis using that [OF run f] fo by (simp add: req request_ok_def)
qed

text \<open>What a call leaves unchanged at a follower that rejects it.\<close>

definition same_log :: "Node \<Rightarrow> Node \<Rightarrow> bool" where
  "same_log f' f \<longleftrightarrow>
     log_ok (ndb f') \<and> term_at (ndb f') = term_at (ndb f) \<and> entry_at (ndb f') = entry_at (ndb f)
     \<and> last_index (ndb f') = last_index (ndb f) \<and> snap_index (ndb f') = snap_index (ndb f)
     \<and> commitIndex f' = commitIndex f"

lemma same_log_trans: "same_log f'' f' \<Longrightarrow> same_log f' f \<Longrightarrow> same_log f'' f"
  by (simp add: same_log_def)

lemma sendEntries_rejected:
  assumes "can_call q n f t" and "term_at (ndb f) (nextIndexLocked q n - 1) \<noteq> Some t"
  obtains n' f' where "sendEntries follower_net q n f = (appendRejected, n', f')" and "tracks n' n"
    and "nextIndex n' q = Some (nextIndexAfterRejection (nextIndexLocked q n) (last_index (ndb f)))"
    and "same_log f' f" and "clean f'" and "currentTerm f' = currentTerm n" and "matchIndex n' = matchIndex n"
proof -
  note C = can_callD [OF assms(1)]
  obtain req n1 where b: "buildAppendRequestLocked q n = (Inr (Some req), n1)" and f1: "frame n1 n" and wf: "request_ok req"
    and req: "AppendReq_Term req = currentTerm n" "AppendReq_PrevLogIndex req = nextIndexLocked q n - 1"
      "AppendReq_PrevLogTerm req = t"
    by (rule call_request [OF assms(1)])
  obtain r f' where a: "AppendEntries req f = (r, f')" by fastforce
  have "r = Inr \<lparr>AppendResp_Term = currentTerm n, AppendResp_Success = False, AppendResp_MatchIndex = last_index (ndb f)\<rparr>
      \<and> same_log f' f \<and> clean f' \<and> currentTerm f' = currentTerm n"
  proof (cases rule: AppendEntries_outcome [OF C(5) a wf [unfolded request_ok_def]])
    case 1
    then show ?thesis using C(7) req by (simp add: linorder_not_le [symmetric])
  next
    case (2 d m d2)
    then show ?thesis using C(6) by simp
  next
    case (3 d m)
    note L = adopted_log [OF 3(2) C(5)]
    have "same_log f' f" "clean f'" "currentTerm f' = currentTerm n"
      using frameD(1,11,14) [OF 3(4)] frame_clean [OF 3(4)] L C(6,7) req by (simp_all add: 3(3) same_log_def max_def)
    moreover have "\<not> nextIndexLocked q n - 1 < snap_index d" using C(10) L(7) by (simp add: not_less)
    ultimately show ?thesis using 3(6) L(3) req by simp
  next
    case (4 d m)
    then show ?thesis using adopted_log(4) [OF 4(2) C(5)] assms(2) req by simp
  qed
  then have r: "r = Inr \<lparr>AppendResp_Term = currentTerm n, AppendResp_Success = False, AppendResp_MatchIndex = last_index (ndb f)\<rparr>"
    and f': "same_log f' f" "clean f'" "currentTerm f' = currentTerm n" by simp_all
  obtain out n2 where p: "append_reply q (currentTerm n) req (Some (projr r)) n1 = (out, n2)" by fastforce
  have ok1: "log_ok (ndb n1)" using frameD(1) [OF f1] C(1) by simp
  have "out = appendRejected \<and> tracks n2 n \<and> matchIndex n2 = matchIndex n
    \<and> nextIndex n2 q = Some (nextIndexAfterRejection (nextIndexLocked q n) (last_index (ndb f)))"
  proof (cases rule: append_reply_outcome [OF ok1 p])
    case (2 resp)
    then show ?thesis using r frameD(11) [OF f1] by (auto simp: observeHigherTerm_def)
  next
    case (3 resp)
    then show ?thesis using frameD(10,11) [OF f1] C(3) by simp
  next
    case (4 resp m)
    have m: "nextIndexLocked q m = nextIndexLocked q n"
      using 4(7) frameD(16) [OF f1] by (simp add: nextIndexLocked_def notePeerReachableLocked_def)
    have "tracks n2 n"
      unfolding 4(8) by (rule tracks_trans [OF tracks_upd(1) tracks_trans [OF _ tracks_frame [OF f1]]]) (simp add: 4(7))
    moreover have "matchIndex n2 = matchIndex n"
      using 4(7,8) frameD(17) [OF f1] by (simp add: notePeerReachableLocked_def)
    ultimately show ?thesis using 4(1,2,8) r m by auto
  qed (use r in auto)
  moreover have "sendEntries follower_net q n f = (out, n2, f')"
    using b a r p by (simp add: sendEntries_def follower_net_def Let_def)
  ultimately show ?thesis using that f' by simp
qed

section \<open>The walk back\<close>

text \<open>
  The positions the leader tries while a follower's log conflicts with its own, when the follower's log is not
  longer and when it is; one behind its own last entry is where a new leader starts.
\<close>

definition retries :: "Node \<Rightarrow> Node \<Rightarrow> u64 set" where
  "retries n f =
     (let l = last_index (ndb n); m = last_index (ndb f) in if m \<le> l then {m, m + 1, l + 1} else {l + 1 .. m + 1})"

definition conflict_at :: "u64 \<Rightarrow> Node \<Rightarrow> Node \<Rightarrow> bool" where
  "conflict_at i n f \<longleftrightarrow>
     snap_index (ndb n) \<le> i \<and> snap_index (ndb f) \<le> i \<and> term_at (ndb f) i \<noteq> term_at (ndb n) i"

text \<open>
  A follower whose last two entries conflict with the leader's, or one with a longer log that conflicts at the end of
  the leader's.
\<close>

definition conflicting :: "string \<Rightarrow> Node \<Rightarrow> Node \<Rightarrow> bool" where
  "conflicting q n f \<longleftrightarrow>
     log_ok (ndb n) \<and> clean n \<and> role n = RoleLeader \<and> last_index (ndb n) < max_int64
     \<and> log_ok (ndb f) \<and> clean f \<and> currentTerm f \<le> currentTerm n
     \<and> (if last_index (ndb f) \<le> last_index (ndb n)
        then 0 < last_index (ndb f) \<and> conflict_at (last_index (ndb f)) n f \<and> conflict_at (last_index (ndb f) - 1) n f
        else conflict_at (last_index (ndb n)) n f)
     \<and> nextIndexLocked q n \<in> retries n f"

lemma conflicting_keeps:
  assumes "conflicting q n f" and "tracks n' n" and "same_log f' f" and "clean f'" and "currentTerm f' \<le> currentTerm n"
    and "nextIndexLocked q n' \<in> retries n f"
  shows "conflicting q n' f'"
proof -
  note T = tracksD [OF assms(2)] and S = assms(3) [unfolded same_log_def]
  have "conflict_at i n' f' = conflict_at i n f" for i using T S by (simp add: conflict_at_def)
  moreover have "retries n' f' = retries n f" using T S by (simp add: retries_def)
  ultimately show ?thesis using assms(1,4-6) T S by (simp add: conflicting_def)
qed

text \<open>A round from a position that the leader's log describes and that conflicts.\<close>

lemma conflicting_rejected:
  assumes "conflicting q n f" and "nextIndexLocked q n = p + 1" and "p \<noteq> - 1" and "conflict_at p n f" and "p \<le> last_index (ndb n)"
    and "nextIndexAfterRejection (p + 1) (last_index (ndb f)) \<in> retries n f"
    and "1 \<le> nextIndexAfterRejection (p + 1) (last_index (ndb f))"
  obtains n' f' where "sendEntries follower_net q n f = (appendRejected, n', f')" and "conflicting q n' f'" and "same_log f' f"
    and "\<not> nextIndexLocked q n \<le> snap_index (ndb n)"
proof -
  note C = assms(1) [unfolded conflicting_def] and A = assms(4) [unfolded conflict_at_def]
  obtain t where t: "term_at (ndb n) p = Some t" using term_at_iff [of "ndb n" p] C A assms(5) by auto
  have s: "snap_index (ndb n) < p + 1" using A assms(3) by (simp add: u64_less_inc_iff)
  have call: "can_call q n f t" and mis: "term_at (ndb f) (nextIndexLocked q n - 1) \<noteq> Some t"
    using C A s t assms(2) by (simp_all add: can_call_def)
  obtain n' f' where send: "sendEntries follower_net q n f = (appendRejected, n', f')" and tr: "tracks n' n"
    and ni: "nextIndex n' q = Some (nextIndexAfterRejection (nextIndexLocked q n) (last_index (ndb f)))"
    and sl: "same_log f' f" and f': "clean f'" "currentTerm f' = currentTerm n"
    by (rule sendEntries_rejected [OF call mis])
  have "nextIndexLocked q n' = nextIndexAfterRejection (p + 1) (last_index (ndb f))"
    using ni assms(2,7) by (simp add: nextIndexLocked_def u64_at_def max_def)
  then have "conflicting q n' f'" using assms(6) f' by (intro conflicting_keeps [OF assms(1) tr sl]) simp_all
  moreover have "\<not> nextIndexLocked q n \<le> snap_index (ndb n)" unfolding assms(2) using s by (rule linorder_not_le [THEN iffD2])
  ultimately show ?thesis by (rule that [OF send _ sl])
qed

text \<open>A round from a position behind the leader's log, which is lowered by one without a call.\<close>

lemma conflicting_unknown:
  assumes "conflicting q n f" and "nextIndexLocked q n = p + 1" and "last_index (ndb n) < p" and "p \<in> retries n f"
  obtains n' where "sendEntries follower_net q n f = (appendRejected, n', f)" and "conflicting q n' f"
    and "\<not> nextIndexLocked q n \<le> snap_index (ndb n)"
proof -
  note C = assms(1) [unfolded conflicting_def]
  have ok: "log_ok (ndb n)" using C by blast
  have p0: "p \<noteq> 0" using assms(3) by auto
  have none: "term_at (ndb n) p = None" using term_at_iff [OF ok, of p] assms(3) p0 by auto
  have pm: "p \<noteq> - 1" using u64_less_not_max [OF u64_dec_less [OF nextIndexLocked_pos, of q n]] assms(2) by simp
  have "snap_index (ndb n) < p + 1"
    by (rule order.strict_trans [OF order.strict_trans1 [OF log_okD(2) [OF ok] assms(3)] u64_less_inc [OF pm]])
  then have no: "\<not> nextIndexLocked q n \<le> snap_index (ndb n)" unfolding assms(2) by (rule linorder_not_le [THEN iffD2])
  obtain x n' where b: "buildAppendRequestLocked q n = (x, n')" by fastforce
  have bn: "x = Inr None \<and> frame n' (n\<lparr>nextIndex := (nextIndex n)(q \<mapsto> max p 1)\<rparr>)"
    by (rule buildAppendRequestLocked_outcome [OF ok b]) (use C none assms(2) in auto)
  have tr: "tracks n' n" by (rule tracks_trans [OF tracks_frame tracks_upd(1)]) (use bn in blast)
  have "nextIndexLocked q n' = p"
    using bn frameD(16) [of n'] max_absorb1 [OF u64_pos [OF p0]] by (auto simp: nextIndexLocked_def u64_at_def)
  moreover have "same_log f f" using C by (simp add: same_log_def)
  ultimately have "conflicting q n' f" using C assms(4) by (intro conflicting_keeps [OF assms(1) tr]) simp_all
  moreover have "sendEntries follower_net q n f = (appendRejected, n', f)" using b bn by (simp add: sendEntries_def Let_def)
  ultimately show ?thesis using that no by blast
qed

text \<open>Where the leader retries when the follower's log ends at \<open>m\<close> and its own at \<open>l\<close>.\<close>

lemma retry_positions:
  assumes "m \<le> max_int64" and "l \<le> max_int64"
  shows "nextIndexAfterRejection m m = m + 1" and "m \<noteq> 0 \<Longrightarrow> nextIndexAfterRejection (m + 1) m = m"
    and "m < l \<Longrightarrow> nextIndexAfterRejection (l + 1) m = m + 1" and "l < m \<Longrightarrow> nextIndexAfterRejection (l + 1) m = m + 1"
    and "1 \<le> m + 1" and "l < m \<Longrightarrow> l + 1 \<le> m + 1"
proof -
  have u: "unat (l + 1) = Suc (unat l)" "unat (m + 1) = Suc (unat m)"
    using max_int64_not_max [OF assms(1)] max_int64_not_max [OF assms(2)] by (simp_all add: u64_unat_inc)
  show "nextIndexAfterRejection m m = m + 1" by (simp add: nextIndexAfterRejection_def)
  show "nextIndexAfterRejection (m + 1) m = m" if "m \<noteq> 0"
    using that u by (auto simp: nextIndexAfterRejection_def min_def max_def word_le_nat_alt word_unat_eq_iff)
  show "nextIndexAfterRejection (l + 1) m = m + 1" if "m < l"
    using that u by (auto simp: nextIndexAfterRejection_def min_def max_def word_le_nat_alt word_less_nat_alt word_unat_eq_iff)
  show "nextIndexAfterRejection (l + 1) m = m + 1" if "l < m"
    using that u by (simp add: nextIndexAfterRejection_def word_le_nat_alt word_less_nat_alt)
  show "1 \<le> m + 1" and "l < m \<Longrightarrow> l + 1 \<le> m + 1" using u by (simp_all add: word_le_nat_alt word_less_nat_alt)
qed

lemma conflicting_round:
  assumes "conflicting q n f"
  obtains n' f' where "sendEntries follower_net q n f = (appendRejected, n', f')" and "conflicting q n' f'" and "same_log f' f"
    and "\<not> nextIndexLocked q n \<le> snap_index (ndb n)"
proof -
  note goal = that
  let ?l = "last_index (ndb n)" and ?m = "last_index (ndb f)"
  define p where "p = nextIndexLocked q n - 1"
  note C = assms [unfolded conflicting_def]
  have nx: "nextIndexLocked q n = p + 1" by (simp add: p_def)
  have ok: "log_ok (ndb n)" "log_ok (ndb f)" using C by auto
  have pm: "p \<noteq> - 1" using u64_less_not_max [OF u64_dec_less [OF nextIndexLocked_pos]] by (simp add: p_def)
  have lm: "?m \<le> max_int64" "?l \<le> max_int64" using log_okD(3) ok by auto
  note P = retry_positions [OF lm] and reject = conflicting_rejected [OF assms nx pm, of thesis, OF _ _ _ _ goal]
  show thesis
  proof (cases "?m \<le> ?l")
    case True
    then have c: "?m \<noteq> 0" "conflict_at ?m n f" "conflict_at (?m - 1) n f" "p + 1 \<in> {?m, ?m + 1, ?l + 1}"
      and r: "retries n f = {?m, ?m + 1, ?l + 1}" using C nx by (auto simp: retries_def Let_def)
    have "p = ?m - 1 \<or> p = ?m \<or> p = ?l" using c(4) by (auto simp: eq_diff_eq)
    then consider "p = ?m - 1" | "p = ?m" | "p = ?l" "?m < ?l" using True by (auto simp: order.order_iff_strict)
    then show thesis
    proof cases
      case 1
      have "p \<le> ?l" using u64_dec_less [OF c(1)] True 1 by (auto intro: order_trans less_imp_le)
      then show ?thesis using c(3) P(1,5) 1 by (intro reject) (simp_all add: r)
    next
      case 2
      then show ?thesis using c(1,2) P(2) True u64_pos [OF c(1)] by (intro reject) (simp_all add: r)
    next
      case 3
      have "term_at (ndb f) p = None" using term_at_iff [OF ok(2), of p] 3 by (auto simp: linorder_not_le)
      moreover have "snap_index (ndb n) \<le> p" "snap_index (ndb f) \<le> p"
        using c(2) 3 by (auto simp: conflict_at_def intro: order_trans less_imp_le)
      moreover have "term_at (ndb n) p \<noteq> None" using term_at_iff [OF ok(1), of p] 3(1) calculation(2) by simp
      ultimately show ?thesis using 3 P(3,5) by (intro reject) (auto simp: r conflict_at_def)
    qed
  next
    case False
    then have c: "conflict_at ?l n f" "?l + 1 \<le> p + 1" "p + 1 \<le> ?m + 1" and r: "retries n f = {?l + 1 .. ?m + 1}"
      using C nx by (auto simp: retries_def Let_def)
    show thesis
    proof (cases "p = ?l")
      case True
      then show ?thesis using c(1) False P(4,5,6) by (intro reject) (simp_all add: r)
    next
      case ne: False
      have "?l < p" using c(2) ne u64_inc_le_iff [OF max_int64_not_max [OF lm(2)], of "p + 1"] pm
        by (auto simp: u64_less_inc_iff order.order_iff_strict)
      moreover have "p \<in> retries n f"
        using inc_le [OF \<open>?l < p\<close>] c(3) u64_less_inc [OF pm] by (auto simp: r intro: order_trans less_imp_le)
      moreover have "same_log f f" using ok(2) by (simp add: same_log_def)
      ultimately show ?thesis by (auto intro: goal conflicting_unknown [OF assms nx])
    qed
  qed
qed

text \<open>
  C23: a follower whose last two entries conflict with the leader's log, or whose log is longer and conflicts at the
  end of the leader's, is never repaired: from the position a new leader starts at and from every one it retries,
  no number of rounds succeeds, and the follower's log stays as it is.
\<close>

theorem conflicting_tail_is_never_repaired:
  assumes "conflicting q n f"
  shows "\<exists>n' f'. replicate_rounds k follower_net q n f = (False, n', f') \<and> conflicting q n' f' \<and> same_log f' f"
  using assms
proof (induction k arbitrary: n f)
  case 0
  then show ?case by (auto simp: same_log_def conflicting_def)
next
  case (Suc k)
  note C = Suc.prems [unfolded conflicting_def]
  obtain n1 f1 where send: "sendEntries follower_net q n f = (appendRejected, n1, f1)" and c1: "conflicting q n1 f1"
    and sl: "same_log f1 f" and no: "\<not> nextIndexLocked q n \<le> snap_index (ndb n)" by (rule conflicting_round [OF Suc.prems])
  obtain n2 f2 where "replicate_rounds k follower_net q n1 f1 = (False, n2, f2)" "conflicting q n2 f2" "same_log f2 f1"
    using Suc.IH [OF c1] by blast
  moreover have "peerNeedsSnapshot q n = (Inr False, n)"
    using no peerNeedsSnapshot_answers(3) [OF log_ok_meta, of n q] C by (cases "peerNeedsSnapshot q n") auto
  moreover have "\<not> net_cancelled follower_net f" by (simp add: follower_net_def)
  ultimately show ?case
    using send C sl by (auto simp: isLeader_def intro: same_log_trans)
qed

theorem conflicting_tail_is_never_repaired_witness:
  "\<exists>n' f'. replicate_rounds maxAppendRounds follower_net ''n2''
      (example_leader [''n2''] 3 (example_log [1, 2]) 3) (example_node ''n2'' [''n1''] 2 (example_log [1, 1, 1]))
     = (False, n', f') \<and> last_index (ndb f') = 3"
proof -
  have "term_at (example_log [1, 2]) 2 = Some 2" "term_at (example_log [1, 1, 1]) 2 = Some 1"
    using term_at_entry [of "example_log [1, 2]"] term_at_entry [of "example_log [1, 1, 1]"]
    by (simp_all add: example_entry_def)
  then have "conflicting ''n2'' (example_leader [''n2''] 3 (example_log [1, 2]) 3)
      (example_node ''n2'' [''n1''] 2 (example_log [1, 1, 1]))"
    by (simp add: conflicting_def conflict_at_def retries_def max_int64_def max_def word_le_nat_alt)
  from conflicting_tail_is_never_repaired [OF this, of maxAppendRounds] show ?thesis
    by (auto simp: same_log_def)
qed

section \<open>Matching logs\<close>

lemma follows_covers:
  assumes "follows p es" and "p < i" and "i \<le> end_index p es"
  shows "\<exists>e \<in> set es. Entry_Index e = i"
  using assms
proof (induction es arbitrary: p)
  case Nil
  then show ?case by (simp add: linorder_not_le [symmetric])
next
  case (Cons e es)
  have "p + 1 \<le> i" using Cons.prems(2) by (rule inc_le)
  then show ?case using Cons by (cases "i = p + 1") auto
qed

text \<open>The logs of a leader and a follower after a call that the follower accepted.\<close>

definition matched :: "u64 \<Rightarrow> u64 \<Rightarrow> Node \<Rightarrow> Node \<Rightarrow> Node \<Rightarrow> bool" where
  "matched p e n f f' \<longleftrightarrow>
     log_ok (ndb f') \<and> e \<le> last_index (ndb f')
     \<and> (\<forall>i. p \<le> i \<and> i \<le> e \<and> snap_index (ndb f') \<le> i \<longrightarrow> term_at (ndb f') i = term_at (ndb n) i)
     \<and> (\<forall>i. i \<le> p \<and> snap_index (ndb f') \<le> i \<longrightarrow> term_at (ndb f') i = term_at (ndb f) i)"

text \<open>The entries a follower has merged into its log, up to a compaction.\<close>

definition takes :: "Entry list \<Rightarrow> Node \<Rightarrow> Node \<Rightarrow> bool" where
  "takes es f f' \<longleftrightarrow>
     (\<exists>d. log_ok d \<and> term_at d = term_at (ndb f) \<and> last_index d = last_index (ndb f) \<and> snap_index d = snap_index (ndb f)
        \<and> compacts (ndb f') (merge_log es d))"

lemma sendEntries_accepted:
  assumes "can_call q n f t" and "term_at (ndb f) (nextIndexLocked q n - 1) = Some t" and "commitIndex n \<le> max_int64"
  defines "p \<equiv> nextIndexLocked q n - 1" and "e \<equiv> end_index (nextIndexLocked q n - 1) (entries_from (nextIndexLocked q n) appendBatchSize (ndb n))"
  obtains n' f' where "sendEntries follower_net q n f = (appendAccepted, n', f')"
    and "u64_at (matchIndex n') q = max (u64_at (matchIndex n) q) e"
    and "u64_at (nextIndex n') q = max (u64_at (matchIndex n) q) e + 1"
    and "role n' = RoleLeader" and "currentTerm n' = currentTerm n" and "compacts (ndb n') (ndb n)"
    and "matched p e n f f'" and "currentTerm f' = currentTerm n"
    and "\<exists>k. tracks k n \<and> frame n' (advanceCommitLocked k)"
    and "takes (entries_from (nextIndexLocked q n) appendBatchSize (ndb n)) f f'" and "clean f'"
proof -
  note C = can_callD [OF assms(1)]
  let ?es = "entries_from (nextIndexLocked q n) appendBatchSize (ndb n)"
  have p1: "nextIndexLocked q n = p + 1" by (simp add: p_def)
  have e: "e = end_index p ?es" by (simp only: e_def p_def)
  have s: "snap_index (ndb n) \<le> p" "snap_index (ndb f) \<le> p" using next_prev [OF C(8)] C(10) by (simp_all add: p_def)
  have pl: "p \<le> last_index (ndb n)" "p \<le> last_index (ndb f)"
    using prev_position [OF C(1,9)] prev_position [OF C(5) assms(2)] s by (simp_all add: p_def)
  then have pm: "p < max_int64" using C(4) by (auto intro: order.strict_trans1)
  note B = batch_spec [OF C(1) s(1) pm, folded p1]
  obtain req n1 where b: "buildAppendRequestLocked q n = (Inr (Some req), n1)" and f1: "frame n1 n" and wf: "request_ok req"
    and req: "AppendReq_Term req = currentTerm n" "AppendReq_PrevLogIndex req = p" "AppendReq_PrevLogTerm req = t"
      "map toStorageEntry (AppendReq_Entries req) = ?es" "lastEntryIndex req = e"
    unfolding p_def e_def by (rule call_request [OF assms(1)])
  have acc: "currentTerm f \<le> AppendReq_Term req" "snap_index (ndb f) \<le> AppendReq_PrevLogIndex req"
    "term_at (ndb f) (AppendReq_PrevLogIndex req) = Some (AppendReq_PrevLogTerm req)"
    using C(7) s(2) assms(2) req by (simp_all add: p_def)
  obtain resp f' d where a: "AppendEntries req f = (Inr resp, f')" and su: "AppendResp_Success resp"
    and mi: "AppendResp_MatchIndex resp = e" and ad: "adopted (currentTerm n) f d"
    and cf: "commit_followed (AppendReq_LeaderCommit req)
           (with_db (merge_log ?es d) (stepped_down (currentTerm n) (AppendReq_LeaderId req) d f)) f'"
    by (rule append_accepted [OF C(5,6) wf acc, unfolded req(1,2,4), folded e])
  note L = adopted_log [OF ad C(5)]
  have "snap_index d \<le> p" "p \<le> last_index d" using s(2) pl(2) L(3,7) by simp_all
  note M = merge_log_spec [OF L(1) this B(1)]
  have ok: "log_ok (ndb (with_db (merge_log ?es d) (stepped_down (currentTerm n) (AppendReq_LeaderId req) d f)))"
    using M(1) by simp
  note R = commit_followed_result [OF cf ok]
  note K = compactsD [OF R(1)]
  have eq: "term_at (merge_log ?es d) i = term_at (ndb n) i" if i: "p \<le> i" "i \<le> e" for i
  proof (cases "i = p")
    case True
    then show ?thesis using M(6) [of p] L(4) assms(2) C(9) by (simp add: p_def)
  next
    case False
    then have "p < i" "i \<le> end_index p ?es" using i by (auto simp: e)
    then obtain x where x: "x \<in> set ?es" "Entry_Index x = i" using follows_covers [OF B(1)] by blast
    then show ?thesis using M(3) [OF x(1)] entry_at_term [OF C(1) B(2) [OF x(1)]] by simp
  qed
  have mt: "matched p e n f f'"
    using K(1,3,7) M(2,6) L(4) eq by (auto simp: matched_def e)
  have tk: "takes ?es f f'" unfolding takes_def using R(1) L(1,3,4,7) by (intro exI [of _ d]) simp
  have ct: "currentTerm f' = currentTerm n" using R(7) C(7) by (simp add: max_def)
  have cl: "clean f'" using R(11) C(6) by simp
  have rt: "AppendResp_Term resp = currentTerm n"
    by (rule AppendEntries_outcome [OF C(5) a wf [unfolded request_ok_def]]) (use su req in auto)
  obtain out n2 where ap: "append_reply q (currentTerm n) req (Some resp) n1 = (out, n2)" by fastforce
  have ok1: "log_ok (ndb n1)" using frameD(1) [OF f1] C(1) by simp
  have "out = appendAccepted \<and> u64_at (matchIndex n2) q = max (u64_at (matchIndex n) q) e
    \<and> u64_at (nextIndex n2) q = max (u64_at (matchIndex n) q) e + 1 \<and> role n2 = RoleLeader
    \<and> currentTerm n2 = currentTerm n \<and> compacts (ndb n2) (ndb n) \<and> (\<exists>k. tracks k n \<and> frame n2 (advanceCommitLocked k))"
  proof (cases rule: append_reply_outcome [OF ok1 ap])
    case (2 resp')
    then show ?thesis using rt frameD(11) [OF f1] by (auto simp: observeHigherTerm_def)
  next
    case (3 resp')
    then show ?thesis using frameD(10,11) [OF f1] C(3) by simp
  next
    case (5 resp' k)
    have T: "tracks (progressed q e (notePeerReachableLocked q n1)) n"
      by (rule tracks_trans [OF tracks_progressed tracks_trans [OF tracks_peers(2) tracks_frame [OF f1]]])
    have k: "frame k (progressed q e (notePeerReachableLocked q n1))" using 5(1,7) mi req(5) by simp
    have "log_ok (ndb k)" "commitIndex k \<le> max_int64"
      using frameD(1,14) [OF k] tracksD(1,8) [OF T] C(1) assms(3) by simp_all
    note A = advancedD [OF advanceCommitLocked_advanced(1) [OF this]]
    have "matchIndex (notePeerReachableLocked q n1) = matchIndex n"
      using frameD(17) [OF f1] by (simp add: notePeerReachableLocked_def)
    moreover have "tracks k n" by (rule tracks_trans [OF tracks_frame [OF k] T])
    ultimately show ?thesis
      using frameD [OF 5(8)] A(1,6,7,10,11) frameD [OF k] tracksD [OF T] C(3) 5(2,8) by auto
  qed (use su in auto)
  moreover have "sendEntries follower_net q n f = (out, n2, f')"
    using b a ap by (simp add: sendEntries_def follower_net_def Let_def)
  ultimately show ?thesis using that mt ct tk cl by simp
qed

text \<open>
  Two logs agree up to \<open>m\<close> when both reach it and have the same terms at every position that neither has compacted.
  Log matching is Raft's invariant that equal terms at a position imply agreement up to it.
\<close>

definition agree_upto :: "u64 \<Rightarrow> Node \<Rightarrow> Node \<Rightarrow> bool" where
  "agree_upto m n f \<longleftrightarrow>
     m \<le> last_index (ndb n) \<and> m \<le> last_index (ndb f)
     \<and> (\<forall>i. i \<le> m \<and> snap_index (ndb n) \<le> i \<and> snap_index (ndb f) \<le> i \<longrightarrow> term_at (ndb f) i = term_at (ndb n) i)"

definition log_matching :: "Node \<Rightarrow> Node \<Rightarrow> bool" where
  "log_matching n f \<longleftrightarrow>
     (\<forall>i. snap_index (ndb n) \<le> i \<and> snap_index (ndb f) \<le> i \<and> term_at (ndb n) i \<noteq> None
        \<and> term_at (ndb f) i = term_at (ndb n) i \<longrightarrow> agree_upto i n f)"

lemma agree_uptoD:
  "agree_upto m n f \<Longrightarrow> m \<le> last_index (ndb n)" "agree_upto m n f \<Longrightarrow> m \<le> last_index (ndb f)"
  "agree_upto m n f \<Longrightarrow> i \<le> m \<Longrightarrow> snap_index (ndb n) \<le> i \<Longrightarrow> snap_index (ndb f) \<le> i \<Longrightarrow> term_at (ndb f) i = term_at (ndb n) i"
  by (simp_all add: agree_upto_def)

lemma log_matchingD:
  "log_matching n f \<Longrightarrow> snap_index (ndb n) \<le> i \<Longrightarrow> snap_index (ndb f) \<le> i \<Longrightarrow> term_at (ndb n) i = Some t
    \<Longrightarrow> term_at (ndb f) i = Some t \<Longrightarrow> agree_upto i n f"
  by (simp add: log_matching_def)

lemma agree_upto_mono: "agree_upto m n f \<Longrightarrow> k \<le> m \<Longrightarrow> agree_upto k n f"
  by (auto simp: agree_upto_def intro: order_trans)

lemma agree_upto_sym: "agree_upto m n f = agree_upto m f n"
  by (auto simp: agree_upto_def)

lemma log_matching_sym: "log_matching n f = log_matching f n"
  unfolding log_matching_def agree_upto_sym [of _ n f] by (metis (no_types))

text \<open>A node that only compacts its log keeps the agreement and the matching.\<close>

lemma kept_agreement:
  assumes "compacts (ndb f') d" and "term_at d = term_at (ndb f)" and "last_index d = last_index (ndb f)"
    and "snap_index d = snap_index (ndb f)"
  shows "agree_upto m n f \<Longrightarrow> agree_upto m n f'" and "log_matching n f \<Longrightarrow> log_matching n f'"
proof -
  have c: "last_index (ndb f') = last_index (ndb f)" "snap_index (ndb f) \<le> snap_index (ndb f')"
    "snap_index (ndb f') \<le> i \<Longrightarrow> term_at (ndb f') i = term_at (ndb f) i" for i
    using compactsD(3,4,7) [OF assms(1)] assms(2-4) by simp_all
  show a: "agree_upto m n f \<Longrightarrow> agree_upto m n f'" for m
    using c by (auto simp: agree_upto_def intro: order_trans)
  show "log_matching n f'" if l: "log_matching n f"
    unfolding log_matching_def
  proof (intro allI impI, elim conjE)
    fix i assume i: "snap_index (ndb n) \<le> i" "snap_index (ndb f') \<le> i" "term_at (ndb n) i \<noteq> None" "term_at (ndb f') i = term_at (ndb n) i"
    have "snap_index (ndb f) \<le> i" using c(2) i(2) by (rule order_trans)
    then show "agree_upto i n f'" using l i c(3) [OF i(2)] by (intro a) (simp add: log_matching_def)
  qed
qed

text \<open>The batch after a common position extends the agreement to its end and keeps all other agreement.\<close>

lemma accepted_agreement:
  assumes "log_ok (ndb n)" and "last_index (ndb n) < max_int64"
    and "snap_index (ndb n) \<le> p" and "snap_index (ndb f) \<le> p" and "term_at (ndb n) p = Some t" and "term_at (ndb f) p = Some t"
    and "log_ok (ndb f)" and "takes (entries_from (p + 1) appendBatchSize (ndb n)) f f'" and "matched p e n f f'"
    and "e = end_index p (entries_from (p + 1) appendBatchSize (ndb n))" and "log_matching n f"
  shows "agree_upto e n f'" and "agree_upto m n f \<Longrightarrow> agree_upto m n f'" and "log_matching n f'"
proof -
  let ?es = "entries_from (p + 1) appendBatchSize (ndb n)"
  obtain d where ok: "log_ok d" and d: "term_at d = term_at (ndb f)" "last_index d = last_index (ndb f)" "snap_index d = snap_index (ndb f)"
    and c: "compacts (ndb f') (merge_log ?es d)" using assms(8) by (auto simp: takes_def)
  have pl: "p \<le> last_index (ndb n)" "p \<le> last_index d"
    using prev_position [OF assms(1,5,3)] prev_position [OF assms(7,6,4)] d(2) by simp_all
  then have pm: "p < max_int64" using assms(2) by (auto intro: order.strict_trans1)
  note B = batch_spec [OF assms(1,3) pm]
  have "snap_index d \<le> p" using assms(4) d(3) by simp
  note M = merge_log_spec [OF ok this pl(2) B(1)]
  have snap: "snap_index (ndb f) \<le> snap_index (ndb f')" using compactsD(4) [OF c] d(3) by (simp add: view_simps)
  have p: "agree_upto p n f" by (rule log_matchingD [OF assms(11,3,4,5,6)])
  note mt = assms(9) [unfolded matched_def]
  show ae: "agree_upto e n f'"
    unfolding agree_upto_def
  proof (intro conjI allI impI)
    show "e \<le> last_index (ndb n)" "e \<le> last_index (ndb f')" using B(4) pl(1) mt assms(10) by simp_all
    fix i assume i: "i \<le> e \<and> snap_index (ndb n) \<le> i \<and> snap_index (ndb f') \<le> i"
    then have "snap_index (ndb f) \<le> i" using snap by (auto intro: order_trans)
    then show "term_at (ndb f') i = term_at (ndb n) i"
      using i mt agree_uptoD(3) [OF p] by (cases "p \<le> i") auto
  qed
  show "agree_upto m n f'" if a: "agree_upto m n f"
  proof (cases "merge_log ?es d = d")
    case True
    then show ?thesis using kept_agreement(1) [OF _ d a] c by simp
  next
    case False
    have "m \<le> e"
    proof (rule ccontr)
      assume "\<not> m \<le> e"
      have "term_at d (Entry_Index x) = Some (Entry_Term x)" if x: "x \<in> set ?es" for x
      proof -
        have i: "p \<le> Entry_Index x" "Entry_Index x \<le> e"
          using follows_index [OF B(1) less_imp_le [OF pm] x] follows_index_end [OF B(1) less_imp_le [OF pm] x] assms(10)
          by (simp_all add: less_imp_le)
        have "Entry_Index x \<le> m" by (rule order_trans [OF i(2)]) (use \<open>\<not> m \<le> e\<close> in simp)
        then have "term_at (ndb f) (Entry_Index x) = term_at (ndb n) (Entry_Index x)"
          by (rule agree_uptoD(3) [OF a _ order_trans [OF assms(3) i(1)] order_trans [OF assms(4) i(1)]])
        then show ?thesis using d(1) entry_at_term [OF assms(1) B(2) [OF x]] by simp
      qed
      then have "merge_log ?es d = d" by (intro merge_log_matched) simp
      with False show False by simp
    qed
    then show ?thesis by (rule agree_upto_mono [OF ae])
  qed
  show "log_matching n f'"
  proof (cases "merge_log ?es d = d")
    case True
    then show ?thesis using kept_agreement(2) [OF _ d assms(11)] c by simp
  next
    case False
    have "last_index (ndb f') = e" using M(7) [OF False] compactsD(3) [OF c] assms(10) by simp
    then have "i \<le> e" if "term_at (ndb f') i \<noteq> None" for i
      using that term_at_iff [OF compactsD(1) [OF c], of i] by auto
    then show ?thesis using agree_upto_mono [OF ae] by (auto simp: log_matching_def)
  qed
qed


lemma replicate_round:
  assumes "can_call q n f t"
  shows "replicate_rounds (Suc k) follower_net q n f =
    (case sendEntries follower_net q n f of
       (appendAccepted, n2, w1) \<Rightarrow> (True, n2, w1)
     | (appendFailed, n2, w1) \<Rightarrow> (False, n2, w1)
     | (appendRejected, n2, w1) \<Rightarrow> replicate_rounds k follower_net q n2 w1)"
proof -
  note C = can_callD [OF assms]
  have "\<not> nextIndexLocked q n \<le> snap_index (ndb n)" using C(8) by (rule linorder_not_le [THEN iffD2])
  then have "peerNeedsSnapshot q n = (Inr False, n)"
    using peerNeedsSnapshot_answers(3) [OF log_ok_meta [OF C(1)], of q] C(2) by (cases "peerNeedsSnapshot q n") auto
  moreover have "\<not> net_cancelled follower_net f" by (simp add: follower_net_def)
  ultimately show ?thesis using C(3) by (simp add: isLeader_def)
qed

text \<open>
  The follower's log is not longer than the leader's, its last entry has the leader's term, and the leader's next index
  is behind it.
\<close>

definition lagging :: "string \<Rightarrow> Node \<Rightarrow> Node \<Rightarrow> bool" where
  "lagging q n f \<longleftrightarrow>
     log_ok (ndb n) \<and> clean n \<and> role n = RoleLeader \<and> last_index (ndb n) < max_int64 \<and> commitIndex n \<le> max_int64
     \<and> log_ok (ndb f) \<and> clean f \<and> currentTerm f \<le> currentTerm n
     \<and> snap_index (ndb n) \<le> last_index (ndb f) \<and> last_index (ndb f) \<le> last_index (ndb n)
     \<and> term_at (ndb f) (last_index (ndb f)) = term_at (ndb n) (last_index (ndb f))
     \<and> last_index (ndb f) < nextIndexLocked q n \<and> nextIndexLocked q n \<le> last_index (ndb n) + 1"

lemma lagging_call:
  assumes "lagging q n f"
  obtains t where "can_call q n f t"
    and "term_at (ndb f) (nextIndexLocked q n - 1) = Some t \<longleftrightarrow> nextIndexLocked q n = last_index (ndb f) + 1"
proof -
  note C = assms [unfolded lagging_def]
  let ?M = "last_index (ndb f)" and ?p = "nextIndexLocked q n - 1"
  have M: "?M \<le> ?p" using C next_prev by blast
  have p: "?p \<le> last_index (ndb n)"
    using C u64_dec_less [OF nextIndexLocked_pos, of q n] u64_less_inc_iff [OF u64_less_not_max, of "last_index (ndb n)" max_int64 ?p]
    by (auto intro: order.strict_trans2)
  have s: "snap_index (ndb n) \<le> ?p" "snap_index (ndb f) \<le> ?p"
    using C M log_okD(2) [of "ndb f"] by (auto intro: order_trans)
  obtain t where t: "term_at (ndb n) ?p = Some t" using term_at_iff [of "ndb n" ?p] C s(1) p by auto
  have "snap_index (ndb n) < nextIndexLocked q n" using C by (auto intro: order.strict_trans1)
  then have "can_call q n f t" using C t s by (simp add: can_call_def)
  moreover have "term_at (ndb f) ?p = Some t \<longleftrightarrow> nextIndexLocked q n = ?M + 1"
  proof
    assume "nextIndexLocked q n = ?M + 1"
    then show "term_at (ndb f) ?p = Some t" using C t by simp
  next
    assume "term_at (ndb f) ?p = Some t"
    then have "?p \<le> ?M" using prev_position [of "ndb f" ?p t] C s(2) by blast
    then have "?p = ?M" using M by simp
    then show "nextIndexLocked q n = ?M + 1" by (metis diff_add_cancel)
  qed
  ultimately show ?thesis by (rule that)
qed

lemma lagging_accepts:
  assumes "lagging q n f" and "nextIndexLocked q n = last_index (ndb f) + 1"
  defines "es \<equiv> entries_from (last_index (ndb f) + 1) appendBatchSize (ndb n)"
  defines "e \<equiv> end_index (last_index (ndb f)) es"
  obtains n' f' where "\<forall>k. replicate_rounds (Suc k) follower_net q n f = (True, n', f')"
    and "u64_at (matchIndex n') q = max (u64_at (matchIndex n) q) e"
    and "u64_at (nextIndex n') q = max (u64_at (matchIndex n) q) e + 1"
    and "matched (last_index (ndb f)) e n f f'" and "takes es f f'" and "clean f'" and "currentTerm f' = currentTerm n"
    and "\<exists>k. tracks k n \<and> frame n' (advanceCommitLocked k)"
proof -
  have c: "commitIndex n \<le> max_int64" using assms(1) by (simp add: lagging_def)
  obtain t where call: "can_call q n f t" and t: "term_at (ndb f) (nextIndexLocked q n - 1) = Some t"
    using lagging_call [OF assms(1)] assms(2) by metis
  obtain n' f' where "sendEntries follower_net q n f = (appendAccepted, n', f')"
    and "u64_at (matchIndex n') q = max (u64_at (matchIndex n) q) e"
    and "u64_at (nextIndex n') q = max (u64_at (matchIndex n) q) e + 1"
    and "matched (last_index (ndb f)) e n f f'" and "takes es f f'" and "clean f'" and "currentTerm f' = currentTerm n"
    and "\<exists>k. tracks k n \<and> frame n' (advanceCommitLocked k)"
    unfolding e_def es_def by (rule sendEntries_accepted [OF call t c]) (simp add: assms(2))
  then show ?thesis using that [of n' f'] replicate_round [OF call] by (simp del: replicate_rounds.simps)
qed

text \<open>A first round that the follower rejects moves the next index behind the follower's end.\<close>

lemma lagging_steps_back:
  assumes "lagging q n f" and "nextIndexLocked q n \<noteq> last_index (ndb f) + 1"
  obtains n' f' where "\<forall>k. replicate_rounds (Suc k) follower_net q n f = replicate_rounds k follower_net q n' f'"
    and "lagging q n' f'" and "nextIndexLocked q n' = last_index (ndb f) + 1" and "same_log f' f" and "tracks n' n"
    and "matchIndex n' = matchIndex n"
proof -
  let ?M = "last_index (ndb f)"
  obtain t where call: "can_call q n f t" and mis: "term_at (ndb f) (nextIndexLocked q n - 1) \<noteq> Some t"
    using lagging_call [OF assms(1)] assms(2) by metis
  note C = assms(1) [unfolded lagging_def]
  have mx: "?M < max_int64" using C by (auto intro: order.strict_trans1)
  obtain n1 f1 where send: "sendEntries follower_net q n f = (appendRejected, n1, f1)" and tr: "tracks n1 n"
    and ni: "nextIndex n1 q = Some (nextIndexAfterRejection (nextIndexLocked q n) ?M)"
    and sl: "same_log f1 f" and f1: "clean f1" "currentTerm f1 = currentTerm n" and mi: "matchIndex n1 = matchIndex n"
    by (rule sendEntries_rejected [OF call mis])
  have lt: "?M < nextIndexLocked q n" "?M + 1 \<le> nextIndexLocked q n" using C by (auto intro: inc_le)
  then have l2: "?M + 1 < nextIndexLocked q n" using assms(2) by simp
  have g0: "?M + 1 \<le> nextIndexLocked q n - 1" by (rule next_prev [OF l2])
  have pos: "1 \<le> ?M + 1" "\<not> nextIndexLocked q n \<le> 1"
  proof -
    have "0 < ?M + 1" by (rule order.strict_trans1 [OF _ u64_less_inc [OF u64_less_not_max [OF mx]]]) simp
    then show p: "1 \<le> ?M + 1" using inc_le [of 0 "?M + 1"] by simp
    show "\<not> nextIndexLocked q n \<le> 1" using order.strict_trans1 [OF p l2] by (rule linorder_not_le [THEN iffD2])
  qed
  have "nextIndexAfterRejection (nextIndexLocked q n) ?M = ?M + 1"
    using lt(1) g0 pos by (simp add: nextIndexAfterRejection_def linorder_not_le [THEN iffD2] min_absorb2 max_absorb1)
  then have n1: "nextIndexLocked q n1 = ?M + 1" using ni pos(1) by (simp add: nextIndexLocked_def u64_at_def max_def)
  have "?M + 1 \<le> last_index (ndb n) + 1" by (rule order_trans [OF lt(2)]) (use C in blast)
  then have "lagging q n1 f1"
    using C tracksD [OF tr] sl f1 n1 u64_less_inc [OF u64_less_not_max [OF mx]]
    by (simp add: lagging_def same_log_def)
  moreover have "\<forall>k. replicate_rounds (Suc k) follower_net q n f = replicate_rounds k follower_net q n1 f1"
    using replicate_round [OF call] send by (simp del: replicate_rounds.simps)
  ultimately show ?thesis using n1 sl tr mi by (intro that [of n1 f1])
qed

lemma lagging_replicates:
  assumes "lagging q n f"
  defines "es \<equiv> entries_from (last_index (ndb f) + 1) appendBatchSize (ndb n)"
  defines "e \<equiv> end_index (last_index (ndb f)) es"
  obtains n' f' where "\<forall>k. replicate_rounds (Suc (Suc k)) follower_net q n f = (True, n', f')"
    and "u64_at (matchIndex n') q = max (u64_at (matchIndex n) q) e"
    and "u64_at (nextIndex n') q = max (u64_at (matchIndex n) q) e + 1"
    and "matched (last_index (ndb f)) e n f f'" and "takes es f f'" and "clean f'" and "currentTerm f' = currentTerm n"
    and "\<exists>k. tracks k n \<and> frame n' (advanceCommitLocked k)"
proof (cases "nextIndexLocked q n = last_index (ndb f) + 1")
  case True
  show ?thesis by (rule lagging_accepts [OF assms(1) True, folded es_def e_def])
      (rule that, blast, assumption+)
next
  case False
  obtain m g where step: "\<forall>k. replicate_rounds (Suc k) follower_net q n f = replicate_rounds k follower_net q m g"
    and lag: "lagging q m g" and nx: "nextIndexLocked q m = last_index (ndb f) + 1" and sl: "same_log g f" and tr: "tracks m n"
    and mi: "matchIndex m = matchIndex n" by (rule lagging_steps_back [OF assms(1) False])
  have eq: "last_index (ndb g) = last_index (ndb f)" "ndb m = ndb n" "currentTerm m = currentTerm n"
    using sl tracksD(1,5) [OF tr] by (simp_all add: same_log_def)
  obtain n' f' where run: "\<forall>k. replicate_rounds (Suc k) follower_net q m g = (True, n', f')"
    and "u64_at (matchIndex n') q = max (u64_at (matchIndex m) q) e"
    and "u64_at (nextIndex n') q = max (u64_at (matchIndex m) q) e + 1"
    and mt: "matched (last_index (ndb f)) e m g f'" and tk: "takes es g f'" and "clean f'" and "currentTerm f' = currentTerm m"
    and k: "\<exists>k. tracks k m \<and> frame n' (advanceCommitLocked k)"
    by (rule lagging_accepts [OF lag]) (simp_all add: nx eq es_def e_def)
  moreover have "matched (last_index (ndb f)) e n f f'" "takes es f f'"
    using mt tk sl eq by (simp_all add: matched_def takes_def same_log_def)
  moreover have "\<exists>k. tracks k n \<and> frame n' (advanceCommitLocked k)" using k tracks_trans [OF _ tr] by blast
  ultimately show ?thesis using step mi eq(3) by (intro that [of n' f']) (simp_all del: replicate_rounds.simps)
qed

text \<open>The follower's log is a prefix of the leader's, and the leader has recorded no more than that.\<close>

definition behind :: "string \<Rightarrow> Node \<Rightarrow> Node \<Rightarrow> bool" where
  "behind q n f \<longleftrightarrow>
     lagging q n f \<and> agree_upto (last_index (ndb f)) n f \<and> u64_at (matchIndex n) q \<le> last_index (ndb f)"

lemma prefix_log_matching:
  assumes "log_ok (ndb f)" and "agree_upto (last_index (ndb f)) n f"
  shows "log_matching n f"
  unfolding log_matching_def
proof (intro allI impI, elim conjE)
  fix i assume "term_at (ndb n) i \<noteq> None" "term_at (ndb f) i = term_at (ndb n) i"
  then have "i \<le> last_index (ndb f)" using term_at_iff [OF assms(1), of i] by auto
  then show "agree_upto i n f" by (rule agree_upto_mono [OF assms(2)])
qed

text \<open>What the leader keeps when it has taken an answer into account.\<close>

lemma leader_keeps:
  assumes "node_ok n" and "snapshotThreshold n = 0" and "clean n" and "tracks k n" and "frame n' (advanceCommitLocked k)"
  shows "node_ok n'" and "snapshotThreshold n' = 0" and "clean n'" and "role n' = role n" and "currentTerm n' = currentTerm n"
    and "compacts (ndb n') (ndb n)" and "snap_index (ndb n') = snap_index (ndb n)" and "commitIndex n' \<le> max_int64"
proof -
  note T = tracksD [OF assms(4)] and F = frameD [OF assms(5)]
  have k: "node_ok k" using assms(1) T by (simp add: node_ok_def)
  note A = advancedD [OF advanceCommitLocked_advanced(1) [OF node_okD(1) [OF k] node_ok_commit_bound [OF k]]]
  show ok: "node_ok n'" by (rule node_ok_frame [OF advanceCommitLocked_node_ok [OF k] assms(5)])
  show "commitIndex n' \<le> max_int64" by (rule node_ok_commit_bound [OF ok])
  show "clean n'" using frame_clean [OF assms(5)] A(12) T(10) assms(3) by simp
  show "snap_index (ndb n') = snap_index (ndb n)" using advanceCommitLocked_snapshot [OF k] T(1,11) F(1) assms(2) by simp
  show "snapshotThreshold n' = 0" and "role n' = role n" and "currentTerm n' = currentTerm n" and "compacts (ndb n') (ndb n)"
    using A F T assms(2) by simp_all
qed

lemma behind_call:
  assumes "behind q n f" and "node_ok n" and "snapshotThreshold n = 0"
  obtains n' f' where "\<forall>k. replicate_rounds (Suc (Suc k)) follower_net q n f = (True, n', f')"
    and "behind q n' f'" and "node_ok n'" and "snapshotThreshold n' = 0" and "last_index (ndb n') = last_index (ndb n)"
    and "unat (last_index (ndb f')) = min (unat (last_index (ndb n))) (unat (last_index (ndb f)) + 128)"
    and "u64_at (matchIndex n') q = last_index (ndb f')"
proof -
  let ?M = "last_index (ndb f)"
  let ?es = "entries_from (?M + 1) appendBatchSize (ndb n)"
  define e where "e = end_index ?M ?es"
  have lag: "lagging q n f" and ag: "agree_upto ?M n f" and mM: "u64_at (matchIndex n) q \<le> ?M" using assms(1) by (simp_all add: behind_def)
  note C = lag [unfolded lagging_def]
  have ok: "log_ok (ndb n)" "log_ok (ndb f)" "last_index (ndb n) < max_int64" "snap_index (ndb n) \<le> ?M" "?M \<le> last_index (ndb n)"
    "clean n" using C by blast+
  have mx: "?M < max_int64" using ok(5,3) by (rule order.strict_trans1)
  obtain n' f' where run: "\<forall>k. replicate_rounds (Suc (Suc k)) follower_net q n f = (True, n', f')"
    and mi: "u64_at (matchIndex n') q = max (u64_at (matchIndex n) q) e"
    and ni: "u64_at (nextIndex n') q = max (u64_at (matchIndex n) q) e + 1"
    and mt: "matched ?M e n f f'" and tk: "takes ?es f f'" and f': "clean f'" "currentTerm f' = currentTerm n"
    and k: "\<exists>k. tracks k n \<and> frame n' (advanceCommitLocked k)"
    unfolding e_def by (rule lagging_replicates [OF lag])
  obtain k where "tracks k n" "frame n' (advanceCommitLocked k)" using k by blast
  note K = leader_keeps [OF assms(2,3) ok(6) this]
  note B = batch_spec [OF ok(1,4) mx, folded e_def]
  have Me: "?M \<le> e" using follows_end [OF B(1)] mx by (simp add: e_def)
  obtain t where t: "term_at (ndb f) ?M = Some t" using term_at_iff [OF ok(2), of ?M] log_okD(2) [OF ok(2)] by auto
  then have t': "term_at (ndb n) ?M = Some t"
    using agree_uptoD(3) [OF ag order_refl ok(4) log_okD(2) [OF ok(2)]] by simp
  note A = accepted_agreement(1) [OF ok(1,3,4) log_okD(2) [OF ok(2)] t' t ok(2) tk mt e_def prefix_log_matching [OF ok(2) ag]]
  have "agree_upto e n' f'" using kept_agreement(1) [OF K(6) refl refl refl, of e f'] A by (simp add: agree_upto_sym)
  note E = agree_uptoD [OF this] this
  have le: "last_index (ndb f') = e"
  proof -
    obtain d where d: "last_index d = ?M" "log_ok d" "snap_index d = snap_index (ndb f)" and c: "compacts (ndb f') (merge_log ?es d)"
      using tk by (auto simp: takes_def)
    have "snap_index d \<le> ?M" using d(3) log_okD(2) [OF ok(2)] by simp
    then have "last_index (merge_log ?es d) \<le> e"
      using merge_log_spec(7) [OF d(2) _ _ B(1)] d(1) Me e_def by (cases "merge_log ?es d = d") auto
    then show ?thesis using E(2) compactsD(3) [OF c] by simp
  qed
  have mx': "e < max_int64" using E(1) compactsD(3) [OF K(6)] ok(3) by (auto intro: order.strict_trans1)
  have me: "max (u64_at (matchIndex n) q) e = e" using mM Me by (simp add: max_absorb2 order_trans)
  have "e + 1 \<noteq> 0" using u64_less_inc [OF u64_less_not_max [OF mx']] by auto
  then have nx: "nextIndexLocked q n' = e + 1" using ni me u64_pos [of "e + 1"] by (simp add: nextIndexLocked_def max_absorb1)
  have okf': "log_ok (ndb f')" using mt by (simp add: matched_def)
  have "snap_index (ndb n') \<le> e" using K(7) ok(4) Me by (simp add: order_trans)
  moreover have "e + 1 \<le> last_index (ndb n') + 1"
    using E(1) mx' u64_unat_inc [OF u64_less_not_max [OF mx']] compactsD(3) [OF K(6)] u64_unat_inc [OF u64_less_not_max [OF ok(3)]]
    by (simp add: word_le_nat_alt)
  ultimately have "lagging q n' f'"
    using C K node_okD(1) [OF K(1)] okf' f' le nx E(1) E(3) [OF order_refl] log_okD(2) [OF okf'] u64_less_inc [OF u64_less_not_max [OF mx']]
      compactsD(3) [OF K(6)] ok(3) by (simp add: lagging_def)
  then have "behind q n' f'" using E(4) mi me le by (simp add: behind_def)
  then show ?thesis
    using that [OF run] K(1,2) compactsD(3) [OF K(6)] B(8) [OF ok(5)] le mi me by (simp add: e_def)
qed


lemma example_terms [simp]:
  "term_at (example_log [t]) 1 = Some t" "term_at (example_log [t, u]) 1 = Some t" "term_at (example_log [t, u]) 2 = Some u"
  "term_at (example_log [t, u, v]) 1 = Some t" "term_at (example_log [t, u, v]) 2 = Some u"
  "term_at (example_log [t, u, v]) 3 = Some v"
  using term_at_entry [of "example_log [t]" 1] term_at_entry [of "example_log [t, u]"] term_at_entry [of "example_log [t, u, v]"]
  by (simp_all add: example_entry_def)

lemma example_agree: "agree_upto 1 (example_leader ps 3 (example_log [1, 2, 2]) k) (example_node ''n2'' [''n1''] 1 (example_log [1]))"
proof -
  have z: "term_at (example_log [1]) 0 = Some 0" "term_at (example_log [1, 2, 2]) 0 = Some 0" by (simp_all add: term_at_def)
  have "i = 0 \<or> i = 1" if "i \<le> 1" for i :: u64 using that inc_le [of 0 i] by (cases "i = 0") (auto simp: word_neq_0_conv)
  then have "term_at (example_log [1]) i = term_at (example_log [1, 2, 2]) i" if "i \<le> 1" for i using that z by fastforce
  then show ?thesis by (simp add: agree_upto_def word_le_nat_alt)
qed



section \<open>Positions\<close>

text \<open>
  The retry position is at least 1 unless the reported index is the largest 64 bit value, in which
  case it wraps to 0; a follower that is behind the current guess makes it strictly smaller, to at
  most the position behind the follower's end; one that is ahead makes it the position behind the
  follower's end.
\<close>

lemma next_index_after_rejection_bounds:
  "(m \<noteq> - 1 \<longrightarrow> 1 \<le> nextIndexAfterRejection current m)
   \<and> (1 < current \<and> m < current \<longrightarrow>
        nextIndexAfterRejection current m < current \<and> nextIndexAfterRejection current m \<le> max 1 (m + 1))
   \<and> (current \<le> m \<longrightarrow> nextIndexAfterRejection current m = m + 1) \<and> nextIndexAfterRejection current (- 1) = 0"
proof -
  have inc: "1 \<le> m + 1" if "m \<noteq> - 1"
  proof -
    have "0 < m + 1" by (rule order.strict_trans1 [OF _ u64_less_inc [OF that]]) simp
    then show ?thesis using inc_le [of 0 "m + 1"] by simp
  qed
  have dec: "current - 1 < current" if "1 < current"
    by (rule u64_dec_less) (use that in auto)
  have top: "current \<le> - 1" using word_order.extremum [of current] by simp
  show ?thesis
    using inc dec top
    by (cases "m = - 1") (auto simp: nextIndexAfterRejection_def min_less_iff_disj linorder_not_le [THEN iffD2] le_max_iff_disj)
qed

theorem next_index_after_rejection_bounds_witness:
  "1 \<le> nextIndexAfterRejection 5 2 \<and> nextIndexAfterRejection 5 2 < 5 \<and> nextIndexAfterRejection 3 4 = 5"
  using next_index_after_rejection_bounds [of 2 5] next_index_after_rejection_bounds [of 4 3] by simp

section \<open>Requests of a deposed leader\<close>

text \<open>
  C26: the role is checked in one critical section and the request is built in a later one, with the
  term the node has by then.  A leader that learns of a newer term in between sends a request in that
  term although it does not lead it, and whoever does lead it steps down and follows the sender.
\<close>

theorem deposed_leader_speaks_for_new_term:
  assumes "log_ok (ndb n)" and "clean n" and "isLeader n" and "currentTerm n < t"
    and "snap_index (ndb n) < nextIndexLocked q n" and "last_index (ndb n) < max_int64"
    and "term_at (ndb n) (nextIndexLocked q n - 1) = Some pt"
    and "log_ok (ndb l)" and "isLeader l" and "currentTerm l = t"
  shows "\<exists>n1 req n2 r l'. observeHigherTerm t n = (True, n1) \<and> \<not> isLeader n1
    \<and> buildAppendRequestLocked q n1 = (Inr (Some req), n2) \<and> AppendReq_Term req = t
    \<and> AppendReq_LeaderId req = node_id n \<and> AppendEntries req l = (r, l') \<and> \<not> isLeader l' \<and> leaderID l' = node_id n"
proof -
  obtain d where f: "frame (stepDownLocked t [] n) (stepped_down t [] d n)"
    and "d = (if currentTerm n < t then put_term_vote t [] (ndb n) else ndb n) \<or> (d = ndb n \<and> \<not> clean n)"
    by (rule stepDownLocked_frame [OF log_ok_meta [OF assms(1)]])
  then have ad: "adopted t n d" by (simp add: adopted_def)
  define n1 where "n1 = stepDownLocked t [] n"
  note L = adopted_log [OF ad assms(1)] and F = frameD [OF f [folded n1_def]]
  have n1: "log_ok (ndb n1)" "clean n1" "role n1 = RoleFollower" "currentTerm n1 = t" "node_id n1 = node_id n"
    "last_index (ndb n1) < max_int64" "nextIndexLocked q n1 = nextIndexLocked q n" "snap_index (ndb n1) = snap_index (ndb n)"
    "term_at (ndb n1) = term_at (ndb n)"
    using F L frame_clean [OF f [folded n1_def]] assms(2,6) less_imp_le [OF assms(4)]
    by (simp_all add: nextIndexLocked_def max_absorb2)
  have o: "observeHigherTerm t n = (True, n1)"
    using assms(4) by (simp add: observeHigherTerm_def n1_def linorder_not_le [THEN iffD2])
  have t1: "term_at (ndb n1) (nextIndexLocked q n1 - 1) = Some pt" using assms(7) n1 by simp
  let ?p = "nextIndexLocked q n - 1"
  obtain req n2 where b: "buildAppendRequestLocked q n1 = (Inr (Some req), n2)"
    and req: "req = \<lparr>AppendReq_Term = currentTerm n1, AppendReq_LeaderId = node_id n1,
             AppendReq_PrevLogIndex = nextIndexLocked q n1 - 1, AppendReq_PrevLogTerm = pt,
             AppendReq_Entries = map toLogEntry (entries_from (nextIndexLocked q n1) appendBatchSize (ndb n1)),
             AppendReq_LeaderCommit = commitIndex n1\<rparr>"
    by (rule build_known [OF n1(1,2) t1])
  have s: "snap_index (ndb n1) \<le> ?p" using next_prev [OF assms(5)] n1 by simp
  have "?p \<le> last_index (ndb n1)" by (rule prev_position [OF n1(1) _ s]) (use t1 n1 in simp)
  then have "?p < max_int64" using n1(6) by (rule order.strict_trans1)
  from batch_spec(1) [OF n1(1) s this] have wf: "request_ok req" by (simp add: req request_ok_def n1)
  obtain r l' where a: "AppendEntries req l = (r, l')" by fastforce
  have "role l' = RoleFollower \<and> leaderID l' = node_id n"
  proof (cases rule: AppendEntries_outcome [OF assms(8) a wf [unfolded request_ok_def]])
    case 1
    then show ?thesis using assms(10) n1 by (simp add: req)
  next
    case (2 d' m d2)
    then show ?thesis using frameD(10,13) [OF 2(6)] n1 by (simp add: req)
  next
    case (3 d' m)
    then show ?thesis using frameD(10,13) [OF 3(4)] n1 by (simp add: req)
  next
    case (4 d' m)
    have "?p \<le> last_index d'"
      using prev_position [OF adopted_log(1) [OF 4(2) assms(8)] 4(5,4)] n1 by (simp add: req)
    then have "log_ok (merge_log (map toStorageEntry (AppendReq_Entries req)) d')"
      using merge_log_spec(1) [OF adopted_log(1) [OF 4(2) assms(8)] 4(4) _ wf [unfolded request_ok_def]] n1 by (simp add: req)
    then show ?thesis using commit_followed_result(6,9) [OF 4(6)] 4(3) n1 by (simp add: req)
  qed
  then show ?thesis using o b a n1(3) by (auto simp: isLeader_def req n1(4,5))
qed

theorem deposed_leader_speaks_for_new_term_witness:
  "\<exists>n1 req n2 r l'. observeHigherTerm 3 (example_leader [''n2''] 2 (example_log [1, 2]) 2) = (True, n1)
    \<and> buildAppendRequestLocked ''n2'' n1 = (Inr (Some req), n2)
    \<and> AppendEntries req ((example_node ''n2'' [''n1''] 3 (example_log [1, 2]))\<lparr>role := RoleLeader\<rparr>) = (r, l')
    \<and> \<not> isLeader l' \<and> leaderID l' = ''n1''"
proof -
  let ?n = "example_leader [''n2''] 2 (example_log [1, 2]) 2"
    and ?l = "(example_node ''n2'' [''n1''] 3 (example_log [1, 2]))\<lparr>role := RoleLeader\<rparr>"
  have nx: "nextIndexLocked ''n2'' ?n = 2" by (simp add: max_def word_le_nat_alt)
  have "term_at (ndb ?n) (nextIndexLocked ''n2'' ?n - 1) = Some 1" by (simp only: nx) simp
  from deposed_leader_speaks_for_new_term [OF _ _ _ _ _ _ this, of 3 ?l] show ?thesis
    by (simp add: nx isLeader_def max_int64_def del: example_leader_fields(8)) blast
qed

end
