(* ===== verification/Client_Props.thy ===== *)
theory Client_Props imports Client Replication_Props
begin

text \<open>
  The properties of the client API: what a write on the leader appends, a write from end to end on a
  cluster of one node, routing, what a read has checked, and where the answers can be wrong.
\<close>

section \<open>Writes\<close>

text \<open>
  C27: an accepted client entry gets the next index and the leader's term and is at the end of the log,
  unless it is already applied and compacted; no other entry of the leader's log is changed.  An entry that is
  not accepted, because the node does not lead or its store fails, leaves the stored state and the indices as they were.
\<close>

theorem leader_only_appends:
  assumes "log_ok (ndb n)" and "commitIndex n \<le> max_int64" and "last_index (ndb n) < max_int64"
    and "appendClientEntry payload n = (r, n')"
  shows "case r of
      Inr (e, t) \<Rightarrow> role n = RoleLeader \<and> Entry_Index e = last_index (ndb n) + 1 \<and> Entry_Term e = currentTerm n
        \<and> t = currentTerm n \<and> Entry_Command e = payload \<and> last_index (ndb n') = Entry_Index e
        \<and> (snap_index (ndb n') < Entry_Index e \<longrightarrow> entry_at (ndb n') (Entry_Index e) = Some e)
        \<and> (\<forall>i. snap_index (ndb n') < i \<and> i \<le> last_index (ndb n) \<longrightarrow> entry_at (ndb n') i = entry_at (ndb n) i)
    | Inl s \<Rightarrow> ndb n' = ndb n \<and> commitIndex n' = commitIndex n \<and> lastApplied n' = lastApplied n \<and> role n' = role n
        \<and> (if role n = RoleLeader then \<not> clean n else s = notLeaderError (leaderID n) \<and> n' = n)"
proof (cases rule: appendClientEntry_outcome [OF assms(1,3,4)])
  case 1
  then show ?thesis by simp
next
  case 2
  have "role n = RoleLeader" if "n' \<noteq> n \<or> r \<noteq> Inl (notLeaderError (leaderID n))"
    by (rule ccontr) (use that assms(4) in \<open>auto simp: appendClientEntry_def\<close>)
  then show ?thesis using frameD(1,10,14,15) [OF 2(3)] 2(1,2) by (cases r) auto
next
  case (3 m k)
  note L = client_entry_log [OF assms(1,3)]
  have m: "ndb m = with_entry payload n" using frameD(1) [OF 3(3)] by simp
  have "log_ok (ndb m)" "commitIndex m \<le> max_int64" using m L(1) frameD(14) [OF 3(3)] assms(2) by simp_all
  note A = advanceCommitLocked_advanced(1) [OF this]
  have "compacts (ndb k) (with_entry payload n)"
    using advancedD(1) [OF A] m 3(4) L(1) by (simp add: compacts_refl)
  from compactsD(3,8) [OF this] show ?thesis
    using frameD(1) [OF 3(5)] 3(1,2) L(2-4) by auto
qed

text \<open>A write on a node that is the whole cluster, with nothing left to apply.\<close>

definition alone :: "Node \<Rightarrow> bool" where
  "alone n \<longleftrightarrow>
     log_ok (ndb n) \<and> clean n \<and> role n = RoleLeader \<and> peers n = [] \<and> last_index (ndb n) < max_int64
     \<and> commitIndex n = last_index (ndb n) \<and> lastApplied n = last_index (ndb n)"

definition sole :: "Node \<Rightarrow> bool" where
  "sole n \<longleftrightarrow> log_ok (ndb n) \<and> clean n \<and> role n = RoleLeader \<and> peers n = []"

lemma alone_commits:
  assumes "alone n" and "command_ok c" and "appendClientEntry (projr (encode c)) n = (r, n')"
  shows "r = Inr (client_entry (projr (encode c)) n, currentTerm n)"
    and "commitIndex n' = last_index (ndb n) + 1" and "lastApplied n' = last_index (ndb n) + 1"
    and "kv_get (ndb n') = run_command c (kv_get (ndb n))" and "clean n'" and "node_id n' = node_id n"
    and "role n' = RoleLeader" and "peers n' = []" and "log_ok (ndb n')"
proof -
  note C = assms(1) [unfolded alone_def]
  let ?l = "last_index (ndb n)" and ?p = "projr (encode c)"
  let ?d = "with_entry ?p n"
  have ok: "log_ok (ndb n)" and lt: "?l < max_int64" and role: "role n = RoleLeader" using C by blast+
  note L = client_entry_log [OF ok lt]
  have lm: "?l < ?l + 1" using u64_less_not_max [OF lt] by simp
  obtain m k where r: "r = Inr (client_entry ?p n, currentTerm n)" and m: "frame m (with_db ?d n)"
    and k: "k = advanceCommitLocked m" and n': "frame n' k"
    by (rule appendClientEntry_outcome [OF ok lt assms(3)]) (use C in auto)
  note M = frameD [OF m]
  have okm: "log_ok (ndb m)" using M(1) L(1) by simp
  have trm: "term_at ?d (?l + 1) = Some (currentTerm n)"
    using entry_at_term [OF L(1) L(3)] by simp
  have "committable m (?l + 1)"
    using trm M(1,5,11) C by (simp add: committable_def majorityLocked_def replicaCountLocked_def)
  then have "?l + 1 \<le> commit_target m"
    using commit_target_greatest [of m "?l + 1"] M(1,14) C L(2) lm by simp
  moreover have cm: "commitIndex m \<le> max_int64" using M(14) C lt by (simp add: less_imp_le)
  ultimately have ct: "commit_target m = ?l + 1"
    using commit_target_cases [OF cm] M(1,14) C L(2) lm by auto
  obtain m2 where m2: "frame m2 (m\<lparr>commitIndex := ?l + 1\<rparr>)" and k2: "k = applyCommittedLocked m2"
    using advanceCommitLocked_run [OF okm] ct frame_clean [OF m] C M(14) lm k by auto
  note M2 = frameD [OF m2]
  have d2: "ndb m2 = ?d" and ok2: "log_ok (ndb m2)" and la2: "lastApplied m2 = ?l" and ci2: "commitIndex m2 = ?l + 1"
    and cl2: "clean m2"
    using M2(1,14,15) M(1,15) C L(1) frame_clean [OF m2] frame_clean [OF m] by simp_all
  have l1: "?l + 1 \<noteq> - 1" using max_int64_not_max [OF inc_le [OF lt]] .
  have ir: "index_range (?l + 1) (?l + 1) = [?l + 1]"
    by (simp only: index_range_Cons [OF order_refl l1] index_range_empty [OF u64_less_inc [OF l1]])
  have at: "command_at ?d (?l + 1) = Inr c" using decode_encode [OF assms(2)] L(3) by (simp add: command_at_def)
  have dec: "decodable (ndb m2) (lastApplied m2) (commitIndex m2)" and cs: "commands_between (ndb m2) (lastApplied m2) (commitIndex m2) = [c]"
    using at ir by (simp_all add: decodable_def commands_between_def d2 la2 ci2)
  have le2: "lastApplied m2 \<le> commitIndex m2" using lm by (simp add: la2 ci2)
  obtain j where j: "unat (lastApplied k) = unat (lastApplied m2) + j"
    "kv_get (ndb k) = fold run_command (take j [c]) (kv_get (ndb m2))" "j = unat (commitIndex m2) - unat (lastApplied m2)"
    using applyCommittedLocked_state [OF ok2 dec le2] cl2 by (auto simp: cs k2)
  have un: "unat (?l + 1) = Suc (unat ?l)" by (rule u64_unat_inc [OF u64_less_not_max [OF lt]])
  then have "j = 1" using j(3) by (simp add: la2 ci2)
  then have "unat (lastApplied k) = unat (?l + 1)" using j(1) un by (simp add: la2)
  then have la: "lastApplied k = ?l + 1" by (simp only: word_unat_eq_iff)
  have ci: "commitIndex k = ?l + 1" using applyCommittedLocked_commitIndex [OF ok2] ci2 k2 by simp
  have kvd: "kv_get ?d = kv_get (ndb n)" by (simp add: fun_eq_iff with_entry_def view_simps)
  note A = advancedD [OF applyCommittedLocked_advanced [OF ok2]]
  show "r = Inr (client_entry ?p n, currentTerm n)" by (rule r)
  show "commitIndex n' = ?l + 1" and "lastApplied n' = ?l + 1" and "kv_get (ndb n') = run_command c (kv_get (ndb n))"
    and "clean n'" and "node_id n' = node_id n" and "role n' = RoleLeader" and "peers n' = []"
    using frameD(1,2,5,10,14,15) [OF n'] ci la j(2) \<open>j = 1\<close> d2 kvd frame_clean [OF n'] A(4,5,6,12) cl2 M2(2,5,10) M(2,5,10) C
    by (simp_all add: k2)
  show "log_ok (ndb n')" using frameD(1) [OF n'] compactsD(1) [OF A(1)] by (simp add: k2)
qed

lemma time_Now_fields:
  assumes "time_Now n = (t, n')"
  shows "ndb n' = ndb n" and "commitIndex n' = commitIndex n" and "lastApplied n' = lastApplied n"
    and "node_id n' = node_id n" and "role n' = role n" and "peers n' = peers n" and "clean n \<Longrightarrow> clean n'"
  using frameD(1,2,5,10,14,15) [OF time_Now_frame [OF assms]] frame_clean [OF time_Now_frame [OF assms]] by simp_all

lemma alone_proposes:
  assumes "alone n" and "command_ok c"
  obtains n' where "propose c ((\<lambda>m. m, w) # turns) n =
      (Some (Inr \<lparr>WriteResp_LeaderId = node_id n, WriteResp_Index = last_index (ndb n) + 1,
                  WriteResp_Term = currentTerm n\<rparr>), n')"
    and "commitIndex n' = last_index (ndb n) + 1" and "lastApplied n' = last_index (ndb n) + 1"
    and "kv_get (ndb n') = run_command c (kv_get (ndb n))" and "sole n'" and "node_id n' = node_id n"
proof -
  obtain r n1 where a: "appendClientEntry (projr (encode c)) n = (r, n1)" by fastforce
  note A = alone_commits [OF assms a]
  obtain t n2 where b: "time_Now n1 = (t, n2)" by fastforce
  obtain t' n3 where e: "time_Now (signalReplication n2) = (t', n3)" by fastforce
  note B = time_Now_fields [OF b] and E = time_Now_fields [OF e]
  obtain pl where enc: "encode c = Inr pl" by (simp add: encode_def)
  have "poll_commit (last_index (ndb n) + 1) (currentTerm n) (signalReplication n2) = Some (Inr ())"
    using B(2) A(2) by (simp add: poll_commit_def)
  then have "propose c ((\<lambda>m. m, w) # turns) n =
      (Some (Inr \<lparr>WriteResp_LeaderId = node_id n, WriteResp_Index = last_index (ndb n) + 1, WriteResp_Term = currentTerm n\<rparr>),
       on_metrics (CommitLatency (duration_sub t' t)) n3)"
    using a A(1,6) b e B(4) E(4) by (simp add: propose_def enc)
  then show ?thesis
    by (rule that) (use A B E frameD(1,2,5,10,14,15) [OF frame_metrics] frame_clean [OF frame_metrics] in \<open>simp_all add: sole_def\<close>)
qed

text \<open>What a read of a key is answered with when the node that answers sees the given values.\<close>

definition read_answer :: "string \<Rightarrow> (string \<rightharpoonup> string) \<Rightarrow> string \<Rightarrow> status + ReadResponse" where
  "read_answer i vals k =
     (case vals k of
        Some v \<Rightarrow> Inr \<lparr>ReadResp_LeaderId = i, ReadResp_Value = v\<rparr>
      | None \<Rightarrow> Inl (Statusf NotFound ''key %q does not exist'' [k]))"

lemma sole_reads:
  assumes "sole n" and "key \<noteq> []"
  shows "\<exists>n'. Read svc net ctx \<lparr>ReadReq_Key = key\<rparr> n w = (read_answer (node_id n) (kv_get (ndb n)) key, n', w)"
proof -
  note C = assms(1) [unfolded sole_def]
  obtain r n2 where rd: "read_local \<lparr>ReadReq_Key = key\<rparr> n = (r, n2)" by fastforce
  have "r = read_answer (node_id n) (kv_get (ndb n)) key"
    using read_local_frame(3) [OF log_ok_meta rd] C by (simp add: read_answer_def split: option.splits)
  moreover have "confirmLeadership net n w = (Inr (), n, w)"
    using C by (simp add: confirmLeadership_def replicateAll_def majorityLocked_def)
  ultimately show ?thesis using assms(2) C rd by (simp add: Read_def leaderClient_def)
qed

text \<open>
  C28: on a leader that is the whole cluster, whose store works and whose log is applied to its end, a write or a delete is answered with
  the next index, is committed and applied when it is answered, and changes the value of its key and
  of no other; every later read, of any key, is answered accordingly.
\<close>

theorem single_node_write:
  assumes "alone n" and "key \<noteq> []" and "utf8_valid key" and "utf8_valid val"
  shows "(\<exists>n'. Write svc ctx \<lparr>WriteReq_Key = key, WriteReq_Value = val\<rparr> ((\<lambda>m. m, wk) # turns) n w =
        (Some (Inr \<lparr>WriteResp_LeaderId = node_id n, WriteResp_Index = last_index (ndb n) + 1,
                    WriteResp_Term = currentTerm n\<rparr>), n', w)
      \<and> commitIndex n' = last_index (ndb n) + 1 \<and> lastApplied n' = last_index (ndb n) + 1
      \<and> kv_get (ndb n') = (kv_get (ndb n))(key \<mapsto> val)
      \<and> (\<forall>k. k \<noteq> [] \<longrightarrow> (\<exists>n''. Read svc net ctx' \<lparr>ReadReq_Key = k\<rparr> n' w =
            (read_answer (node_id n) ((kv_get (ndb n))(key \<mapsto> val)) k, n'', w))))
    \<and> (\<exists>n'. Delete svc ctx \<lparr>DeleteReq_Key = key\<rparr> ((\<lambda>m. m, wk) # turns) n w =
        (Some (Inr \<lparr>WriteResp_LeaderId = node_id n, WriteResp_Index = last_index (ndb n) + 1,
                    WriteResp_Term = currentTerm n\<rparr>), n', w)
      \<and> commitIndex n' = last_index (ndb n) + 1 \<and> lastApplied n' = last_index (ndb n) + 1
      \<and> kv_get (ndb n') = (kv_get (ndb n))(key := None)
      \<and> (\<forall>k. k \<noteq> [] \<longrightarrow> (\<exists>n''. Read svc net ctx' \<lparr>ReadReq_Key = k\<rparr> n' w =
            (read_answer (node_id n) ((kv_get (ndb n))(key := None)) k, n'', w))))"
proof -
  have lead: "leaderClient ctx n = Inr None" using assms(1) by (simp add: leaderClient_def alone_def)
  have set: "command_ok (setCommand key val)" and del: "command_ok (deleteCommand key)"
    using assms(2-4) by (simp_all add: command_ok_def setCommand_def deleteCommand_def utf8_valid.simps)
  have run: "run_command (setCommand key val) m = m(key \<mapsto> val)" "run_command (deleteCommand key) m = m(key := None)" for m
    by (simp_all add: run_command_def setCommand_def deleteCommand_def opSet_def opDelete_def)
  obtain n1 where 1: "propose (setCommand key val) ((\<lambda>m. m, wk) # turns) n =
      (Some (Inr \<lparr>WriteResp_LeaderId = node_id n, WriteResp_Index = last_index (ndb n) + 1, WriteResp_Term = currentTerm n\<rparr>), n1)"
    "commitIndex n1 = last_index (ndb n) + 1" "lastApplied n1 = last_index (ndb n) + 1"
    "kv_get (ndb n1) = (kv_get (ndb n))(key \<mapsto> val)" and s1: "sole n1" "node_id n1 = node_id n"
    by (rule alone_proposes [OF assms(1) set, where w = wk and turns = turns]) (simp add: run)
  obtain n2 where 2: "propose (deleteCommand key) ((\<lambda>m. m, wk) # turns) n =
      (Some (Inr \<lparr>WriteResp_LeaderId = node_id n, WriteResp_Index = last_index (ndb n) + 1, WriteResp_Term = currentTerm n\<rparr>), n2)"
    "commitIndex n2 = last_index (ndb n) + 1" "lastApplied n2 = last_index (ndb n) + 1"
    "kv_get (ndb n2) = (kv_get (ndb n))(key := None)" and s2: "sole n2" "node_id n2 = node_id n"
    by (rule alone_proposes [OF assms(1) del, where w = wk and turns = turns]) (simp add: run)
  note R = sole_reads [OF s1(1), of _ svc net ctx' w, unfolded 1(4) s1(2)] sole_reads [OF s2(1), of _ svc net ctx' w, unfolded 2(4) s2(2)]
  show ?thesis
    using assms(2) lead 1 2 R by (simp add: Write_def Delete_def)
qed

definition example_alone :: Node where
  "example_alone = (example_node ''n1'' [] 1 (example_log [1]))\<lparr>role := RoleLeader, commitIndex := 1, lastApplied := 1\<rparr>"

theorem single_node_write_witness:
  "\<exists>r n' w' n''. Write undefined undefined \<lparr>WriteReq_Key = ''b'', WriteReq_Value = ''2''\<rparr> [(\<lambda>m. m, Tick)] example_alone ()
     = (Some r, n', w') \<and> kv_get (ndb n') ''b'' = Some ''2'' \<and> commitIndex n' = 2
     \<and> Read undefined undefined undefined \<lparr>ReadReq_Key = ''b''\<rparr> n' ()
         = (Inr \<lparr>ReadResp_LeaderId = ''n1'', ReadResp_Value = ''2''\<rparr>, n'', ())"
proof -
  have "alone example_alone" by (simp add: alone_def example_alone_def max_int64_def)
  moreover have "utf8_valid ''b''" "utf8_valid ''2''" by (rule utf8_ascii, simp)+
  moreover have "node_id example_alone = ''n1''" "last_index (ndb example_alone) = 1" by (simp_all add: example_alone_def)
  ultimately obtain n' where n': "fst (Write undefined undefined \<lparr>WriteReq_Key = ''b'', WriteReq_Value = ''2''\<rparr> [(\<lambda>m. m, Tick)] example_alone ()) \<noteq> None"
    "fst (snd (Write undefined undefined \<lparr>WriteReq_Key = ''b'', WriteReq_Value = ''2''\<rparr> [(\<lambda>m. m, Tick)] example_alone ())) = n'"
    "kv_get (ndb n') ''b'' = Some ''2''" "commitIndex n' = 2"
    and rd: "\<forall>k. k \<noteq> [] \<longrightarrow> (\<exists>n''. Read undefined undefined undefined \<lparr>ReadReq_Key = k\<rparr> n' () =
            (read_answer ''n1'' ((kv_get (ndb example_alone))(''b'' \<mapsto> ''2'')) k, n'', ()))"
    using single_node_write [of example_alone "''b''" "''2''" undefined undefined Tick "[]" "()" undefined undefined] by fastforce
  obtain n'' where "Read undefined undefined undefined \<lparr>ReadReq_Key = ''b''\<rparr> n' () =
            (read_answer ''n1'' ((kv_get (ndb example_alone))(''b'' \<mapsto> ''2'')) ''b'', n'', ())" using rd by blast
  then show ?thesis using n' by (simp add: read_answer_def prod_eq_iff)
qed

theorem leader_only_appends_witness:
  "\<exists>e n'. appendClientEntry ''x'' (example_leader [''n2''] 2 (example_log [1, 2]) 3) = (Inr (e, 2), n')
     \<and> Entry_Index e = 3 \<and> last_index (ndb n') = 3"
proof -
  let ?n = "example_leader [''n2''] 2 (example_log [1, 2]) 3"
  have ok: "log_ok (ndb ?n)" "last_index (ndb ?n) < max_int64" "commitIndex ?n \<le> max_int64" by (simp_all add: max_int64_def)
  obtain r n' where run: "appendClientEntry ''x'' ?n = (r, n')" by fastforce
  have "\<not> isl r" by (rule appendClientEntry_outcome [OF ok(1,2) run]) auto
  then obtain e t where r: "r = Inr (e, t)" by (cases r) auto
  from leader_only_appends [OF ok(1,3,2) run] show ?thesis using run r by simp
qed

section \<open>Routing\<close>

text \<open>
  The transport delivers a key of the outgoing metadata: the incoming metadata of the call at the other end holds every value
  sent under it.  Other keys may be added or dropped on the way.
\<close>

definition delivers :: "string \<Rightarrow> Context \<Rightarrow> Context \<Rightarrow> bool" where
  "delivers k ctx ctx' \<longleftrightarrow>
     (\<forall>vs. ctx_outgoing ctx k = Some vs \<longrightarrow>
        (case ctx_incoming ctx' of None \<Rightarrow> False | Some md \<Rightarrow> (case md k of None \<Rightarrow> False | Some vs' \<Rightarrow> set vs \<subseteq> set vs')))"

lemma delivered_wasForwarded:
  assumes "delivers forwardedHeader (forwardContext ctx) ctx'"
  shows "wasForwarded ctx'"
  using assms by (auto simp: delivers_def forwardContext_def wasForwarded_def split: option.splits)

lemma leaderClient_forwarded:
  assumes "wasForwarded ctx"
  shows "leaderClient ctx n = (if role n = RoleLeader then Inr None else Inl (notLeaderError (leaderID n)))"
  using assms by (simp add: leaderClient_def notLeaderError_def)



section \<open>Waiting for the commit\<close>

text \<open>
  C30: the wait ends at the latest when the context does, and an answer without an error means that the
  node's commit index had reached the entry's index.
\<close>

theorem wait_for_commit_ends:
  assumes "\<exists>turn \<in> set turns. snd turn \<noteq> Tick"
  shows "\<exists>r n'. waitForCommit i t turns n = (Some r, n') \<and> (r = Inr () \<longleftrightarrow> i \<le> commitIndex n')"
  using assms
proof (induction turns arbitrary: n)
  case (Cons turn turns)
  obtain others w where turn: "turn = (others, w)" by fastforce
  show ?case
  proof (cases "poll_commit i t (others n)")
    case (Some r)
    then show ?thesis
      by (auto simp: turn poll_commit_def split: if_splits)
  next
    case None
    then have lt: "\<not> i \<le> commitIndex (others n)" by (auto simp: poll_commit_def split: if_splits)
    show ?thesis
    proof (cases w)
      case Tick
      then have "\<exists>turn \<in> set turns. snd turn \<noteq> Tick" using Cons.prems turn by auto
      from Cons.IH [OF this, of "others n"] show ?thesis using None Tick by (simp add: turn)
    qed (use None lt in \<open>simp_all add: turn\<close>)
  qed
qed simp

theorem wait_for_commit_ends_witness:
  "\<exists>r n'. waitForCommit 3 2 [(\<lambda>m. m, Tick), (\<lambda>m. m, CtxDeadlineExceeded)] (example_leader [''n2''] 2 (example_log [1, 2]) 3) = (Some r, n')
     \<and> (r = Inr () \<longleftrightarrow> 3 \<le> commitIndex n')"
  by (rule wait_for_commit_ends) simp

text \<open>
  C31: the commit index is looked at before the term.  When a new leader replaces the entry while the
  call waits, and commits its own entry at that index before the next poll, the call reports success
  although the entry at the index has another term: the client's write is lost.
\<close>

theorem lost_write_is_acknowledged:
  assumes "log_ok (ndb n)" and "clean n" and "request_ok req" and "currentTerm n < AppendReq_Term req"
    and "snap_index (ndb n) \<le> AppendReq_PrevLogIndex req"
    and "term_at (ndb n) (AppendReq_PrevLogIndex req) = Some (AppendReq_PrevLogTerm req)"
    and "e \<in> set (AppendReq_Entries req)" and "LogEntry_Term e \<noteq> t"
    and "commitIndex n < LogEntry_Index e" and "LogEntry_Index e \<le> AppendReq_LeaderCommit req"
  shows "\<exists>n'. waitForCommit (LogEntry_Index e) t ((\<lambda>m. snd (AppendEntries req m), w) # turns) n = (Some (Inr ()), n')
    \<and> (snap_index (ndb n') \<le> LogEntry_Index e \<longrightarrow> term_at (ndb n') (LogEntry_Index e) \<noteq> Some t)"
proof -
  let ?E = "map toStorageEntry (AppendReq_Entries req)" and ?p = "AppendReq_PrevLogIndex req"
  obtain resp n' d where run: "AppendEntries req n = (Inr resp, n')" and ad: "adopted (AppendReq_Term req) n d"
    and cf: "commit_followed (AppendReq_LeaderCommit req)
           (with_db (merge_log ?E d) (stepped_down (AppendReq_Term req) (AppendReq_LeaderId req) d n)) n'"
    by (rule append_accepted [OF assms(1-3) less_imp_le [OF assms(4)] assms(5,6)])
  note L = adopted_log [OF ad assms(1)]
  have s: "snap_index d \<le> ?p" and tp: "term_at d ?p = Some (AppendReq_PrevLogTerm req)" using assms(5,6) L(4,7) by simp_all
  have pl: "?p \<le> last_index d" by (rule prev_position [OF L(1) tp s])
  note M = merge_log_spec [OF L(1) s pl assms(3) [unfolded request_ok_def]]
  have ok: "log_ok (ndb (with_db (merge_log ?E d) (stepped_down (AppendReq_Term req) (AppendReq_LeaderId req) d n)))"
    using M(1) by simp
  note R = commit_followed_result [OF cf ok]
  have pm: "?p \<le> max_int64" using pl log_okD(3) [OF L(1)] by (rule order_trans)
  have "LogEntry_Index e \<le> end_index ?p ?E"
    using follows_index_end [OF assms(3) [unfolded request_ok_def] pm, of "toStorageEntry e"] assms(7) by simp
  then have le: "LogEntry_Index e \<le> last_index (merge_log ?E d)" using M(2) by (rule order_trans)
  have "LogEntry_Index e \<le> commitIndex n'"
    using R(3) assms(9,10) le by (auto simp: min_def)
  moreover have "term_at (merge_log ?E d) (LogEntry_Index e) = Some (LogEntry_Term e)"
    using M(3) [of "toStorageEntry e"] assms(7) by simp
  then have "snap_index (ndb n') \<le> LogEntry_Index e \<longrightarrow> term_at (ndb n') (LogEntry_Index e) \<noteq> Some t"
    using compactsD(7) [OF R(1)] assms(8) by simp
  ultimately show ?thesis using run by (simp add: poll_commit_def)
qed

theorem lost_write_is_acknowledged_witness:
  "\<exists>n'. waitForCommit 2 2 [(\<lambda>m. snd (AppendEntries (example_request 3 1 1 [example_payload 2 3] 2) m), Tick)]
       (example_leader [''n2''] 2 (example_log [1, 2]) 3) = (Some (Inr ()), n')
     \<and> (snap_index (ndb n') \<le> 2 \<longrightarrow> term_at (ndb n') 2 \<noteq> Some 2)"
  using lost_write_is_acknowledged [of "example_leader [''n2''] 2 (example_log [1, 2]) 3" "example_request 3 1 1 [example_payload 2 3] 2"
      "example_payload 2 3" 2 Tick "[]"] request_ok_example
  by (simp add: example_payload_def)

section \<open>Reads\<close>

lemma no_commit_without_own_entry:
  assumes "log_ok (ndb n)" and "commitIndex n \<le> max_int64" and "\<forall>i. term_at (ndb n) i \<noteq> Some (currentTerm n)"
    and "tracks k n" and "frame n' (advanceCommitLocked k)"
  shows "tracks n' n"
proof -
  note T = tracksD [OF assms(4)]
  have ok: "log_ok (ndb k)" "commitIndex k \<le> max_int64" using T(1,8) assms(1,2) by simp_all
  have "commit_target k = commitIndex k"
    using commit_target_cases [OF ok(2)] T(1,5) assms(3) by (auto simp: committable_def)
  then have "frame (advanceCommitLocked k) k" using advanceCommitLocked_run [OF ok(1)] by auto
  then show ?thesis using tracks_trans [OF tracks_frame assms(4)] frame_trans [OF assms(5)] by blast
qed

text \<open>
  C32: a newly elected leader whose log holds no entry of its own term commits nothing when it confirms
  its leadership: a read is answered from what it has applied so far, whatever the peer that confirms
  has already committed and applied.
\<close>

theorem new_leader_reads_what_it_has_applied:
  assumes "lagging q n f" and "map Peer_ID (peers n) = [q]" and "\<forall>i. term_at (ndb n) i \<noteq> Some (currentTerm n)" and "key \<noteq> []"
  shows "\<exists>n' f'. Read svc follower_net ctx \<lparr>ReadReq_Key = key\<rparr> n f =
    (case kv_get (ndb n) key of
       Some v \<Rightarrow> Inr \<lparr>ReadResp_LeaderId = node_id n, ReadResp_Value = v\<rparr>
     | None \<Rightarrow> Inl (Statusf NotFound ''key %q does not exist'' [key]), n', f')"
proof -
  note C = assms(1) [unfolded lagging_def]
  have ok: "log_ok (ndb n)" "commitIndex n \<le> max_int64" "role n = RoleLeader" "clean n" using C by blast+
  obtain n1 f1 where "\<forall>k. replicate_rounds (Suc (Suc k)) follower_net q n f = (True, n1, f1)"
    and "\<exists>k. tracks k n \<and> frame n1 (advanceCommitLocked k)"
    by (rule lagging_replicates [OF assms(1)])
  then obtain k where k: "tracks k n" "frame n1 (advanceCommitLocked k)"
    and "replicate_rounds (Suc (Suc 30)) follower_net q n f = (True, n1, f1)" by blast
  then have rep: "replicatePeer follower_net q n f = (True, n1, f1)"
    by (simp add: replicatePeer_def maxAppendRounds_def del: replicate_rounds.simps)
  have T: "tracks n1 n" by (rule no_commit_without_own_entry [OF ok(1,2) assms(3) k])
  note D = tracksD [OF T]
  obtain p where p: "peers n = [p]" "Peer_ID p = q" using assms(2) by (cases "peers n") auto
  have all: "replicateAll follower_net n f = (2, n1, f1)"
    using rep p by (simp add: replicateAll_def)
  have "majorityLocked n1 = 2" using D(3) p by (simp add: majorityLocked_def)
  then have conf: "confirmLeadership follower_net n f = (Inr (), n1, f1)"
    using all D(4) ok(3) by (simp add: confirmLeadership_def)
  obtain r n2 where rd: "read_local \<lparr>ReadReq_Key = key\<rparr> n1 = (r, n2)" by fastforce
  have "meta_ok (ndb n1)" "clean n1" using D(1,10) ok(4) log_ok_meta [OF ok(1)] by simp_all
  from read_local_frame(3) [OF this(1) rd this(2)] D(1,2)
  have "r = (case kv_get (ndb n) key of Some v \<Rightarrow> Inr \<lparr>ReadResp_LeaderId = node_id n, ReadResp_Value = v\<rparr>
     | None \<Rightarrow> Inl (Statusf NotFound ''key %q does not exist'' [key]))"
    by (simp split: option.splits)
  then show ?thesis
    using assms(4) ok(3) conf rd by (simp add: Read_def leaderClient_def)
qed

text \<open>
  The peer has committed and applied the entry that sets the key, the leader holds the entry, and the
  leader says that the key does not exist.
\<close>

definition committed_peer :: Node where
  "committed_peer =
     (example_node ''n2'' [''n1''] 1 (apply_set 1 ''a'' ''1'' (example_log [1])))\<lparr>commitIndex := 1, lastApplied := 1\<rparr>"

lemma committed_peer_fields [simp]:
  "log_ok (ndb committed_peer)" "clean committed_peer" "currentTerm committed_peer = 1" "commitIndex committed_peer = 1"
  "last_index (ndb committed_peer) = 1" "term_at (ndb committed_peer) = term_at (example_log [1])"
  "kv_get (ndb committed_peer) ''a'' = Some ''1''"
  by (simp_all add: committed_peer_def view_simps log_ok_effects)

theorem new_leader_reads_what_it_has_applied_witness:
  "commitIndex committed_peer = 1 \<and> kv_get (ndb committed_peer) ''a'' = Some ''1''
   \<and> (\<exists>n' f'. Read undefined follower_net undefined \<lparr>ReadReq_Key = ''a''\<rparr> (example_leader [''n2''] 2 (example_log [1]) 2) committed_peer
        = (Inl (Statusf NotFound ''key %q does not exist'' [''a'']), n', f'))"
proof -
  let ?n = "example_leader [''n2''] 2 (example_log [1]) 2"
  have lag: "lagging ''n2'' ?n committed_peer" by (simp add: lagging_def max_int64_def max_def word_le_nat_alt)
  have peers: "map Peer_ID (peers ?n) = [''n2'']" by (simp add: example_leader_def)
  have own: "\<forall>i. term_at (ndb ?n) i \<noteq> Some (currentTerm ?n)"
  proof
    fix i :: u64
    have "1 \<le> i" if "i \<noteq> 0" using that inc_le [of 0 i] by (simp add: word_gt_0)
    then consider "i = 0" | "i = 1" | "term_at (example_log [1]) i = None"
      using term_at_iff [of "example_log [1]" i] by (cases "i = 0"; cases "term_at (example_log [1]) i") auto
    then show "term_at (ndb ?n) i \<noteq> Some (currentTerm ?n)"
    proof cases
      case 1
      then show ?thesis by (simp add: term_at_def)
    qed simp_all
  qed
  show ?thesis
    using new_leader_reads_what_it_has_applied [OF lag peers own, of "''a''" undefined undefined] by simp
qed

end
