(* ===== verification/Config.thy ===== *)
theory Config imports Node
begin

text \<open>
  The configuration of a node from environment variables (internal/config/config.go) and its
  translation into the options of a node (internal/raft/options.go), with the parts of \<open>strings\<close> and
  \<open>log/slog\<close> they use.  The environment is a function from names to values, empty when unset.
\<close>

section \<open>Library functions\<close>

text \<open>\<open>strings.TrimSpace\<close>: the characters of Unicode's white space, as the bytes that encode them.\<close>

definition white_space :: "string list" where
  "white_space =
     [[CHR 0x09], [CHR 0x0A], [CHR 0x0B], [CHR 0x0C], [CHR 0x0D], [CHR 0x20],
      [CHR 0xC2, CHR 0x85], [CHR 0xC2, CHR 0xA0], [CHR 0xE1, CHR 0x9A, CHR 0x80],
      [CHR 0xE2, CHR 0x80, CHR 0x80], [CHR 0xE2, CHR 0x80, CHR 0x81], [CHR 0xE2, CHR 0x80, CHR 0x82],
      [CHR 0xE2, CHR 0x80, CHR 0x83], [CHR 0xE2, CHR 0x80, CHR 0x84], [CHR 0xE2, CHR 0x80, CHR 0x85],
      [CHR 0xE2, CHR 0x80, CHR 0x86], [CHR 0xE2, CHR 0x80, CHR 0x87], [CHR 0xE2, CHR 0x80, CHR 0x88],
      [CHR 0xE2, CHR 0x80, CHR 0x89], [CHR 0xE2, CHR 0x80, CHR 0x8A], [CHR 0xE2, CHR 0x80, CHR 0xA8],
      [CHR 0xE2, CHR 0x80, CHR 0xA9], [CHR 0xE2, CHR 0x80, CHR 0xAF], [CHR 0xE2, CHR 0x81, CHR 0x9F],
      [CHR 0xE3, CHR 0x80, CHR 0x80]]"

definition leading :: "string list \<Rightarrow> string \<Rightarrow> string option" where
  "leading ws s = find (\<lambda>w. w \<noteq> [] \<and> take (length w) s = w) ws"

function strip :: "string list \<Rightarrow> string \<Rightarrow> string" where
  "strip ws s = (case leading ws s of None \<Rightarrow> s | Some w \<Rightarrow> strip ws (drop (length w) s))"
  by pat_completeness auto
termination
proof (relation "measure (\<lambda>(ws, s). length s)", goal_cases)
  case (2 ws s w)
  then have "w \<noteq> []" "take (length w) s = w" by (auto simp: leading_def find_Some_iff)
  then have "s \<noteq> []" by auto
  with \<open>w \<noteq> []\<close> show ?case by (cases w) simp_all
qed simp

declare strip.simps [simp del]

definition TrimSpace :: "string \<Rightarrow> string" where
  "TrimSpace s = rev (strip (map rev white_space) (rev (strip white_space s)))"

text \<open>
  \<open>strings.ToUpper\<close> as far as its result is compared with ASCII words: of all other characters only the
  dotless i and the long s have an ASCII letter as their upper case.
\<close>

definition upper_byte :: "char \<Rightarrow> char" where
  "upper_byte c = (let n = (of_char c :: nat) in if 97 \<le> n \<and> n \<le> 122 then char_of (n - 32) else c)"

fun ToUpper :: "string \<Rightarrow> string" where
  "ToUpper (c # d # s) =
     (if c = CHR 0xC4 \<and> d = CHR 0xB1 then CHR ''I'' # ToUpper s
      else if c = CHR 0xC5 \<and> d = CHR 0xBF then CHR ''S'' # ToUpper s
      else upper_byte c # ToUpper (d # s))"
| "ToUpper [c] = [upper_byte c]"
| "ToUpper [] = []"

text \<open>\<open>slog.Level.UnmarshalText\<close>: a name and an optional signed offset.\<close>

definition level_names :: "(string \<times> int) list" where
  "level_names = [(''DEBUG'', - 4), (''INFO'', 0), (''WARN'', 4), (''ERROR'', 8)]"

definition slog_level :: "string \<Rightarrow> error + int" where
  "slog_level s =
     (let name = takeWhile (\<lambda>c. c \<notin> {CHR ''+'', CHR ''-''}) s;
          rest = dropWhile (\<lambda>c. c \<notin> {CHR ''+'', CHR ''-''}) s
      in case (if rest = [] then Inr 0 else Atoi rest) of
           Inl e \<Rightarrow> Inl (Errorf ''slog: level string %q: %w'' e)
         | Inr offset \<Rightarrow>
             (case map_of level_names (ToUpper name) of
                None \<Rightarrow> Inl (Errorf ''slog: level string %q: %w'' (ErrorNew ''unknown name''))
              | Some base \<Rightarrow> Inr (int64 (uint64 (base + offset)))))"

section \<open>Configuration\<close>

record Config =
  Cfg_NodeID :: string
  Cfg_GRPCAddr :: string
  Cfg_HTTPAddr :: string
  Cfg_DataDir :: string
  Cfg_Peers :: "Peer list"
  Cfg_ElectionMin :: duration
  Cfg_ElectionMax :: duration
  Cfg_HeartbeatInterval :: duration
  Cfg_SnapshotThreshold :: u64
  Cfg_LogLevel :: int

definition env :: "(string \<Rightarrow> string) \<Rightarrow> string \<Rightarrow> string \<Rightarrow> string" where
  "env getenv key fallback =
     (let value = TrimSpace (getenv key) in if value \<noteq> [] then value else fallback)"

definition duration_mul :: "int \<Rightarrow> duration \<Rightarrow> duration" where
  "duration_mul a b = int64 (uint64 (a * b))"

definition envDuration :: "(string \<Rightarrow> string) \<Rightarrow> string \<Rightarrow> duration \<Rightarrow> error + duration" where
  "envDuration getenv key fallback =
     (let raw = env getenv key [] in
      if raw = [] then Inr fallback
      else case Atoi raw of
        Inl e \<Rightarrow> Inl (ErrorNew ''%s must be a positive number of milliseconds, got %q'')
      | Inr milliseconds \<Rightarrow>
          if milliseconds \<le> 0 then Inl (ErrorNew ''%s must be a positive number of milliseconds, got %q'')
          else Inr (duration_mul milliseconds millisecond))"

definition envUint :: "(string \<Rightarrow> string) \<Rightarrow> string \<Rightarrow> u64 \<Rightarrow> error + u64" where
  "envUint getenv key fallback =
     (let raw = env getenv key [] in
      if raw = [] then Inr fallback
      else case ParseUint raw of
        Inl e \<Rightarrow> Inl (ErrorNew ''%s must be a non-negative integer, got %q'')
      | Inr value \<Rightarrow> Inr value)"

definition envLogLevel :: "(string \<Rightarrow> string) \<Rightarrow> string \<Rightarrow> int \<Rightarrow> error + int" where
  "envLogLevel getenv key fallback =
     (let raw = env getenv key [] in
      if raw = [] then Inr fallback
      else case slog_level raw of
        Inl e \<Rightarrow> Inl (ErrorNew ''%s must be one of debug, info, warn, error, got %q'')
      | Inr level \<Rightarrow> Inr level)"

text \<open>The loop of \<open>parsePeers\<close>, with the ids seen and the peers collected so far.\<close>

fun parse_items :: "string \<Rightarrow> string list \<Rightarrow> string set \<Rightarrow> Peer list \<Rightarrow> error + Peer list" where
  "parse_items selfID [] seen acc = Inr acc"
| "parse_items selfID (item # items) seen acc =
     (case Cut (CHR ''='') (TrimSpace item) of
        None \<Rightarrow> Inl (ErrorNew ''invalid RAFT_PEERS entry %q, want id=host:port'')
      | Some (peerID, address) \<Rightarrow>
          if peerID = [] \<or> address = [] then Inl (ErrorNew ''invalid RAFT_PEERS entry %q, want id=host:port'')
          else if peerID \<in> seen then Inl (ErrorNew ''duplicate peer id %q in RAFT_PEERS'')
          else parse_items selfID items (insert peerID seen)
                 (if peerID \<noteq> selfID then acc @ [\<lparr>Peer_ID = peerID, Peer_Address = address\<rparr>] else acc))"

definition parsePeers :: "string \<Rightarrow> string \<Rightarrow> error + Peer list" where
  "parsePeers raw selfID =
     (if TrimSpace raw = [] then Inr [] else parse_items selfID (Split (CHR '','') raw) {} [])"

definition FromEnv :: "(string \<Rightarrow> string) \<Rightarrow> error + Config" where
  "FromEnv getenv =
     (let nodeID = env getenv ''NODE_ID'' ''node1'' in
      case envDuration getenv ''RAFT_ELECTION_MIN_MS'' (500 * millisecond) of
        Inl e \<Rightarrow> Inl e
      | Inr eMin \<Rightarrow>
     (case envDuration getenv ''RAFT_ELECTION_MAX_MS'' (900 * millisecond) of
        Inl e \<Rightarrow> Inl e
      | Inr eMax \<Rightarrow>
     (case envDuration getenv ''RAFT_HEARTBEAT_MS'' (100 * millisecond) of
        Inl e \<Rightarrow> Inl e
      | Inr beat \<Rightarrow>
     (case envUint getenv ''RAFT_SNAPSHOT_THRESHOLD'' 10000 of
        Inl e \<Rightarrow> Inl e
      | Inr threshold \<Rightarrow>
     (case envLogLevel getenv ''RAFT_LOG_LEVEL'' 0 of
        Inl e \<Rightarrow> Inl e
      | Inr level \<Rightarrow>
     (case parsePeers (env getenv ''RAFT_PEERS'' []) nodeID of
        Inl e \<Rightarrow> Inl e
      | Inr ps \<Rightarrow>
          if eMin \<le> beat
          then Inl (ErrorNew ''RAFT_ELECTION_MIN_MS must be greater than RAFT_HEARTBEAT_MS'')
          else if eMax < eMin
          then Inl (ErrorNew ''RAFT_ELECTION_MAX_MS must be greater than or equal to RAFT_ELECTION_MIN_MS'')
          else Inr \<lparr>Cfg_NodeID = nodeID, Cfg_GRPCAddr = env getenv ''RAFT_GRPC_ADDR'' '':9001'',
                    Cfg_HTTPAddr = env getenv ''RAFT_HTTP_ADDR'' '':8001'',
                    Cfg_DataDir = env getenv ''RAFT_DATA_DIR'' ''data/node1'', Cfg_Peers = ps,
                    Cfg_ElectionMin = eMin, Cfg_ElectionMax = eMax,
                    Cfg_HeartbeatInterval = beat, Cfg_SnapshotThreshold = threshold,
                    Cfg_LogLevel = level\<rparr>))))))"

definition OptionsFromConfig :: "Config \<Rightarrow> Options" where
  "OptionsFromConfig cfg =
     \<lparr>Opt_NodeID = Cfg_NodeID cfg, Opt_GRPCAddr = Cfg_GRPCAddr cfg, Opt_HTTPAddr = Cfg_HTTPAddr cfg,
      Opt_DataDir = Cfg_DataDir cfg,
      Opt_Peers = map (\<lambda>p. \<lparr>Peer_ID = Peer_ID p, Peer_Address = Peer_Address p\<rparr>) (Cfg_Peers cfg),
      Opt_ElectionMin = Cfg_ElectionMin cfg, Opt_ElectionMax = Cfg_ElectionMax cfg,
      Opt_HeartbeatInterval = Cfg_HeartbeatInterval cfg, Opt_SnapshotThreshold = Cfg_SnapshotThreshold cfg\<rparr>"

section \<open>Trimming\<close>

text \<open>Text that starts, or read backwards starts, with no white space is left as it is.\<close>

abbreviation no_lead :: "string \<Rightarrow> bool" where
  "no_lead s \<equiv> leading white_space s = None"

abbreviation no_trail :: "string \<Rightarrow> bool" where
  "no_trail s \<equiv> leading (map rev white_space) (rev s) = None"

lemma strip_none: "leading ws s = None \<Longrightarrow> strip ws s = s"
  by (subst strip.simps) simp

lemma leading_strip: "leading ws (strip ws s) = None"
proof (induction ws s rule: strip.induct)
  case (1 ws s)
  then show ?case by (subst strip.simps) (auto split: option.split)
qed

lemma strip_Nil [simp]: "strip ws [] = []"
  by (rule strip_none) (simp add: leading_def find_None_iff)

lemma TrimSpace_none: "no_lead s \<Longrightarrow> no_trail s \<Longrightarrow> TrimSpace s = s"
  by (simp add: TrimSpace_def strip_none)

lemma leading_sep:
  assumes "\<And>w. w \<in> set ws \<Longrightarrow> c \<notin> set w"
  shows "leading ws (a @ c # b) = leading ws a"
proof -
  have "take (length w) (a @ c # b) = w \<longleftrightarrow> take (length w) a = w" if "w \<in> set ws" for w
  proof (cases "length w \<le> length a")
    case False
    then obtain k where "length w = length a + Suc k" by (metis less_iff_Suc_add not_le add_Suc_right)
    then have "c \<in> set (take (length w) (a @ c # b))" by simp
    moreover have "take (length w) a \<noteq> w" using False by auto
    ultimately show ?thesis using assms [OF that] by (metis)
  qed simp
  then show ?thesis by (auto simp: leading_def intro: find_cong)
qed

lemma white_space_bytes:
  "\<forall>w \<in> set white_space. CHR ''='' \<notin> set w \<and> CHR '','' \<notin> set w"
  "\<forall>w \<in> set (map rev white_space). CHR ''='' \<notin> set w \<and> CHR '','' \<notin> set w"
  by (simp_all add: white_space_def)

lemma lead_sep:
  "no_lead (a @ CHR ''='' # b) = no_lead a" "no_lead (a @ CHR '','' # b) = no_lead a"
  "no_trail (b @ CHR ''='' # a) = no_trail a" "no_trail (b @ CHR '','' # a) = no_trail a"
proof -
  have "leading white_space (a @ c # b) = leading white_space a"
    "leading (map rev white_space) (rev a @ c # rev b) = leading (map rev white_space) (rev a)"
    if "c \<in> {CHR ''='', CHR '',''}" for c
    using that white_space_bytes by (intro leading_sep; blast)+
  then show "no_lead (a @ CHR ''='' # b) = no_lead a" "no_lead (a @ CHR '','' # b) = no_lead a"
    "no_trail (b @ CHR ''='' # a) = no_trail a" "no_trail (b @ CHR '','' # a) = no_trail a"
    by simp_all
qed

end
