(* ===== verification/Lifecycle.thy ===== *)
theory Lifecycle imports Config Election Replication
begin

text \<open>
  The life of a node process: \<open>Start\<close> and \<open>Stop\<close> of \<open>internal/raft/node.go\<close> with the servers, connections
  and worker loops they create and release, the two loops themselves, and \<open>cmd/raftnode/main.go\<close>,
  which runs a node from its environment until a signal arrives.
\<close>

section \<open>The process\<close>

text \<open>
  The goroutines that \<open>startWorker\<close> adds to the wait group, and what a process holds besides the node:
  a server is \<open>None\<close> while its field is nil, then tells whether it serves; a connection tells whether
  it is open.
\<close>

datatype worker = Election_Timer | Replication_Loop Peer

record Process =
  proc_node :: Node
  grpcServer :: "bool option"
  httpServer :: "bool option"
  workers :: "worker list"
  conns :: "string \<rightharpoonup> bool"
  cancelled :: bool
  stopDone :: bool
  storeOpen :: bool

definition new_process :: "Node \<Rightarrow> Process" where
  "new_process n =
     \<lparr>proc_node = n, grpcServer = None, httpServer = None, workers = [], conns = Map.empty,
      cancelled = False, stopDone = False, storeOpen = True\<rparr>"

section \<open>The loops\<close>

text \<open>
  One turn of a loop takes one of the events its \<open>select\<close> waits for.  The lists of events are what the
  loop has received so far: it has returned once it has received the cancellation.  A ticker with an interval that
  is not positive panics.
\<close>

datatype loop_state = Waiting | Returned | Panicked

datatype timer_event =
    Timer_Done
  | Timer_Tick "string \<Rightarrow> RequestVoteRequest \<Rightarrow> RequestVoteResponse option" "Peer list \<Rightarrow> Peer list"

datatype replication_event = Replicate_Done | Replicate_Tick | Replicate_Now

definition electionTick :: duration where
  "electionTick = 25 * millisecond"

definition ticker_panics :: "duration \<Rightarrow> bool" where
  "ticker_panics d \<longleftrightarrow> d \<le> 0"

fun timer_loop :: "timer_event list \<Rightarrow> Node \<Rightarrow> loop_state \<times> Node" where
  "timer_loop [] n = (Waiting, n)"
| "timer_loop (Timer_Done # es) n = (Returned, n)"
| "timer_loop (Timer_Tick rpc arrivals # es) n =
     (case electionDue n of (due, n1) \<Rightarrow> timer_loop es (if due then startElection rpc arrivals n1 else n1))"

definition runElectionTimer :: "timer_event list \<Rightarrow> Node \<Rightarrow> loop_state \<times> Node" where
  "runElectionTimer es n = (if ticker_panics electionTick then (Panicked, n) else timer_loop es n)"

fun replication_loop :: "'w network \<Rightarrow> string \<Rightarrow> replication_event list \<Rightarrow> Node \<Rightarrow> 'w \<Rightarrow> loop_state \<times> Node \<times> 'w" where
  "replication_loop net peerID [] n w = (Waiting, n, w)"
| "replication_loop net peerID (e # es) n w =
     (if e = Replicate_Done then (Returned, n, w)
      else case replication_turn (e = Replicate_Tick) net peerID n w of
             (n1, w1) \<Rightarrow> replication_loop net peerID es n1 w1)"

definition runReplication ::
  "'w network \<Rightarrow> Peer \<Rightarrow> replication_event list \<Rightarrow> Node \<Rightarrow> 'w \<Rightarrow> loop_state \<times> Node \<times> 'w" where
  "runReplication net peer es n w =
     (if ticker_panics (heartbeat n) then (Panicked, n, w) else replication_loop net (Peer_ID peer) es n w)"

section \<open>Starting\<close>

definition startWorker :: "worker \<Rightarrow> Process \<Rightarrow> Process" where
  "startWorker fn p = p\<lparr>workers := workers p @ [fn]\<rparr>"

text \<open>
  The metrics server is created and served in a goroutine, which only logs a failure: \<open>serve\<close> is the error that
  \<open>ListenAndServe\<close> gives for the address, \<open>None\<close> while it serves.  The routes of the multiplexer are left out.
\<close>

definition startHTTPServer :: "(string \<Rightarrow> error option) \<Rightarrow> Process \<Rightarrow> Process" where
  "startHTTPServer serve p = p\<lparr>httpServer := Some (serve (httpAddr (proc_node p)) = None)\<rparr>"

text \<open>
  \<open>Start\<close>: \<open>listen\<close> is \<open>net.Listen\<close> on the address of the node, \<open>accept\<close> the error of \<open>Serve\<close> on its listener, which is only
  logged too.  \<open>dialPeers\<close> stores a connection together with the clients on it, also for the peers before one that fails.
\<close>

definition dialled :: "Node \<Rightarrow> Process \<Rightarrow> Process" where
  "dialled n p = p\<lparr>proc_node := n, conns := (\<lambda>i. map_option (\<lambda>_. True) (kvClients n i))\<rparr>"

definition Start ::
  "(string \<Rightarrow> error option) \<Rightarrow> (string \<Rightarrow> error option) \<Rightarrow> error option \<Rightarrow> (string \<Rightarrow> error option) \<Rightarrow> Process
    \<Rightarrow> (error + unit) \<times> Process" where
  "Start newClient listen accept serve p =
     (case dialPeers newClient (proc_node p) of
        (Inl e, n) \<Rightarrow> (Inl e, dialled n p)
      | (Inr _, n) \<Rightarrow>
          (case listen (grpcAddr n) of
             Some e \<Rightarrow> (Inl (Errorf ''listen on %s: %w'' e), dialled n p)
           | None \<Rightarrow>
               (let p1 = (dialled n p)\<lparr>grpcServer := Some (accept = None)\<rparr>;
                    p2 = (if httpAddr n \<noteq> [] then startHTTPServer serve p1 else p1);
                    p3 = startWorker Election_Timer p2 in
                (Inr (), fold (\<lambda>peer. startWorker (Replication_Loop peer)) (peers n) p3))))"

section \<open>Stopping\<close>

text \<open>
  What \<open>Stop\<close> meets: the error of its context when that ends before the graceful stop, the results of
  the other calls, what each worker still receives in its \<open>select\<close> after the cancellation, the network its requests
  meet, and the order in which the map of connections is walked.  A joined error is the list of its parts, the empty one for nil.
\<close>

record 'w shutdown =
  late :: "error option"
  http_shutdown :: "error option"
  timer_events :: "timer_event list"
  peer_events :: "Peer \<Rightarrow> replication_event list"
  network :: "'w network"
  conn_order :: "string list"
  conn_close :: "string \<Rightarrow> error option"
  store_close :: "error option"

definition Join_errors :: "error list \<Rightarrow> error option \<Rightarrow> error list" where
  "Join_errors err e = (case e of None \<Rightarrow> err | Some x \<Rightarrow> err @ [x])"

definition stopGRPCServer :: "error option \<Rightarrow> Process \<Rightarrow> error list \<times> Process" where
  "stopGRPCServer ctx_err p =
     (case ctx_err of None \<Rightarrow> [] | Some e \<Rightarrow> [e], p\<lparr>grpcServer := Some False\<rparr>)"

fun close_conns :: "(string \<Rightarrow> error option) \<Rightarrow> string list \<Rightarrow> error list \<Rightarrow> Process \<Rightarrow> error list \<times> Process" where
  "close_conns close [] err p = (err, p)"
| "close_conns close (i # is) err p =
     close_conns close is (Join_errors err (close i)) (p\<lparr>conns := (conns p)(i \<mapsto> False)\<rparr>)"

text \<open>
  The rest of a worker's loop, and \<open>workers.Wait\<close>, which is \<open>None\<close> while it blocks on a worker whose loop has not returned.  The workers
  that are left take their last turns one after the other.
\<close>

fun worker_rest :: "'w shutdown \<Rightarrow> worker \<Rightarrow> Node \<Rightarrow> 'w \<Rightarrow> loop_state \<times> Node \<times> 'w" where
  "worker_rest sd Election_Timer n w = (case timer_loop (timer_events sd) n of (st, n1) \<Rightarrow> (st, n1, w))"
| "worker_rest sd (Replication_Loop peer) n w = replication_loop (network sd) (Peer_ID peer) (peer_events sd peer) n w"

fun wait_workers :: "'w shutdown \<Rightarrow> worker list \<Rightarrow> Node \<Rightarrow> 'w \<Rightarrow> (Node \<times> 'w) option" where
  "wait_workers sd [] n w = Some (n, w)"
| "wait_workers sd (wk # wks) n w =
     (case worker_rest sd wk n w of
        (Returned, n1, w1) \<Rightarrow> wait_workers sd wks n1 w1
      | _ \<Rightarrow> None)"

text \<open>\<open>Stop\<close> is \<open>None\<close> while the wait for the workers blocks.\<close>

definition Stop :: "'w shutdown \<Rightarrow> Process \<Rightarrow> 'w \<Rightarrow> (error list \<times> Process \<times> 'w) option" where
  "Stop sd p w =
     (if stopDone p then Some ([], p, w)
      else let p1 = p\<lparr>stopDone := True, cancelled := True\<rparr>;
               (err2, p2) = (if grpcServer p1 = None then ([], p1) else stopGRPCServer (late sd) p1);
               (err3, p3) = (if httpServer p2 = None then (err2, p2)
                             else (Join_errors err2 (http_shutdown sd), p2\<lparr>httpServer := Some False\<rparr>)) in
           (case wait_workers sd (workers p3) (proc_node p3) w of
              None \<Rightarrow> None
            | Some (n, w1) \<Rightarrow>
                let (err4, p4) = close_conns (conn_close sd) (conn_order sd) err3 (p3\<lparr>proc_node := n, workers := []\<rparr>) in
                Some (Join_errors err4 (store_close sd), p4\<lparr>storeOpen := False\<rparr>, w1)))"

section \<open>The node program\<close>

text \<open>
  \<open>run\<close> of \<open>cmd/raftnode\<close>: between \<open>Start\<close> and the signal the handlers and loops change the node, which
  \<open>served\<close> stands for; a worker that panics ends the whole process.
\<close>

datatype run_end = Run_Returned "error list" | Run_Panicked | Run_Blocked

fun worker_panics :: "Node \<Rightarrow> worker \<Rightarrow> bool" where
  "worker_panics n Election_Timer = ticker_panics electionTick"
| "worker_panics n (Replication_Loop peer) = ticker_panics (heartbeat n)"

definition node_run ::
  "(string \<Rightarrow> string) \<Rightarrow> boot \<Rightarrow> (string \<Rightarrow> error option) \<Rightarrow> (string \<Rightarrow> error option) \<Rightarrow> error option \<Rightarrow> (string \<Rightarrow> error option)
    \<Rightarrow> (Node \<Rightarrow> Node) \<Rightarrow> 'w shutdown \<Rightarrow> 'w \<Rightarrow> run_end \<times> Process option" where
  "node_run getenv b newClient listen accept serve served sd w =
     (case FromEnv getenv of
        Inl e \<Rightarrow> (Run_Returned [e], None)
      | Inr cfg \<Rightarrow>
     (case Node_New (OptionsFromConfig cfg) b of
        Inl e \<Rightarrow> (Run_Returned [e], None)
      | Inr n \<Rightarrow>
     (case Start newClient listen accept serve (new_process n) of
        (Inl e, p) \<Rightarrow> (Run_Returned [e], Some p)
      | (Inr _, p) \<Rightarrow>
          if list_ex (worker_panics (proc_node p)) (workers p) then (Run_Panicked, Some p)
          else let p1 = p\<lparr>proc_node := served (proc_node p)\<rparr> in
               (case Stop sd p1 w of
                  None \<Rightarrow> (Run_Blocked, Some p1)
                | Some (err, p2, _) \<Rightarrow> (Run_Returned err, Some p2)))))"

text \<open>The exit status of \<open>main\<close>; the runtime ends a process that panics with status 2.\<close>

fun node_main :: "run_end \<Rightarrow> nat option" where
  "node_main (Run_Returned err) = Some (if err = [] then 0 else 1)"
| "node_main Run_Panicked = Some 2"
| "node_main Run_Blocked = None"

end
