(* ===== verification/Steady.thy ===== *)
theory Steady imports Client
begin

text \<open>
  What the critical sections of a node do to its vote and role, for arbitrary requests and replies
  and for a log in any state.  \<open>quiet\<close> sections leave term, vote and role alone; \<open>steady\<close> ones may also
  move to a later term and give the role up.  Both are stated as implications from a well-formed
  database, so that they compose without side conditions.
\<close>

definition quiet :: "Node \<Rightarrow> Node \<Rightarrow> bool" where
  "quiet n n' \<longleftrightarrow>
     (db_ok (ndb n) \<longrightarrow>
        db_ok (ndb n') \<and> disk_vote (ndb n') = disk_vote (ndb n) \<and> node_id n' = node_id n \<and> peers n' = peers n
        \<and> role n' = role n \<and> currentTerm n' = currentTerm n \<and> votedFor n' = votedFor n)"

definition steady :: "Node \<Rightarrow> Node \<Rightarrow> bool" where
  "steady n n' \<longleftrightarrow>
     (db_ok (ndb n) \<and> vote_ok n \<longrightarrow>
        db_ok (ndb n') \<and> vote_step n n' \<and> node_id n' = node_id n \<and> peers n' = peers n
        \<and> currentTerm n \<le> currentTerm n'
        \<and> (role n' \<noteq> RoleFollower \<longrightarrow> role n' = role n \<and> currentTerm n' = currentTerm n))"

named_theorems quiet_updates
named_theorems quiet_steps

lemma quiet_refl [simp]: "quiet n n"
  by (simp add: quiet_def)

lemma quiet_trans: "quiet n m \<Longrightarrow> quiet m n' \<Longrightarrow> quiet n n'"
  by (simp add: quiet_def)

lemma steady_trans: "steady n m \<Longrightarrow> steady m n' \<Longrightarrow> steady n n'"
  by (auto simp: steady_def vote_step_def intro: vote_le_trans)

lemma quiet_steady: "quiet n n' \<Longrightarrow> steady n n'"
  by (auto simp: quiet_def steady_def vote_step_def vote_ok_def mem_vote_def)

lemma steady_quiet: "steady n m \<Longrightarrow> quiet m n' \<Longrightarrow> steady n n'"
  by (blast intro: steady_trans quiet_steady)

lemma steadyD:
  assumes "steady n n'" and "db_ok (ndb n)" and "vote_ok n"
  shows "db_ok (ndb n')" and "vote_step n n'" and "node_id n' = node_id n" and "peers n' = peers n"
    and "currentTerm n \<le> currentTerm n'"
    and "role n' \<noteq> RoleFollower \<Longrightarrow> role n' = role n \<and> currentTerm n' = currentTerm n"
  using assms by (simp_all add: steady_def)

section \<open>Sections that leave the vote alone\<close>

lemma quiet_frame: "frame n' n \<Longrightarrow> quiet n n'"
  using frameD(1,2,5,10,11,12) [of n' n] by (simp add: quiet_def)

text \<open>Extending a run of quiet sections at its end, one rule per kind of section.\<close>

lemma quiet_fields [quiet_updates]:
  "quiet k n \<Longrightarrow> quiet k (n\<lparr>leaderID := l\<rparr>)" "quiet k n \<Longrightarrow> quiet k (n\<lparr>commitIndex := i\<rparr>)"
  "quiet k n \<Longrightarrow> quiet k (n\<lparr>lastApplied := i\<rparr>)" "quiet k n \<Longrightarrow> quiet k (n\<lparr>nextIndex := ni\<rparr>)"
  "quiet k n \<Longrightarrow> quiet k (n\<lparr>matchIndex := ni\<rparr>)" "quiet k n \<Longrightarrow> quiet k (n\<lparr>unreachable := u\<rparr>)"
  "quiet k n \<Longrightarrow> quiet k (n\<lparr>replicateNow := rn\<rparr>)" "quiet k n \<Longrightarrow> quiet k (on_metrics f n)"
  "quiet k n \<Longrightarrow> quiet k (rpcHandled x y n)" "quiet k n \<Longrightarrow> quiet k (resetElectionDeadlineLocked n)"
  by (simp_all add: quiet_def on_metrics_def rpcHandled_def)
     (use frameD(1,2,5,10,11,12) [OF resetElectionDeadlineLocked_frame] in simp)

lemma quiet_time [quiet_steps]: "time_Now n = (t, n') \<Longrightarrow> quiet n n'"
  by (blast intro: quiet_frame time_Now_frame)

lemma quiet_publish [quiet_updates]: "quiet k n \<Longrightarrow> quiet k (publishStateLocked n)"
proof -
  assume q: "quiet k n"
  have "quiet n (publishStateLocked n)"
    using quiet_frame [OF publishStateLocked_frame] by (auto simp: quiet_def)
  with q show ?thesis by (rule quiet_trans)
qed

lemma quiet_read: "answers op view \<Longrightarrow> on_store op n = (r, n') \<Longrightarrow> quiet n n'"
  using quiet_frame [OF on_store_answers(1) [of op view n r n']] by (auto simp: quiet_def)

lemmas quiet_reads [quiet_steps] = store_answers [THEN quiet_read]

lemma quiet_write:
  assumes "commits op eff" and "\<And>d. db_ok d \<Longrightarrow> db_ok (eff d)" and "\<And>d. disk_vote (eff d) = disk_vote d"
    and "on_store op n = (r, n')"
  shows "quiet n n'"
proof (cases r)
  case (Inl e)
  then show ?thesis using on_store_commits(2) [OF assms(1,4)] quiet_frame by blast
next
  case (Inr x)
  have "quiet n (with_db (eff (ndb n)) n)" using assms(2,3) by (simp add: quiet_def)
  then show ?thesis using quiet_frame [OF on_store_commits(1) [OF assms(1,4) Inr]] by (rule quiet_trans)
qed

lemma disk_vote_apply [simp]:
  "disk_vote (apply_set i k v d) = disk_vote d" "disk_vote (apply_delete i k d) = disk_vote d"
  "disk_vote (put_meta ''last_applied'' v d) = disk_vote d" "disk_vote (drop_through i d) = disk_vote d"
  "disk_vote (put_snapshot sn d) = disk_vote d"
  by (simp_all add: disk_vote_def view_simps)
     (simp_all add: put_snapshot_def meta_string_def meta_u64_def put_meta_def lookup_upsert)

lemma quiet_writes [quiet_steps]:
  "on_store (Store_AppendEntries es) n = (r, n') \<Longrightarrow> quiet n n'"
  "on_store (DeleteFrom i) n = (r, n') \<Longrightarrow> quiet n n'"
  "on_store (ApplySet i x v) n = (r, n') \<Longrightarrow> quiet n n'"
  "on_store (ApplyDelete i x) n = (r, n') \<Longrightarrow> quiet n n'"
  "on_store (SkipTo i) n = (r, n') \<Longrightarrow> quiet n n'"
  by (rule quiet_write [OF Store_AppendEntries_commits db_ok_put_entries], simp_all)
     (rule quiet_write [OF DeleteFrom_commits db_ok_drop_from], simp_all,
      rule quiet_write [OF ApplySet_commits db_ok_apply_set], simp_all,
      rule quiet_write [OF ApplyDelete_commits db_ok_apply_delete], simp_all,
      rule quiet_write [OF SkipTo_commits db_ok_last_applied], simp_all)

lemma quiet_apply [quiet_steps]: "on_store (applyTo c i) n = (r, n') \<Longrightarrow> quiet n n'"
  by (cases "Op c = opDelete") (auto simp: on_store_def applyTo_def intro: quiet_writes [unfolded on_store_def])

lemma quiet_snapshot [quiet_steps]:
  assumes "on_store (CreateSnapshot i t) n = (r, n')"
  shows "quiet n n'"
proof -
  obtain s' where s': "CreateSnapshot i t (store n) = (r, s')" "n' = n\<lparr>store := s'\<rparr>"
    using assms by (auto simp: on_store_def split: prod.splits)
  show ?thesis
  proof (cases "db_ok (ndb n)")
    case True
    then have "meta_ok (ndb n)" by auto
    from CreateSnapshot_cases(1,2) [OF this s'(1)] show ?thesis
      using True s'(2) by (cases r) (simp_all add: quiet_def db_ok_drop_through db_ok_put_snapshot)
  qed (simp add: quiet_def)
qed

lemma quiet_snd_snapshot [quiet_updates]: "quiet k n \<Longrightarrow> quiet k (snd (on_store (CreateSnapshot i t) n))"
  using quiet_snapshot [of i t n "fst (on_store (CreateSnapshot i t) n)"] by (auto intro: quiet_trans)

lemma quiet_restore [quiet_steps]:
  assumes "on_store (Store_InstallSnapshot sn) n = (r, n')"
  shows "quiet n n'"
proof (cases "snapshot_state sn")
  case (Inl e)
  then show ?thesis using assms by (simp add: on_store_def Store_InstallSnapshot_undecodable)
next
  case (Inr state)
  show ?thesis
    by (rule quiet_write [OF Store_InstallSnapshot_commits [OF Inr] db_ok_restore _ assms]) simp_all
qed

section \<open>Committing and applying\<close>

lemma quiet_compact [quiet_updates]: "quiet k n \<Longrightarrow> quiet k (compactIfNeededLocked n)"
proof -
  have "quiet n (compactIfNeededLocked n)"
    by (auto simp: compactIfNeededLocked_def dest!: quiet_steps intro!: quiet_updates split: prod.split sum.split option.split;
        simp add: quiet_def)
  then show "quiet k n \<Longrightarrow> quiet k (compactIfNeededLocked n)" by (blast intro: quiet_trans)
qed

lemma quiet_skip [quiet_steps]: "skipCompactedLocked i n = (b, n') \<Longrightarrow> quiet n n'"
  by (auto simp: skipCompactedLocked_def intro!: quiet_updates dest!: quiet_steps
      split: prod.splits sum.splits if_splits; simp add: quiet_def)

lemma quiet_apply_entry [quiet_steps]: "apply_entry i e n = (b, n') \<Longrightarrow> quiet n n'"
  by (auto simp: apply_entry_def intro!: quiet_updates dest!: quiet_steps split: prod.splits sum.splits;
      simp add: quiet_def)

lemma quiet_apply_step [quiet_steps]: "apply_step n = (b, n') \<Longrightarrow> quiet n n'"
  by (auto simp: apply_step_def Let_def dest!: quiet_steps split: prod.splits sum.splits option.splits;
      simp add: quiet_def)

lemma quiet_applyCommitted [quiet_updates]: "quiet k n \<Longrightarrow> quiet k (applyCommittedLocked n)"
proof (induction n rule: applyCommittedLocked.induct)
  case (1 n)
  obtain b n1 where s: "apply_step n = (b, n1)" by fastforce
  have "quiet k n1" using "1.prems" quiet_apply_step [OF s] by (rule quiet_trans)
  then show ?case
    using "1.IH" [OF _ s [symmetric]] "1.prems" s
    by (subst applyCommittedLocked.simps) (auto intro!: quiet_compact split: bool.split)
qed

lemma quiet_scan_commit [quiet_steps]: "scan_commit m is c n = (r, n') \<Longrightarrow> quiet n n'"
proof (induction "is" arbitrary: c n)
  case (Cons i "is")
  obtain x n1 where s: "on_store (Store_Term i) n = (x, n1)" by fastforce
  have q: "quiet n n1" using s by (rule quiet_steps)
  show ?case
  proof (cases x)
    case (Inl e)
    then show ?thesis using Cons.prems s q by simp
  next
    case (Inr known)
    then have "quiet n1 n'" using Cons s by (auto split: if_splits)
    with q show ?thesis by (rule quiet_trans)
  qed
qed simp

lemma quiet_advance [quiet_updates]: "quiet k n \<Longrightarrow> quiet k (advanceCommitLocked n)"
proof -
  have "quiet n (advanceCommitLocked n)"
    by (auto simp: advanceCommitLocked_def dest!: quiet_steps intro!: quiet_updates
        split: prod.split sum.split option.split; simp add: quiet_def)
  then show "quiet k n \<Longrightarrow> quiet k (advanceCommitLocked n)" by (blast intro: quiet_trans)
qed

lemma quiet_commitAndApply [quiet_updates]: "quiet k n \<Longrightarrow> quiet k (commitAndApply n)"
  by (auto simp: commitAndApply_def intro!: quiet_updates)

section \<open>Handlers and replies\<close>

lemma quiet_scan_entries [quiet_steps]: "scan_entries s es m ms n = (r, n') \<Longrightarrow> quiet n n'"
proof (induction es arbitrary: m ms n)
  case (Cons e es)
  obtain x n1 where a: "on_store (Store_Term (LogEntry_Index e)) n = (x, n1)" by fastforce
  obtain y n2 where b: "on_store (DeleteFrom (LogEntry_Index e)) n1 = (y, n2)" by fastforce
  have 1: "quiet n n1" and 2: "quiet n n2"
    using quiet_steps(3) a b by (auto dest!: quiet_steps intro: quiet_trans)
  consider "n' = n1" | "n' = n2" | k m' ms' where "k \<in> {n, n1, n2}" "scan_entries s es m' ms' k = (r, n')"
    using Cons.prems a b by (auto simp: Let_def split: if_splits sum.splits option.splits)
  then show ?case using 1 2 Cons.IH by cases (auto intro: quiet_trans)
qed simp

lemma quiet_store_entries [quiet_steps]: "storeLeaderEntriesLocked es p s n = (r, n') \<Longrightarrow> quiet n n'"
  by (auto simp: storeLeaderEntriesLocked_def dest!: quiet_steps split: prod.splits sum.splits; simp add: quiet_def)

lemma quiet_follow_commit [quiet_steps]: "followLeaderCommitLocked c n = (r, n') \<Longrightarrow> quiet n n'"
  by (auto simp: followLeaderCommitLocked_def dest!: quiet_steps intro!: quiet_updates
      split: prod.splits sum.splits if_splits)

lemma quiet_reject [quiet_steps]: "rejectAppendLocked (rpcHandled x y n) = (r, n') \<Longrightarrow> quiet n n'"
proof -
  assume run: "rejectAppendLocked (rpcHandled x y n) = (r, n')"
  have "quiet (rpcHandled x y n) n'"
    using run by (auto simp: rejectAppendLocked_def dest!: quiet_steps split: prod.splits sum.splits)
  then show "quiet n n'" by (rule quiet_trans [OF quiet_fields(9) [OF quiet_refl]])
qed

lemma quiet_accept_entries [quiet_steps]: "accept_entries req s n = (r, n') \<Longrightarrow> quiet n n'"
  by (auto simp: accept_entries_def Let_def dest!: quiet_steps intro!: quiet_updates
      split: prod.splits sum.splits; simp add: quiet_def)

lemma quiet_check_entries: "check_entries req n = (r, n') \<Longrightarrow> quiet n n'"
  by (auto simp: check_entries_def dest!: quiet_steps intro!: quiet_updates
      split: prod.splits sum.splits if_splits; simp add: quiet_def)

section \<open>Sections that may step down\<close>

lemma adopted_db_ok: "adopted t n d \<Longrightarrow> db_ok (ndb n) \<Longrightarrow> db_ok d"
  by (auto simp: adopted_def db_ok_put_term_vote split: if_splits)

lemma steady_stepped_down: "adopted t n d \<Longrightarrow> steady n (stepped_down t l d n)"
  using stepped_down_votes [of n t d l] adopted_db_ok [of t n d] by (auto simp: steady_def)

lemma steady_frame: "steady n m \<Longrightarrow> frame n' m \<Longrightarrow> steady n n'"
  by (blast intro: steady_quiet quiet_frame)

lemma steady_stepDown: "steady n (stepDownLocked t l n)"
proof (cases "db_ok (ndb n)")
  case True
  obtain d where f: "frame (stepDownLocked t l n) (stepped_down t l d n)"
    and "d = (if currentTerm n < t then put_term_vote t [] (ndb n) else ndb n) \<or> (d = ndb n \<and> \<not> clean n)"
    by (rule stepDownLocked_frame [OF db_okD(4) [OF True]])
  then have "adopted t n d" by (simp add: adopted_def)
  then show ?thesis using f by (blast intro: steady_frame steady_stepped_down)
qed (simp add: steady_def)

lemma steady_follow: "steady n (follow_sender t l n)"
  unfolding follow_sender_def Let_def
  by (rule steady_quiet [of _ "if currentTerm n < t \<or> role n \<noteq> RoleFollower then stepDownLocked t l n else n"])
     (auto intro!: quiet_updates intro: steady_stepDown quiet_steady)

lemma steady_observe: "observeHigherTerm t n = (b, n') \<Longrightarrow> steady n n'"
  by (auto simp: observeHigherTerm_def intro: steady_stepDown quiet_steady split: if_splits)

lemma steady_AppendEntries: "AppendEntries req n = (r, n') \<Longrightarrow> steady n n'"
  by (auto simp: AppendEntries_def intro: quiet_steady quiet_reject steady_quiet [OF steady_follow quiet_check_entries]
      split: if_splits)

lemma steady_InstallSnapshot: "InstallSnapshot req n = (r, n') \<Longrightarrow> steady n n'"
proof -
  let ?m = "follow_sender (SnapReq_Term req) (SnapReq_LeaderId req) n"
  assume "InstallSnapshot req n = (r, n')"
  then have "quiet n n' \<or> quiet ?m n'"
    by (auto simp: InstallSnapshot_def Let_def dest!: quiet_steps intro!: quiet_updates
        split: if_splits prod.splits sum.splits; simp add: quiet_def)
  then show "steady n n'" using steady_follow by (blast intro: quiet_steady steady_quiet)
qed

section \<open>The leader's sections\<close>

lemma quiet_note [quiet_updates]:
  "quiet k n \<Longrightarrow> quiet k (notePeerUnreachable p n)" "quiet k n \<Longrightarrow> quiet k (notePeerReachableLocked p n)"
  by (auto simp: notePeerUnreachable_def notePeerReachableLocked_def intro!: quiet_updates)

lemma quiet_record [quiet_updates]: "quiet k n \<Longrightarrow> quiet k (recordPeerProgressLocked p i n)"
proof -
  have "quiet n (recordPeerProgressLocked p i n)"
    by (auto simp: recordPeerProgressLocked_def Let_def dest!: quiet_steps intro!: quiet_updates
        split: prod.split sum.split; simp add: quiet_def)
  then show "quiet k n \<Longrightarrow> quiet k (recordPeerProgressLocked p i n)" by (blast intro: quiet_trans)
qed

lemma quiet_signal [quiet_updates]: "quiet k n \<Longrightarrow> quiet k (signalReplication n)"
  by (auto simp: signalReplication_def intro!: quiet_updates)

lemma quiet_needs_snapshot: "peerNeedsSnapshot p n = (r, n') \<Longrightarrow> quiet n n'"
  by (auto simp: peerNeedsSnapshot_def dest!: quiet_steps split: prod.splits sum.splits)

lemma quiet_build_append: "buildAppendRequestLocked p n = (r, n') \<Longrightarrow> quiet n n'"
  by (auto simp: buildAppendRequestLocked_def Let_def dest!: quiet_steps intro!: quiet_updates
      split: prod.splits sum.splits option.splits; blast intro: quiet_trans)

lemma quiet_build_snapshot: "build_snapshot n = (r, n') \<Longrightarrow> quiet n n'"
  by (auto simp: build_snapshot_def dest!: quiet_steps split: prod.splits sum.splits)

lemma quiet_accept_reply: "accept_reply p t req reply n = (out, n') \<Longrightarrow> quiet n n'"
  by (auto simp: accept_reply_def Let_def intro!: quiet_updates split: if_splits)

lemma steady_append_reply: "append_reply p t req reply n = (out, n') \<Longrightarrow> steady n n'"
  by (auto simp: append_reply_def intro!: quiet_updates
      intro: quiet_steady steady_observe steady_quiet [OF steady_observe quiet_accept_reply]
      split: option.splits prod.splits bool.splits)

lemma steady_snapshot_reply: "snapshot_reply p req reply n = (ok, n') \<Longrightarrow> steady n n'"
  by (auto simp: snapshot_reply_def Let_def intro!: quiet_updates
      intro: quiet_steady steady_observe steady_quiet [OF steady_observe]
      split: option.splits prod.splits bool.splits if_splits)

lemma quiet_appendClientEntry: "appendClientEntry payload n = (r, n') \<Longrightarrow> quiet n n'"
  by (auto simp: appendClientEntry_def Let_def dest!: quiet_steps intro!: quiet_updates
      split: prod.splits sum.splits if_splits; blast intro: quiet_trans)

lemma quiet_read_local: "read_local req n = (r, n') \<Longrightarrow> quiet n n'"
  by (auto simp: read_local_def dest!: quiet_steps split: prod.splits sum.splits option.splits)

lemma quiet_Status: "Node_Status n = (r, n') \<Longrightarrow> quiet n n'"
  by (auto simp: Node_Status_def dest!: quiet_steps split: prod.splits sum.splits; blast intro: quiet_trans)

lemma quiet_InspectLog: "InspectLog n = (r, n') \<Longrightarrow> quiet n n'"
  by (auto simp: InspectLog_def dest!: quiet_steps split: prod.splits sum.splits; blast intro: quiet_trans)

end
