(* ===== verification/Voting.thy ===== *)
theory Voting imports Prelude
begin

text \<open>
  What elections promise, without nodes and messages: voters cast at most one vote per term, and a
  candidate may lead a term once a quorum has voted for it.  \<open>quorums\<close> is what a notion of quorum
  has to provide; from it follows that a term has one leader.
\<close>

record ('v, 't) voting =
  cast :: "('v \<times> 't \<times> 'v) set"
  led :: "('t \<times> 'v) set"

definition no_votes :: "('v, 't) voting" where
  "no_votes = \<lparr>cast = {}, led = {}\<rparr>"

definition voters :: "'t \<Rightarrow> 'v \<Rightarrow> ('v, 't) voting \<Rightarrow> 'v set" where
  "voters t c a = {v. (v, t, c) \<in> cast a}"

inductive vstep :: "('v set \<Rightarrow> bool) \<Rightarrow> ('v, 't) voting \<Rightarrow> ('v, 't) voting \<Rightarrow> bool" for quorum where
  cast_vote: "\<forall>c'. (v, t, c') \<in> cast a \<longrightarrow> c' = c \<Longrightarrow> vstep quorum a (a\<lparr>cast := insert (v, t, c) (cast a)\<rparr>)"
| lead: "quorum (voters t c a) \<Longrightarrow> vstep quorum a (a\<lparr>led := insert (t, c) (led a)\<rparr>)"

inductive_cases vstep_cases: "vstep quorum a a'"

definition one_vote :: "('v, 't) voting \<Rightarrow> bool" where
  "one_vote a \<longleftrightarrow> (\<forall>v t c c'. (v, t, c) \<in> cast a \<longrightarrow> (v, t, c') \<in> cast a \<longrightarrow> c = c')"

lemma voters_cast: "voters t c a \<subseteq> voters t c (a\<lparr>cast := insert x (cast a)\<rparr>)"
  by (auto simp: voters_def)

lemma vstep_one_vote: "vstep quorum a a' \<Longrightarrow> one_vote a \<Longrightarrow> one_vote a'"
  by (erule vstep_cases) (auto simp: one_vote_def)

lemma vstep_history: "(vstep quorum)\<^sup>*\<^sup>* a a' \<Longrightarrow> cast a \<subseteq> cast a' \<and> led a \<subseteq> led a'"
  by (induction rule: rtranclp_induct) (auto elim!: vstep_cases)

locale quorums =
  fixes quorum :: "'v set \<Rightarrow> bool"
  assumes overlap: "quorum A \<Longrightarrow> quorum B \<Longrightarrow> A \<inter> B \<noteq> {}"
    and larger: "quorum A \<Longrightarrow> A \<subseteq> B \<Longrightarrow> quorum B"
begin

definition backed :: "('v, 't) voting \<Rightarrow> bool" where
  "backed a \<longleftrightarrow> one_vote a \<and> (\<forall>t c. (t, c) \<in> led a \<longrightarrow> quorum (voters t c a))"

lemma vstep_backed: "vstep quorum a a' \<Longrightarrow> backed a \<Longrightarrow> backed a'"
  using vstep_one_vote [of quorum a a']
  by (auto simp: backed_def elim!: vstep_cases intro: larger [OF _ voters_cast]) (simp_all add: voters_def)

lemma reachable_backed: "(vstep quorum)\<^sup>*\<^sup>* no_votes a \<Longrightarrow> backed a"
proof (induction rule: rtranclp_induct)
  case base
  show ?case by (simp add: backed_def one_vote_def no_votes_def)
qed (rule vstep_backed)

lemma one_leader:
  assumes "(vstep quorum)\<^sup>*\<^sup>* no_votes a" and "(t, c) \<in> led a" and "(t, c') \<in> led a"
  shows "c = c'"
proof -
  have b: "backed a" using assms(1) by (rule reachable_backed)
  then obtain v where "v \<in> voters t c a" "v \<in> voters t c' a"
    using overlap assms(2,3) by (fastforce simp: backed_def)
  then show ?thesis using b by (auto simp: backed_def one_vote_def voters_def)
qed

end

text \<open>A majority of the members of a cluster.\<close>

definition majority_of :: "string set \<Rightarrow> string set \<Rightarrow> bool" where
  "majority_of ms A \<longleftrightarrow> finite ms \<and> card ms div 2 + 1 \<le> card (A \<inter> ms)"

lemma majority_overlap:
  assumes "majority_of ms A" and "majority_of ms B"
  shows "A \<inter> B \<noteq> {}"
proof
  assume "A \<inter> B = {}"
  have fin: "finite ms" using assms(1) by (simp add: majority_of_def)
  have "card (A \<inter> ms) + card (B \<inter> ms) = card ((A \<inter> ms) \<union> (B \<inter> ms))"
    using fin \<open>A \<inter> B = {}\<close> by (intro card_Un_disjoint [symmetric]) auto
  also have "\<dots> \<le> card ms" by (rule card_mono [OF fin]) auto
  finally show False using assms unfolding majority_of_def by linarith
qed

interpretation majority: quorums "majority_of ms" for ms
proof
  fix A B assume "majority_of ms A" and "A \<subseteq> B"
  then show "majority_of ms B"
    using card_mono [of "B \<inter> ms" "A \<inter> ms"] by (fastforce simp: majority_of_def)
qed (rule majority_overlap)

end
