(* ===== verification/Cluster.thy ===== *)
theory Cluster imports Steady Voting
begin

text \<open>
  A cluster of nodes that run their critical sections in any order: elections with their requests,
  replies and rounds, restarts, and every other section of a node with arbitrary requests and
  replies.  Messages are never taken back, so they may arrive late, repeatedly or not at all.  A
  history beside the nodes collects the votes that were on disk and the terms that were led.
\<close>

section \<open>State\<close>

type_synonym election_round = "candidacy \<times> nat \<times> string list"

record cluster =
  nodes :: "string \<Rightarrow> Node"
  rounds :: "string \<Rightarrow> election_round option"
  requests :: "(string \<times> RequestVoteRequest) set"
  replies :: "(string \<times> RequestVoteRequest \<times> RequestVoteResponse) set"
  history :: "(string, u64) voting"

text \<open>The vote on disk and the lead of a node, entered into the history.\<close>

definition note_node :: "string \<Rightarrow> Node \<Rightarrow> (string, u64) voting \<Rightarrow> (string, u64) voting" where
  "note_node i n h =
     (let (t, v) = disk_vote (ndb n) in
      h\<lparr>cast := (if v = [] then cast h else insert (i, t, v) (cast h)),
        led := (if role n = RoleLeader then insert (currentTerm n, i) (led h) else led h)\<rparr>)"

definition set_node :: "string \<Rightarrow> Node \<Rightarrow> cluster \<Rightarrow> cluster" where
  "set_node i n s = s\<lparr>nodes := (nodes s)(i := n), history := note_node i n (history s)\<rparr>"

definition set_round :: "string \<Rightarrow> election_round option \<Rightarrow> cluster \<Rightarrow> cluster" where
  "set_round i r s = s\<lparr>rounds := (rounds s)(i := r)\<rparr>"

section \<open>Steps\<close>

text \<open>
  The critical sections of one node outside of elections, for whatever request or reply comes in.
\<close>

inductive locked :: "Node \<Rightarrow> Node \<Rightarrow> bool" where
  append: "AppendEntries req n = (r, n') \<Longrightarrow> locked n n'"
| install: "InstallSnapshot req n = (r, n') \<Longrightarrow> locked n n'"
| needs_snapshot: "peerNeedsSnapshot p n = (r, n') \<Longrightarrow> locked n n'"
| build_append: "buildAppendRequestLocked p n = (r, n') \<Longrightarrow> locked n n'"
| build_snapshot: "build_snapshot n = (r, n') \<Longrightarrow> locked n n'"
| append_reply: "append_reply p t req reply n = (out, n') \<Longrightarrow> locked n n'"
| snapshot_reply: "snapshot_reply p req reply n = (ok, n') \<Longrightarrow> locked n n'"
| client_append: "appendClientEntry payload n = (r, n') \<Longrightarrow> locked n n'"
| client_read: "read_local req n = (r, n') \<Longrightarrow> locked n n'"
| status: "Node_Status n = (r, n') \<Longrightarrow> locked n n'"
| inspect: "InspectLog n = (r, n') \<Longrightarrow> locked n n'"
| commit: "locked n (commitAndApply n)"
| signal: "locked n (signalReplication n)"
| wake_up: "locked n (n\<lparr>replicateNow := (replicateNow n)(p \<mapsto> False)\<rparr>)"
| timer: "electionDue n = (due, n') \<Longrightarrow> locked n n'"
| latency: "time_Now n = (t, n') \<Longrightarrow> locked n (on_metrics (CommitLatency d) n')"

text \<open>A member that is started on a disk with database \<open>d\<close>: it is configured with the other members as peers.\<close>

definition starts :: "string set \<Rightarrow> string \<Rightarrow> db \<Rightarrow> Node \<Rightarrow> bool" where
  "starts ms i d n \<longleftrightarrow>
     (\<exists>opts b. Node_New opts b = Inr n \<and> db (boot_disk b) = d \<and> defaults_order (boot_order b)
        \<and> Opt_NodeID opts = i \<and> distinct (map Peer_ID (Opt_Peers opts)) \<and> Peer_ID ` set (Opt_Peers opts) = ms - {i})"

definition initial :: "string set \<Rightarrow> cluster \<Rightarrow> bool" where
  "initial ms s \<longleftrightarrow>
     finite ms \<and> (\<forall>i \<in> ms. \<exists>d. db_ok d \<and> starts ms i d (nodes s i))
     \<and> rounds s = Map.empty \<and> requests s = {} \<and> replies s = {} \<and> history s = no_votes"

text \<open>
  \<open>startElection\<close> in its critical sections: becoming a candidate and asking the peers, hearing from one
  of them, and taking over once the votes suffice.  A round ends early when the node learns of a newer
  term, is stopped or has heard from everybody.
\<close>

definition ask_peers :: "string \<Rightarrow> candidacy \<Rightarrow> cluster \<Rightarrow> cluster" where
  "ask_peers i round s =
     (set_round i (Some (round, 1, map Peer_ID (cand_peers round))) s)
       \<lparr>requests := requests s \<union> {(p, vote_request round i) |p. p \<in> Peer_ID ` set (cand_peers round)}\<rparr>"

inductive step :: "string set \<Rightarrow> cluster \<Rightarrow> cluster \<Rightarrow> bool" for ms where
  locked: "i \<in> ms \<Longrightarrow> locked (nodes s i) n' \<Longrightarrow> step ms s (set_node i n' s)"
| no_candidate: "i \<in> ms \<Longrightarrow> currentTerm (nodes s i) \<noteq> - 1 \<Longrightarrow> becomeCandidate (nodes s i) = (None, n')
    \<Longrightarrow> step ms s (set_node i n' s)"
| candidate: "i \<in> ms \<Longrightarrow> rounds s i = None \<Longrightarrow> currentTerm (nodes s i) \<noteq> - 1
    \<Longrightarrow> becomeCandidate (nodes s i) = (Some round, n') \<Longrightarrow> step ms s (ask_peers i round (set_node i n' s))"
| vote_failed: "i \<in> ms \<Longrightarrow> (i, req) \<in> requests s \<Longrightarrow> RequestVote req (nodes s i) = (Inl e, n')
    \<Longrightarrow> step ms s (set_node i n' s)"
| vote: "i \<in> ms \<Longrightarrow> (i, req) \<in> requests s \<Longrightarrow> RequestVote req (nodes s i) = (Inr resp, n')
    \<Longrightarrow> step ms s ((set_node i n' s)\<lparr>replies := insert (i, req, resp) (replies s)\<rparr>)"
| no_answer: "i \<in> ms \<Longrightarrow> rounds s i = Some (round, votes, pending) \<Longrightarrow> p \<in> set pending
    \<Longrightarrow> step ms s (set_round i (Some (round, votes, remove1 p pending)) s)"
| hear_newer: "i \<in> ms \<Longrightarrow> rounds s i = Some (round, votes, pending) \<Longrightarrow> p \<in> set pending
    \<Longrightarrow> (p, vote_request round i, resp) \<in> replies s \<Longrightarrow> observeHigherTerm (VoteResp_Term resp) (nodes s i) = (True, n')
    \<Longrightarrow> step ms s (set_round i None (set_node i n' s))"
| hear: "i \<in> ms \<Longrightarrow> rounds s i = Some (round, votes, pending) \<Longrightarrow> votes < cand_majority round \<Longrightarrow> p \<in> set pending
    \<Longrightarrow> (p, vote_request round i, resp) \<in> replies s \<Longrightarrow> observeHigherTerm (VoteResp_Term resp) (nodes s i) = (False, n')
    \<Longrightarrow> step ms s (set_round i (Some (round, if VoteResp_VoteGranted resp then votes + 1 else votes, remove1 p pending))
          (set_node i n' s))"
| take_over: "i \<in> ms \<Longrightarrow> rounds s i = Some (round, votes, pending) \<Longrightarrow> cand_majority round \<le> votes
    \<Longrightarrow> take_over (cand_term round) (nodes s i) = (r, n') \<Longrightarrow> step ms s (set_round i None (set_node i n' s))"
| give_up: "i \<in> ms \<Longrightarrow> step ms s (set_round i None s)"
| restart: "i \<in> ms \<Longrightarrow> starts ms i (ndb (nodes s i)) n' \<Longrightarrow> step ms s (set_round i None (set_node i n' s))"

inductive_cases step_cases: "step ms s s'"

section \<open>Votes and leads of one node\<close>

text \<open>A section at a node that takes no vote back and starts no lead.\<close>

definition moves :: "Node \<Rightarrow> Node \<Rightarrow> bool" where
  "moves n n' \<longleftrightarrow>
     db_ok (ndb n') \<and> vote_step n n' \<and> node_id n' = node_id n \<and> peers n' = peers n
     \<and> (role n' = RoleLeader \<longrightarrow> role n = RoleLeader \<and> currentTerm n' = currentTerm n)"

lemma moves_steady: "steady n n' \<Longrightarrow> db_ok (ndb n) \<Longrightarrow> vote_ok n \<Longrightarrow> moves n n'"
  by (auto simp: steady_def moves_def)

lemma moves_refl: "db_ok (ndb n) \<Longrightarrow> vote_ok n \<Longrightarrow> moves n n"
  by (simp add: moves_def vote_step_refl)

lemma locked_steady: "locked n n' \<Longrightarrow> steady n n'"
proof (induction rule: locked.induct)
  case (timer n due n')
  then have "quiet n n'" by (auto simp: electionDue_def dest: quiet_time split: if_splits prod.splits)
  then show ?case by (rule quiet_steady)
next
  case (latency n t n' d)
  then show ?case by (intro quiet_steady quiet_fields) (rule quiet_time)
qed (auto intro!: quiet_updates
      intro: steady_AppendEntries steady_InstallSnapshot steady_append_reply steady_snapshot_reply quiet_steady
        quiet_needs_snapshot quiet_build_append quiet_build_snapshot quiet_appendClientEntry quiet_read_local
        quiet_Status quiet_InspectLog)

lemma becomeCandidate_moves:
  assumes "db_ok (ndb n)" and "vote_ok n" and "currentTerm n \<noteq> - 1" and "becomeCandidate n = (r, n')"
  shows "moves n n'"
    and "\<And>round. r = Some round \<Longrightarrow> disk_vote (ndb n') = (cand_term round, node_id n) \<and> cand_peers round = peers n
           \<and> cand_majority round = majorityLocked n"
proof -
  have meta: "meta_ok (ndb n)" using assms(1) by auto
  note V = becomeCandidate_votes [OF meta assms(2-4)]
  have "(db_ok (ndb n') \<and> node_id n' = node_id n \<and> peers n' = peers n \<and> (role n' = RoleLeader \<longrightarrow> n' = n))
    \<and> (\<forall>round. r = Some round \<longrightarrow> cand_peers round = peers n \<and> cand_majority round = majorityLocked n)"
  proof (cases rule: becomeCandidate_outcome [OF meta assms(4)])
    case (2 d)
    then show ?thesis using frameD(1,2,5,10) [OF 2(4)] assms(1) db_ok_put_term_vote by auto
  next
    case 3
    then show ?thesis using frameD(1,2,5,10) [OF 3(2)] assms(1) db_ok_put_term_vote by simp
  qed (use assms(1) in simp)
  with V show "moves n n'"
    and "\<And>round. r = Some round \<Longrightarrow> disk_vote (ndb n') = (cand_term round, node_id n) \<and> cand_peers round = peers n
           \<and> cand_majority round = majorityLocked n"
    by (auto simp: moves_def)
qed

lemma RequestVote_moves:
  assumes "db_ok (ndb n)" and "vote_ok n" and "RequestVote req n = (r, n')"
  shows "moves n n'"
proof -
  have meta: "meta_ok (ndb n)" using assms(1) by auto
  have moved: "moves n n'" if "frame n' m" "db_ok (ndb m)" "node_id m = node_id n" "peers m = peers n"
      "role m = RoleLeader \<longrightarrow> role n = RoleLeader \<and> currentTerm m = currentTerm n" for m
    using frameD(1,2,5,10,11) [OF that(1)] that(2-) RequestVote_votes(1) [OF meta assms(2,3)]
    by (simp add: moves_def)
  show ?thesis
  proof (cases rule: RequestVote_outcome [OF meta assms(3)])
    case 1
    then show ?thesis using moved assms(1) by blast
  next
    case (2 d v)
    then show ?thesis
      using moved [OF 2(5)] voter_node_fields [OF 2(2,1)] adopted_db_ok [OF 2(2) assms(1)] by auto
  next
    case (3 d)
    then show ?thesis
      using moved [OF 3(3)] voter_node_fields [OF 3(2,1)] adopted_db_ok [OF 3(2) assms(1)] by auto
  next
    case (4 d)
    then show ?thesis
      using moved [OF 4(5)] voter_node_fields [OF 4(2,1)] db_ok_put_term_vote [OF adopted_db_ok [OF 4(2) assms(1)]]
      by auto
  qed
qed

lemma starts_node:
  assumes "starts ms i d n" and "db_ok d"
  shows "ndb n = d" and "node_id n = i" and "i \<noteq> []" and "distinct (map Peer_ID (peers n))"
    and "Peer_ID ` set (peers n) = ms - {i}" and "role n = RoleFollower" and "mem_vote n = disk_vote d"
proof -
  obtain opts b where o: "Node_New opts b = Inr n" "db (boot_disk b) = d" "defaults_order (boot_order b)"
    "Opt_NodeID opts = i" "distinct (map Peer_ID (Opt_Peers opts))" "Peer_ID ` set (Opt_Peers opts) = ms - {i}"
    using assms(1) by (auto simp: starts_def)
  have "db_ok (db (boot_disk b))" using o(2) assms(2) by simp
  from Node_New_restores [OF o(1) this o(3)] o
  show "ndb n = d" and "node_id n = i" and "i \<noteq> []" and "distinct (map Peer_ID (peers n))"
    and "Peer_ID ` set (peers n) = ms - {i}" and "role n = RoleFollower" and "mem_vote n = disk_vote d"
    by (simp_all add: mem_vote_def disk_vote_def)
qed

section \<open>The invariant\<close>

definition member_ok :: "string set \<Rightarrow> string \<Rightarrow> Node \<Rightarrow> bool" where
  "member_ok ms i n \<longleftrightarrow>
     db_ok (ndb n) \<and> vote_ok n \<and> node_id n = i \<and> i \<noteq> [] \<and> distinct (map Peer_ID (peers n))
     \<and> Peer_ID ` set (peers n) = ms - {i}"

text \<open>The votes a round has counted were cast by members it does not wait for any more.\<close>

definition round_ok :: "string set \<Rightarrow> (string, u64) voting \<Rightarrow> string \<Rightarrow> election_round \<Rightarrow> bool" where
  "round_ok ms h i = (\<lambda>(round, votes, pending).
     i \<in> ms \<and> cand_majority round = card ms div 2 + 1 \<and> distinct pending \<and> set pending \<subseteq> ms - {i}
     \<and> (i, cand_term round, i) \<in> cast h \<and> votes \<le> card (voters (cand_term round) i h - set pending))"

definition consistent :: "string set \<Rightarrow> cluster \<Rightarrow> bool" where
  "consistent ms s \<longleftrightarrow>
     finite ms \<and> (\<forall>i \<in> ms. member_ok ms i (nodes s i))
     \<and> (\<forall>v t c. (v, t, c) \<in> cast (history s) \<longrightarrow> v \<in> ms \<and> c \<noteq> [] \<and> vote_le (t, c) (disk_vote (ndb (nodes s v))))
     \<and> (\<forall>i \<in> ms. role (nodes s i) = RoleLeader \<longrightarrow> (currentTerm (nodes s i), i) \<in> led (history s))
     \<and> (\<forall>p req. (p, req) \<in> requests s \<longrightarrow> VoteReq_CandidateId req \<noteq> [])
     \<and> (\<forall>p req resp. (p, req, resp) \<in> replies s \<longrightarrow> VoteResp_VoteGranted resp
          \<longrightarrow> (p, VoteReq_Term req, VoteReq_CandidateId req) \<in> cast (history s))
     \<and> (\<forall>i er. rounds s i = Some er \<longrightarrow> round_ok ms (history s) i er)"

lemma consistentD:
  assumes "consistent ms s"
  shows "finite ms" and "i \<in> ms \<Longrightarrow> member_ok ms i (nodes s i)"
    and "(v, t, c) \<in> cast (history s) \<Longrightarrow> v \<in> ms \<and> c \<noteq> [] \<and> vote_le (t, c) (disk_vote (ndb (nodes s v)))"
    and "i \<in> ms \<Longrightarrow> role (nodes s i) = RoleLeader \<Longrightarrow> (currentTerm (nodes s i), i) \<in> led (history s)"
    and "(p, req) \<in> requests s \<Longrightarrow> VoteReq_CandidateId req \<noteq> []"
    and "(p, req, resp) \<in> replies s \<Longrightarrow> VoteResp_VoteGranted resp
          \<Longrightarrow> (p, VoteReq_Term req, VoteReq_CandidateId req) \<in> cast (history s)"
    and "rounds s i = Some er \<Longrightarrow> round_ok ms (history s) i er"
  using assms unfolding consistent_def by blast+

lemma set_node_simps [simp]:
  "nodes (set_node i n s) = (nodes s)(i := n)" "rounds (set_node i n s) = rounds s"
  "requests (set_node i n s) = requests s" "replies (set_node i n s) = replies s"
  "history (set_node i n s) = note_node i n (history s)"
  by (simp_all add: set_node_def)

lemma set_round_simps [simp]:
  "nodes (set_round i r s) = nodes s" "rounds (set_round i r s) = (rounds s)(i := r)"
  "requests (set_round i r s) = requests s" "replies (set_round i r s) = replies s"
  "history (set_round i r s) = history s"
  by (simp_all add: set_round_def)

lemma note_node_simps:
  "cast (note_node i n h) =
     (if snd (disk_vote (ndb n)) = [] then cast h else insert (i, disk_vote (ndb n)) (cast h))"
  "led (note_node i n h) = (if role n = RoleLeader then insert (currentTerm n, i) (led h) else led h)"
  by (cases "disk_vote (ndb n)"; simp add: note_node_def)+

lemma majority_members:
  assumes "finite ms" and "i \<in> ms" and "member_ok ms i n"
  shows "majorityLocked n = card ms div 2 + 1"
proof -
  have "length (peers n) = card (Peer_ID ` set (peers n))"
    using assms(3) by (metis member_ok_def distinct_card length_map list.set_map)
  also have "\<dots> = card ms - 1" using assms by (simp add: member_ok_def)
  finally have "length (peers n) + 1 = card ms" using assms(1,2) card_gt_0_iff [of ms] by fastforce
  then show ?thesis by (simp add: majorityLocked_def)
qed

lemma round_ok_more:
  assumes "round_ok ms h i er" and "cast h \<subseteq> cast h'" and "finite ms"
    and "\<And>v t c. (v, t, c) \<in> cast h' \<Longrightarrow> v \<in> ms"
  shows "round_ok ms h' i er"
proof -
  obtain round votes pending where er: "er = (round, votes, pending)" by (cases er)
  let ?V = "\<lambda>h. voters (cand_term round) i h - set pending"
  have "?V h \<subseteq> ?V h'" using assms(2) by (auto simp: voters_def)
  moreover have "finite (?V h')" using assms(3,4) by (auto simp: voters_def intro: finite_subset [of _ ms])
  ultimately have "card (?V h) \<le> card (?V h')" by (intro card_mono)
  then show ?thesis using assms(1,2) by (auto simp: er round_ok_def)
qed

text \<open>
  A section at node \<open>i\<close> that takes no vote back keeps the invariant and is, in the history, at most a
  vote and a lead.
\<close>

lemma set_node_ok:
  assumes "consistent ms s" and "i \<in> ms" and "member_ok ms i n'"
    and "vote_le (disk_vote (ndb (nodes s i))) (disk_vote (ndb n'))"
    and "role n' = RoleLeader \<Longrightarrow> (currentTerm n', i) \<in> led (history s)
           \<or> majority_of ms (voters (currentTerm n') i (history s))"
  shows "consistent ms (set_node i n' s)"
    and "(vstep (majority_of ms))\<^sup>*\<^sup>* (history s) (history (set_node i n' s))"
proof -
  let ?h = "history s" and ?h' = "note_node i n' (history s)"
  note C = consistentD [OF assms(1)]
  obtain t v where dv: "disk_vote (ndb n') = (t, v)" by fastforce
  have old: "vote_le (t', c') (t, v)" if "(i, t', c') \<in> cast ?h" for t' c'
    using C(3) [OF that] assms(4) dv by (auto intro: vote_le_trans)
  have cast': "cast ?h' = (if v = [] then cast ?h else insert (i, t, v) (cast ?h))"
    by (simp add: note_node_simps dv)
  have votes: "w \<in> ms \<and> c \<noteq> [] \<and> vote_le (t', c) (disk_vote (ndb (nodes (set_node i n' s) w)))"
    if "(w, t', c) \<in> cast ?h'" for w t' c
  proof (cases "(w, t', c) \<in> cast ?h")
    case True
    then show ?thesis using C(3) [OF True] old [of t' c] dv by auto
  next
    case False
    then show ?thesis using that assms(2) dv by (auto simp: cast' split: if_splits)
  qed
  have more: "cast ?h \<subseteq> cast ?h'" "led ?h \<subseteq> led ?h'" by (auto simp: cast' note_node_simps(2))
  have rounds: "round_ok ms ?h' j er" if "rounds s j = Some er" for j er
    by (rule round_ok_more [OF C(7) [OF that] more(1) C(1)]) (use votes in blast)
  show "consistent ms (set_node i n' s)"
    unfolding consistent_def
  proof (intro conjI allI ballI impI)
    fix j assume "j \<in> ms"
    then show "member_ok ms j (nodes (set_node i n' s) j)" using C(2) assms(3) by simp
    assume "role (nodes (set_node i n' s) j) = RoleLeader"
    then show "(currentTerm (nodes (set_node i n' s) j), j) \<in> led (history (set_node i n' s))"
      using C(4) [OF \<open>j \<in> ms\<close>] more(2) by (auto simp: note_node_simps(2) split: if_splits)
  next
    fix w t' c assume "(w, t', c) \<in> cast (history (set_node i n' s))"
    then show "w \<in> ms" and "c \<noteq> []" and "vote_le (t', c) (disk_vote (ndb (nodes (set_node i n' s) w)))"
      using votes [of w t' c] by simp_all
  qed (use C(1,5,6) rounds more(1) in auto)
  let ?h1 = "?h\<lparr>cast := cast ?h'\<rparr>"
  have "(vstep (majority_of ms))\<^sup>*\<^sup>* ?h ?h1"
  proof (cases "v = []")
    case False
    have "\<forall>c'. (i, t, c') \<in> cast ?h \<longrightarrow> c' = v"
      using old C(3) vote_le_unique by blast
    from vstep.cast_vote [OF this, of "majority_of ms"] False cast' show ?thesis by simp
  qed (simp add: cast')
  also have "(vstep (majority_of ms))\<^sup>*\<^sup>* ?h1 ?h'"
  proof (cases "role n' = RoleLeader \<and> (currentTerm n', i) \<notin> led ?h")
    case True
    then have "majority_of ms (voters (currentTerm n') i ?h)" using assms(5) by blast
    moreover have "voters (currentTerm n') i ?h \<subseteq> voters (currentTerm n') i ?h1"
      by (auto simp: voters_def cast')
    ultimately have "majority_of ms (voters (currentTerm n') i ?h1)" by (rule majority.larger)
    from vstep.lead [of "majority_of ms", OF this] True show ?thesis
      by (intro r_into_rtranclp) (simp add: note_node_def dv)
  next
    case False
    then have "?h1 = ?h'" by (auto simp: note_node_def dv insert_absorb)
    then show ?thesis by simp
  qed
  finally show "(vstep (majority_of ms))\<^sup>*\<^sup>* ?h (history (set_node i n' s))" by simp
qed

lemma moves_ok:
  assumes "consistent ms s" and "i \<in> ms" and "moves (nodes s i) n'"
  shows "consistent ms (set_node i n' s)"
    and "(vstep (majority_of ms))\<^sup>*\<^sup>* (history s) (history (set_node i n' s))"
    and "member_ok ms i n'"
proof -
  note M = consistentD(2) [OF assms(1,2)] assms(3) [unfolded moves_def vote_step_def]
  show m: "member_ok ms i n'" using M by (auto simp: member_ok_def)
  have l: "role n' = RoleLeader \<Longrightarrow> (currentTerm n', i) \<in> led (history s)
      \<or> majority_of ms (voters (currentTerm n') i (history s))"
    using M consistentD(4) [OF assms(1,2)] by auto
  show "consistent ms (set_node i n' s)"
    and "(vstep (majority_of ms))\<^sup>*\<^sup>* (history s) (history (set_node i n' s))"
    using set_node_ok [OF assms(1,2) m] M l by blast+
qed

lemma set_round_ok:
  assumes "consistent ms s" and "\<And>er. r = Some er \<Longrightarrow> round_ok ms (history s) i er"
  shows "consistent ms (set_round i r s)"
  using assms by (auto simp: consistent_def)

lemma no_round_ok: "consistent ms s \<Longrightarrow> consistent ms (set_round i None s)"
  by (rule set_round_ok) simp_all

lemma round_ok_history:
  assumes "consistent ms s" and "consistent ms (set_node j n' s)" and "round_ok ms (history s) i er"
  shows "round_ok ms (history (set_node j n' s)) i er"
proof (rule round_ok_more [OF assms(3) _ consistentD(1) [OF assms(1)]])
  show "cast (history s) \<subseteq> cast (history (set_node j n' s))" by (auto simp: note_node_simps)
  show "v \<in> ms" if "(v, t, c) \<in> cast (history (set_node j n' s))" for v t c
    using consistentD(3) [OF assms(2) that] by blast
qed

text \<open>One more reply: the round waits for one member less, and a granted vote is one more voter.\<close>

lemma round_ok_hear:
  assumes "round_ok ms h i (round, votes, pending)" and "p \<in> set pending" and "finite ms"
    and "\<And>v t c. (v, t, c) \<in> cast h \<Longrightarrow> v \<in> ms"
    and "votes' = votes \<or> votes' = votes + 1 \<and> (p, cand_term round, i) \<in> cast h"
  shows "round_ok ms h i (round, votes', remove1 p pending)"
proof -
  let ?V = "voters (cand_term round) i h"
  have fin: "finite ?V" using assms(3,4) by (auto simp: voters_def intro: finite_subset [of _ ms])
  have d: "set (remove1 p pending) = set pending - {p}" using assms(1) by (simp add: round_ok_def)
  have "votes' \<le> card (?V - (set pending - {p}))"
    using assms(5)
  proof
    assume "votes' = votes"
    moreover have "card (?V - set pending) \<le> card (?V - (set pending - {p}))" using fin by (intro card_mono) auto
    ultimately show ?thesis using assms(1) by (simp add: round_ok_def)
  next
    assume v: "votes' = votes + 1 \<and> (p, cand_term round, i) \<in> cast h"
    then have "?V - (set pending - {p}) = insert p (?V - set pending)" using assms(2) by (auto simp: voters_def)
    then have "card (?V - (set pending - {p})) = card (?V - set pending) + 1" using fin assms(2) by simp
    then show ?thesis using v assms(1) by (simp add: round_ok_def)
  qed
  then show ?thesis using assms(1) d by (auto simp: round_ok_def)
qed

section \<open>Every step keeps the invariant\<close>

text \<open>What a step does: it keeps the invariant, and the history moves as the voting rules allow.\<close>

definition lawful :: "string set \<Rightarrow> cluster \<Rightarrow> cluster \<Rightarrow> bool" where
  "lawful ms s s' \<longleftrightarrow> consistent ms s' \<and> (vstep (majority_of ms))\<^sup>*\<^sup>* (history s) (history s')"

lemma lawful_moves:
  "consistent ms s \<Longrightarrow> i \<in> ms \<Longrightarrow> moves (nodes s i) n' \<Longrightarrow> lawful ms s (set_node i n' s)"
  using moves_ok(1,2) by (simp add: lawful_def)

lemma lawful_no_round: "lawful ms s s' \<Longrightarrow> lawful ms s (set_round i None s')"
  by (simp add: lawful_def no_round_ok)

lemma member_moves:
  assumes "consistent ms s" and "i \<in> ms"
  shows "db_ok (ndb (nodes s i))" and "vote_ok (nodes s i)" and "node_id (nodes s i) = i"
    and "steady (nodes s i) n' \<Longrightarrow> moves (nodes s i) n'"
  using consistentD(2) [OF assms] moves_steady by (simp_all add: member_ok_def)

lemma candidate_ok:
  assumes "consistent ms s" and "i \<in> ms" and "currentTerm (nodes s i) \<noteq> - 1"
    and "becomeCandidate (nodes s i) = (Some round, n')"
  shows "lawful ms s (ask_peers i round (set_node i n' s))"
proof -
  note M = member_moves [OF assms(1,2)] and member = consistentD(2) [OF assms(1,2)]
  note B = becomeCandidate_moves [OF M(1,2) assms(3,4)]
  let ?s = "set_node i n' s"
  let ?er = "(round, 1, map Peer_ID (cand_peers round))"
  note L = lawful_moves [OF assms(1,2) B(1)]
  have c: "consistent ms ?s" using L by (simp add: lawful_def)
  have dv: "disk_vote (ndb n') = (cand_term round, i)" and ps: "cand_peers round = peers (nodes s i)"
    and mj: "cand_majority round = majorityLocked (nodes s i)" using B(2) [OF refl] M(3) by simp_all
  have own: "(i, cand_term round, i) \<in> cast (history ?s)"
    using dv member by (simp add: note_node_simps member_ok_def)
  have "i \<in> voters (cand_term round) i (history ?s) - set (map Peer_ID (cand_peers round))"
    using own ps member by (auto simp: voters_def member_ok_def)
  moreover have "voters (cand_term round) i (history ?s) \<subseteq> ms"
    using consistentD(3) [OF c] by (auto simp: voters_def)
  ultimately have "1 \<le> card (voters (cand_term round) i (history ?s) - set (map Peer_ID (cand_peers round)))"
    using consistentD(1) [OF assms(1)] card_gt_0_iff finite_subset by (metis Diff_subset One_nat_def Suc_leI empty_iff)
  then have "round_ok ms (history ?s) i ?er"
    using own ps mj member majority_members [OF consistentD(1) [OF assms(1)] assms(2) member] assms(2)
    by (simp add: round_ok_def member_ok_def)
  from set_round_ok [OF c, of "Some ?er"] this
  have r: "consistent ms (set_round i (Some ?er) ?s)" by blast
  have "i \<noteq> []" using member by (simp add: member_ok_def)
  then have "consistent ms (ask_peers i round ?s)"
    using r by (auto simp: ask_peers_def consistent_def vote_request_def)
  then show ?thesis using L by (simp add: lawful_def ask_peers_def)
qed

lemma vote_reply_ok:
  assumes "consistent ms s" and "i \<in> ms" and "(i, req) \<in> requests s" and "RequestVote req (nodes s i) = (Inr resp, n')"
  shows "lawful ms s ((set_node i n' s)\<lparr>replies := insert (i, req, resp) (replies s)\<rparr>)"
proof -
  note M = member_moves [OF assms(1,2)]
  have L: "lawful ms s (set_node i n' s)"
    by (rule lawful_moves [OF assms(1,2) RequestVote_moves [OF M(1,2) assms(4)]])
  have "(i, VoteReq_Term req, VoteReq_CandidateId req) \<in> cast (note_node i n' (history s))"
    if "VoteResp_VoteGranted resp"
    using RequestVote_votes(2) [OF db_okD(4) [OF M(1)] M(2) assms(4) refl that] consistentD(5) [OF assms(1,3)]
    by (simp add: note_node_simps)
  moreover have "consistent ms (set_node i n' s)" using L by (simp add: lawful_def)
  ultimately have "consistent ms ((set_node i n' s)\<lparr>replies := insert (i, req, resp) (replies s)\<rparr>)"
    by (auto simp: consistent_def)
  then show ?thesis using L by (simp add: lawful_def)
qed

lemma hear_ok:
  assumes "consistent ms s" and "i \<in> ms" and "rounds s i = Some (round, votes, pending)" and "p \<in> set pending"
    and "(p, vote_request round i, resp) \<in> replies s"
    and "observeHigherTerm (VoteResp_Term resp) (nodes s i) = (False, n')"
  shows "lawful ms s (set_round i (Some (round, if VoteResp_VoteGranted resp then votes + 1 else votes, remove1 p pending))
    (set_node i n' s))"
proof -
  have L: "lawful ms s (set_node i n' s)"
    by (rule lawful_moves [OF assms(1,2) member_moves(4) [OF assms(1,2) steady_observe [OF assms(6)]]])
  then have c: "consistent ms (set_node i n' s)" by (simp add: lawful_def)
  have r: "round_ok ms (history (set_node i n' s)) i (round, votes, pending)"
    by (rule round_ok_history [OF assms(1) c consistentD(7) [OF assms(1,3)]])
  have "(p, cand_term round, i) \<in> cast (history (set_node i n' s))" if "VoteResp_VoteGranted resp"
    using consistentD(6) [OF c, of p "vote_request round i" resp] assms(5) that by (simp add: vote_request_def)
  moreover have "v \<in> ms" if "(v, t, x) \<in> cast (history (set_node i n' s))" for v t x
    using consistentD(3) [OF c that] by blast
  ultimately have "round_ok ms (history (set_node i n' s)) i
      (round, if VoteResp_VoteGranted resp then votes + 1 else votes, remove1 p pending)"
    by (intro round_ok_hear [OF r assms(4) consistentD(1) [OF assms(1)]]) auto
  then have "consistent ms (set_round i
      (Some (round, if VoteResp_VoteGranted resp then votes + 1 else votes, remove1 p pending)) (set_node i n' s))"
    by (intro set_round_ok [OF c]) blast
  then show ?thesis using L by (simp add: lawful_def)
qed

lemma take_over_ok:
  assumes "consistent ms s" and "i \<in> ms" and "rounds s i = Some (round, votes, pending)"
    and "cand_majority round \<le> votes" and "take_over (cand_term round) (nodes s i) = (r, n')"
  shows "lawful ms s (set_node i n' s)"
proof -
  note M = member_moves [OF assms(1,2)] and member = consistentD(2) [OF assms(1,2)]
  show ?thesis
  proof (cases rule: take_over_outcome [OF db_okD(4) [OF M(1)] assms(5)])
    case 1
    have "steady (nodes s i) n'" by (rule quiet_steady [OF quiet_frame [OF 1(2)]])
    then show ?thesis using lawful_moves [OF assms(1,2)] M(4) by blast
  next
    case 2
    note F = frameD(1,2,5,11,12) [OF 2(4)]
    have n': "ndb n' = ndb (nodes s i)" "node_id n' = node_id (nodes s i)" "peers n' = peers (nodes s i)"
      "currentTerm n' = cand_term round" "votedFor n' = votedFor (nodes s i)"
      using F 2(2) by simp_all
    let ?V = "voters (cand_term round) i (history s)"
    have er: "round_ok ms (history s) i (round, votes, pending)" by (rule consistentD(7) [OF assms(1,3)])
    have V: "?V \<subseteq> ms" using consistentD(3) [OF assms(1)] by (auto simp: voters_def)
    have "card (?V - set pending) \<le> card (?V \<inter> ms)"
      using V consistentD(1) [OF assms(1)] by (intro card_mono) (auto intro: finite_subset)
    then have "majority_of ms ?V"
      using er assms(4) consistentD(1) [OF assms(1)] by (simp add: round_ok_def majority_of_def)
    moreover have "member_ok ms i n'"
      using member n' 2(2) by (simp add: member_ok_def vote_ok_def mem_vote_def)
    ultimately show ?thesis
      using set_node_ok [OF assms(1,2)] n'(1,4) by (simp add: lawful_def)
  qed
qed

lemma step_lawful:
  assumes "consistent ms s" and "step ms s s'"
  shows "lawful ms s s'"
  using assms(2)
proof cases
  case (locked i n')
  then show ?thesis using lawful_moves [OF assms(1)] member_moves(4) [OF assms(1)] locked_steady by blast
next
  case (no_candidate i n')
  then show ?thesis
    using lawful_moves [OF assms(1)] becomeCandidate_moves(1) member_moves(1,2) [OF assms(1)] by blast
next
  case (candidate i round n')
  then show ?thesis using candidate_ok [OF assms(1)] by blast
next
  case (vote_failed i req e n')
  then show ?thesis using lawful_moves [OF assms(1)] RequestVote_moves member_moves(1,2) [OF assms(1)] by blast
next
  case (vote i req resp n')
  then show ?thesis using vote_reply_ok [OF assms(1)] by blast
next
  case (no_answer i round votes pending p)
  have "round_ok ms (history s) i (round, votes, remove1 p pending)"
    using round_ok_hear [OF consistentD(7) [OF assms(1) no_answer(3)] no_answer(4) consistentD(1) [OF assms(1)]]
      consistentD(3) [OF assms(1)] by blast
  then have "consistent ms s'" unfolding no_answer(1) by (intro set_round_ok [OF assms(1)]) blast
  then show ?thesis using no_answer(1) by (simp add: lawful_def)
next
  case (hear_newer i round votes pending p resp n')
  then show ?thesis
    using lawful_moves [OF assms(1)] member_moves(4) [OF assms(1)] steady_observe lawful_no_round by blast
next
  case (hear i round votes pending p resp n')
  then show ?thesis using hear_ok [OF assms(1)] by blast
next
  case (take_over i round votes pending r n')
  then show ?thesis using take_over_ok [OF assms(1)] lawful_no_round by blast
next
  case (give_up i)
  then show ?thesis using no_round_ok [OF assms(1)] by (simp add: lawful_def)
next
  case (restart i n')
  note S = starts_node [OF restart(3) member_moves(1) [OF assms(1) restart(2)]]
  have "vote_ok n'" using S(1,7) by (simp add: vote_ok_def)
  then have m: "member_ok ms i n'"
    using S member_moves(1) [OF assms(1) restart(2)] by (simp add: member_ok_def)
  have "lawful ms s (set_node i n' s)"
    using set_node_ok [OF assms(1) restart(2) m] S(1,6) by (simp add: lawful_def)
  then show ?thesis unfolding restart(1) by (rule lawful_no_round)
qed

lemma initial_consistent: "initial ms s \<Longrightarrow> consistent ms s"
proof -
  assume i: "initial ms s"
  have "member_ok ms j (nodes s j) \<and> role (nodes s j) = RoleFollower" if j: "j \<in> ms" for j
  proof -
    obtain d where d: "db_ok d" "starts ms j d (nodes s j)" using i j by (auto simp: initial_def)
    note S = starts_node [OF d(2,1)]
    show ?thesis using S d(1) by (simp add: member_ok_def vote_ok_def)
  qed
  then show "consistent ms s" using i by (simp add: initial_def consistent_def no_votes_def)
qed

lemma steps_lawful: "(step ms)\<^sup>*\<^sup>* s s' \<Longrightarrow> consistent ms s \<Longrightarrow> lawful ms s s'"
proof (induction rule: rtranclp_induct)
  case base
  then show ?case by (simp add: lawful_def)
next
  case (step s1 s2)
  have c: "consistent ms s1" and h: "(vstep (majority_of ms))\<^sup>*\<^sup>* (history s) (history s1)"
    using step by (simp_all add: lawful_def)
  show ?case using step_lawful [OF c step(2)] h by (auto simp: lawful_def)
qed

end
