(* ===== verification/Cluster_Props.thy ===== *)
theory Cluster_Props imports Cluster Election_Props
begin

text \<open>
  What the cluster promises about elections, whatever the order of its steps, the messages it loses
  and the nodes that restart: the election protocol implements the voting rules, and a term has at
  most one leader.
\<close>

section \<open>An election\<close>

definition trio :: "string set" where
  "trio = {''n1'', ''n2'', ''n3''}"

definition trio_options :: "string \<Rightarrow> Options" where
  "trio_options i =
     \<lparr>Opt_NodeID = i, Opt_GRPCAddr = '':9001'', Opt_HTTPAddr = [], Opt_DataDir = ''data'',
      Opt_Peers = map (\<lambda>j. \<lparr>Peer_ID = j, Peer_Address = j @ '':9001''\<rparr>) (filter (\<lambda>j. j \<noteq> i) [''n1'', ''n2'', ''n3'']),
      Opt_ElectionMin = 0, Opt_ElectionMax = 0, Opt_HeartbeatInterval = 0, Opt_SnapshotThreshold = 0\<rparr>"

definition fresh_boot :: boot where
  "fresh_boot =
     \<lparr>boot_mkdir = None, boot_sqlopen = None, boot_order = metadata_defaults, boot_disk = fresh_store [],
      boot_clock = 0, boot_ticks = [], boot_rands = []\<rparr>"

lemma fresh_boot_fields [simp]:
  "boot_mkdir fresh_boot = None" "boot_sqlopen fresh_boot = None" "boot_order fresh_boot = metadata_defaults"
  "boot_disk fresh_boot = fresh_store []"
  by (simp_all add: fresh_boot_def)

lemma fresh_store_fields [simp]: "faults (fresh_store fs) = fs"
  by (simp add: fresh_store_def)

lemma fresh_node:
  assumes "i \<in> trio"
  obtains n where "starts trio i (db (fresh_store [])) n" and "clean n" and "role n = RoleFollower"
    and "ndb n = db (fresh_store [])" and "node_id n = i" and "mem_vote n = (0, [])"
    and "map Peer_ID (peers n) = filter (\<lambda>j. j \<noteq> i) [''n1'', ''n2'', ''n3'']"
proof -
  let ?s = "fresh_store []" and ?o = "trio_options i"
  have ok: "db_ok (db ?s)" by (rule fresh_store_ok)
  have same: "?s\<lparr>faults := []\<rparr> = ?s" by (simp add: fresh_store_def)
  have "Open metadata_defaults None None ?s = (Inr (), ?s)"
    using reopen_ok [OF ok defaults_order_refl] unfolding reopen_def same .
  moreover note answers_clean [OF CurrentTermVote_answers db_okD(4) [OF ok] fresh_store_fields]
    answers_clean [OF LastApplied_answers db_okD(4) [OF ok] fresh_store_fields]
  moreover have "i \<noteq> []" using assms by (auto simp: trio_def)
  ultimately obtain t v a where run: "Node_New ?o fresh_boot =
      Inr (publishStateLocked (resetElectionDeadlineLocked (new_node (with_defaults ?o) fresh_boot ?s t v a)))"
    by (auto simp: Node_New_def Let_def trio_options_def)
  let ?new = "new_node (with_defaults ?o) fresh_boot ?s t v a"
  let ?n = "publishStateLocked (resetElectionDeadlineLocked ?new)"
  have f: "frame (resetElectionDeadlineLocked ?new) ?new" by simp
  have "meta_ok (ndb (resetElectionDeadlineLocked ?new))" using frameD(1) [OF f] db_okD(4) [OF ok] by (simp add: new_node_def)
  then have "frame ?n ?new" using f by (blast intro: frame_trans publishStateLocked_frame)
  then have c: "clean ?n" by (rule frame_clean) (simp add: new_node_def)
  have "distinct (map Peer_ID (Opt_Peers ?o))" "Peer_ID ` set (Opt_Peers ?o) = trio - {i}"
    by (auto simp: trio_options_def trio_def)
  then have st: "starts trio i (db ?s) ?n"
    unfolding starts_def
    by (intro exI [of _ ?o] exI [of _ fresh_boot])
       (use run in \<open>simp add: defaults_order_refl trio_options_def\<close>)
  have m: "mem_vote ?n = (0, [])"
    using starts_node(7) [OF st ok] fresh_meta by (simp add: disk_vote_def)
  have "db_ok (db (boot_disk fresh_boot))" using ok by simp
  note R = Node_New_restores [OF run this]
  show ?thesis
    by (rule that [OF st c starts_node(6) [OF st ok] starts_node(1) [OF st ok] starts_node(2) [OF st ok] m])
       (use R(3) defaults_order_refl in \<open>simp add: trio_options_def\<close>)
qed

text \<open>The first member asks for votes, the second grants its one, and the first takes over.\<close>

lemma candidate_starts:
  assumes "meta_ok (ndb n)" and "clean n" and "role n \<noteq> RoleLeader"
  obtains round n' where "becomeCandidate n = (Some round, n')" and "clean n'" and "role n' = RoleCandidate"
    and "currentTerm n' = currentTerm n + 1" and "cand_term round = currentTerm n + 1" and "cand_peers round = peers n"
    and "cand_majority round = majorityLocked n" and "meta_ok (ndb n')"
    and "Position (cand_lastLogTerm round) (cand_lastLogIndex round) = last_position (ndb n)"
proof -
  obtain r n' where run: "becomeCandidate n = (r, n')" by fastforce
  show ?thesis
  proof (cases rule: becomeCandidate_outcome [OF assms(1) run])
    case 3
    have "clean n'" by (rule frame_clean [OF 3(2)]) (use assms(2) in simp)
    then show ?thesis
      using frameD(1,10,11) [OF 3(2)] meta_ok_put_term_vote [OF assms(1)]
      by (intro that [OF run [unfolded 3(3)]]) (simp_all add: last_position_def case_prod_unfold)
  qed (use assms(2,3) in simp_all)
qed

lemma fresh_voter_grants:
  assumes "meta_ok (ndb n)" and "clean n" and "mem_vote n = (0, [])" and "0 < VoteReq_Term req"
    and "last_position (ndb n) \<le> Position (VoteReq_LastLogTerm req) (VoteReq_LastLogIndex req)"
  obtains n' where "RequestVote req n = (Inr \<lparr>VoteResp_Term = VoteReq_Term req, VoteResp_VoteGranted = True\<rparr>, n')"
proof -
  obtain r n' where run: "RequestVote req n = (r, n')" by fastforce
  have m: "currentTerm n = 0" "votedFor n = []" using assms(3) by (simp_all add: mem_vote_def)
  show ?thesis
  proof (cases rule: RequestVote_outcome [OF assms(1) run])
    case (3 d)
    have "last_position d = last_position (ndb n)"
      using 3(2) by (auto simp: adopted_def last_position_def view_simps split: if_splits)
    then show ?thesis using 3(4) assms(4,5) voter_node_fields(5) [OF 3(2,1)] m by simp
  next
    case (4 d)
    then show ?thesis using run that by simp
  qed (use assms(2,4) m in simp_all)
qed

lemma example_election:
  obtains s0 s s' where "initial trio s0" and "(step trio)\<^sup>*\<^sup>* s0 s" and "step trio s s'"
    and "role (nodes s' ''n1'') = RoleLeader"
proof -
  have mem: "''n1'' \<in> trio" "''n2'' \<in> trio" by (simp_all add: trio_def)
  let ?d = "db (fresh_store [])"
  let ?good = "\<lambda>i n. starts trio i ?d n \<and> clean n \<and> role n = RoleFollower \<and> ndb n = ?d \<and> node_id n = i
    \<and> mem_vote n = (0, []) \<and> map Peer_ID (peers n) = filter (\<lambda>j. j \<noteq> i) [''n1'', ''n2'', ''n3'']"
  have "\<forall>i \<in> trio. \<exists>n. ?good i n" using fresh_node by metis
  then obtain N where N: "\<forall>i \<in> trio. ?good i (N i)" by metis
  have ok: "db_ok ?d" by (rule fresh_store_ok)
  then have meta: "meta_ok ?d" by auto
  define s0 where "s0 = \<lparr>nodes = N, rounds = Map.empty, requests = {}, replies = {}, history = no_votes\<rparr>"
  have init: "initial trio s0"
    using N ok by (auto simp: s0_def initial_def) (simp add: trio_def)
  have n1: "meta_ok (ndb (N ''n1''))" "clean (N ''n1'')" "role (N ''n1'') \<noteq> RoleLeader" using N mem meta by simp_all
  have t1: "currentTerm (N ''n1'') = 0" using N mem by (simp add: mem_vote_def)
  have p1: "map Peer_ID (peers (N ''n1'')) = [''n2'', ''n3'']" using N mem by simp
  obtain round m1 where c: "becomeCandidate (N ''n1'') = (Some round, m1)" "clean m1" "role m1 = RoleCandidate"
    "currentTerm m1 = 1" "cand_term round = 1" "cand_peers round = peers (N ''n1'')"
    "cand_majority round = majorityLocked (N ''n1'')" "meta_ok (ndb m1)"
    "Position (cand_lastLogTerm round) (cand_lastLogIndex round) = last_position ?d"
    by (rule candidate_starts [OF n1]) (use t1 N mem in auto)
  have mj: "cand_majority round = 2" using c(7) arg_cong [OF p1, of length] by (simp add: majorityLocked_def)
  define s1 where "s1 = ask_peers ''n1'' round (set_node ''n1'' m1 s0)"
  have s1: "step trio s0 s1"
    unfolding s1_def by (rule step.candidate) (use mem c(1) t1 in \<open>simp_all add: s0_def\<close>)
  let ?req = "vote_request round ''n1''"
  have "''n2'' \<in> Peer_ID ` set (cand_peers round)"
    using arg_cong [OF p1, of set] c(6) by simp
  then have rq: "(''n2'', ?req) \<in> requests s1" by (simp add: s1_def ask_peers_def)
  have n2: "nodes s1 ''n2'' = N ''n2''" by (simp add: s1_def ask_peers_def s0_def)
  obtain m2 where v: "RequestVote ?req (nodes s1 ''n2'') = (Inr \<lparr>VoteResp_Term = 1, VoteResp_VoteGranted = True\<rparr>, m2)"
    by (rule fresh_voter_grants [of "nodes s1 ''n2''" ?req])
       (use N mem meta c(5,9) n2 in \<open>auto simp: vote_request_def\<close>)
  let ?resp = "\<lparr>VoteResp_Term = 1, VoteResp_VoteGranted = True\<rparr>"
  define s2 where "s2 = (set_node ''n2'' m2 s1)\<lparr>replies := insert (''n2'', ?req, ?resp) (replies s1)\<rparr>"
  have s2: "step trio s1 s2" unfolding s2_def by (rule step.vote [OF mem(2) rq v])
  have r2: "rounds s2 ''n1'' = Some (round, 1, [''n2'', ''n3''])" "nodes s2 ''n1'' = m1"
    using p1 c(6) by (simp_all add: s2_def s1_def ask_peers_def)
  define s3 where "s3 = set_round ''n1'' (Some (round, if VoteResp_VoteGranted ?resp then 1 + 1 else 1, remove1 ''n2'' [''n2'', ''n3'']))
    (set_node ''n1'' m1 s2)"
  have s3: "step trio s2 s3"
    unfolding s3_def
    by (rule step.hear [OF mem(1) r2(1)])
       (use mj r2(2) c(4) in \<open>simp_all add: s2_def observeHigherTerm_def\<close>)
  have r3: "rounds s3 ''n1'' = Some (round, 2, [''n3''])" "nodes s3 ''n1'' = m1" by (simp_all add: s3_def)
  obtain r m3 where t: "take_over (cand_term round) (nodes s3 ''n1'') = (r, m3)" by fastforce
  have "role m3 = RoleLeader"
    by (rule take_over_outcome [OF c(8) t [unfolded r3(2)]]) (use c(2-5) in \<open>auto dest: frameD(10)\<close>)
  moreover have "step trio s3 (set_round ''n1'' None (set_node ''n1'' m3 s3))"
    by (rule step.take_over [OF mem(1) r3(1) _ t]) (simp add: mj)
  moreover have "(step trio)\<^sup>*\<^sup>* s0 s3" using s1 s2 s3 by (meson r_into_rtranclp rtranclp_trans)
  ultimately show ?thesis using that init by simp
qed

text \<open>Every vote on a disk that is not the one the run started with has been noted as cast.\<close>

definition noted :: "db \<Rightarrow> string \<Rightarrow> cluster \<Rightarrow> bool" where
  "noted d i s \<longleftrightarrow>
     disk_vote (ndb (nodes s i)) = disk_vote d \<or> snd (disk_vote (ndb (nodes s i))) = []
     \<or> (i, disk_vote (ndb (nodes s i))) \<in> cast (history s)"

lemma noted_set_node: "noted d i s \<Longrightarrow> noted d i (set_node j n s)"
  by (auto simp: noted_def note_node_simps)

lemma noted_messages [simp]:
  "noted d i (ask_peers j round s) = noted d i s" "noted d i (set_round j r s) = noted d i s"
  "noted d i (s\<lparr>replies := rs\<rparr>) = noted d i s"
  by (simp_all add: noted_def ask_peers_def)

lemma step_noted: "step ms s s' \<Longrightarrow> noted d i s \<Longrightarrow> noted d i s'"
  by (erule step_cases) (auto intro!: noted_set_node)

lemma steps_noted: "(step ms)\<^sup>*\<^sup>* s0 s \<Longrightarrow> noted (ndb (nodes s0 i)) i s"
  by (induction rule: rtranclp_induct) (auto simp: noted_def [of _ _ s0] intro: step_noted)

text \<open>
  C2: the election protocol refines the voting rules.  Every step of a cluster, from a state that it
  can reach, is in the history of votes and leads a sequence of steps of the abstract machine, in which a
  vote is cast at most once per voter and term and a lead needs the votes of a majority.  The history says what the nodes do: a
  node in the role of leader leads its term, a vote on a disk that was not there when the run began is cast, so is every vote that a reply grants, and
  no vote on a disk is behind one that its node has cast.
\<close>

theorem cluster_refines_voting:
  assumes "initial ms s0" and "(step ms)\<^sup>*\<^sup>* s0 s" and "step ms s s'"
  shows "(vstep (majority_of ms))\<^sup>*\<^sup>* (history s) (history s')
    \<and> (\<forall>i \<in> ms. role (nodes s' i) = RoleLeader \<longrightarrow> (currentTerm (nodes s' i), i) \<in> led (history s'))
    \<and> (\<forall>i t c. disk_vote (ndb (nodes s' i)) = (t, c) \<and> c \<noteq> [] \<and> disk_vote (ndb (nodes s0 i)) \<noteq> (t, c)
         \<longrightarrow> (i, t, c) \<in> cast (history s'))
    \<and> (\<forall>p req resp. (p, req, resp) \<in> replies s' \<and> VoteResp_VoteGranted resp
         \<longrightarrow> (p, VoteReq_Term req, VoteReq_CandidateId req) \<in> cast (history s'))
    \<and> (\<forall>v t c. (v, t, c) \<in> cast (history s') \<longrightarrow> vote_le (t, c) (disk_vote (ndb (nodes s' v))))"
proof -
  have "consistent ms s" using steps_lawful [OF assms(2) initial_consistent [OF assms(1)]] by (simp add: lawful_def)
  from step_lawful [OF this assms(3)] have c: "consistent ms s'"
    and h: "(vstep (majority_of ms))\<^sup>*\<^sup>* (history s) (history s')" by (simp_all add: lawful_def)
  have "noted (ndb (nodes s0 i)) i s'" for i by (rule step_noted [OF assms(3) steps_noted [OF assms(2)]])
  then have "(i, t, c) \<in> cast (history s')"
    if "disk_vote (ndb (nodes s' i)) = (t, c)" "c \<noteq> []" "disk_vote (ndb (nodes s0 i)) \<noteq> (t, c)" for i t c
    using that unfolding noted_def by (metis snd_conv)
  then show ?thesis using h consistentD(3,4,6) [OF c] by blast
qed

theorem cluster_refines_voting_witness:
  "\<exists>s0 s s'. initial trio s0 \<and> (step trio)\<^sup>*\<^sup>* s0 s \<and> step trio s s'
     \<and> (currentTerm (nodes s' ''n1''), ''n1'') \<in> led (history s')
     \<and> (vstep (majority_of trio))\<^sup>*\<^sup>* (history s) (history s')"
proof -
  obtain s0 s s' where run: "initial trio s0" "(step trio)\<^sup>*\<^sup>* s0 s" "step trio s s'"
    and leads: "role (nodes s' ''n1'') = RoleLeader" by (rule example_election)
  have "''n1'' \<in> trio" by (simp add: trio_def)
  then show ?thesis using cluster_refines_voting [OF run] run leads by blast
qed

text \<open>
  C1: election safety.  If a member leads a term in some state of a run and a member leads the same term in
  that or any later state, across restarts, lost messages and failing disks, they are the same member.
\<close>

theorem election_safety:
  assumes "initial ms s0" and "(step ms)\<^sup>*\<^sup>* s0 s" and "(step ms)\<^sup>*\<^sup>* s s'"
    and "i \<in> ms" and "role (nodes s i) = RoleLeader"
    and "j \<in> ms" and "role (nodes s' j) = RoleLeader" and "currentTerm (nodes s' j) = currentTerm (nodes s i)"
  shows "i = j"
proof -
  have L: "lawful ms s0 s" by (rule steps_lawful [OF assms(2) initial_consistent [OF assms(1)]])
  then have c: "consistent ms s" by (simp add: lawful_def)
  have L': "lawful ms s s'" by (rule steps_lawful [OF assms(3) c])
  then have c': "consistent ms s'" by (simp add: lawful_def)
  have h: "(vstep (majority_of ms))\<^sup>*\<^sup>* no_votes (history s')"
    using L L' assms(1) by (auto simp: lawful_def initial_def)
  have "led (history s) \<subseteq> led (history s')" using L' by (auto simp: lawful_def dest: vstep_history)
  then have "(currentTerm (nodes s i), i) \<in> led (history s')" using consistentD(4) [OF c assms(4,5)] by blast
  moreover have "(currentTerm (nodes s i), j) \<in> led (history s')"
    using consistentD(4) [OF c' assms(6,7)] assms(8) by simp
  ultimately show ?thesis by (rule majority.one_leader [OF h])
qed

theorem election_safety_witness:
  "\<exists>s0 s. initial trio s0 \<and> (step trio)\<^sup>*\<^sup>* s0 s
     \<and> {j \<in> trio. role (nodes s j) = RoleLeader \<and> currentTerm (nodes s j) = currentTerm (nodes s ''n1'')} = {''n1''}"
proof -
  obtain s0 k s where run: "initial trio s0" "(step trio)\<^sup>*\<^sup>* s0 k" "step trio k s"
    and leads: "role (nodes s ''n1'') = RoleLeader" by (rule example_election)
  have r: "(step trio)\<^sup>*\<^sup>* s0 s" using run(2,3) by (rule rtranclp.rtrancl_into_rtrancl)
  have m: "''n1'' \<in> trio" by (simp add: trio_def)
  show ?thesis
    using election_safety [OF run(1) r rtranclp.rtrancl_refl m leads] run(1) r m leads by blast
qed

end
