(* ===== verification/Config_Props.thy ===== *)
theory Config_Props imports Config Cluster_Props
begin

text \<open>
  What a configuration that was read without an error guarantees, that printed peer lists are read
  back, and that nodes sharing one peer list form a cluster.
\<close>

section \<open>Peer lists\<close>

definition peers_valid :: "string \<Rightarrow> Peer list \<Rightarrow> bool" where
  "peers_valid self ps \<longleftrightarrow>
     distinct (map Peer_ID ps)
     \<and> list_all (\<lambda>p. Peer_ID p \<noteq> [] \<and> Peer_Address p \<noteq> [] \<and> Peer_ID p \<noteq> self) ps"

lemma parse_items_valid:
  assumes "parse_items self items seen acc = Inr ps" and "peers_valid self acc" and "Peer_ID ` set acc \<subseteq> seen"
  shows "peers_valid self ps"
  using assms
proof (induction self items seen acc rule: parse_items.induct)
  case (2 self item items seen acc)
  obtain i a where c: "Cut (CHR ''='') (TrimSpace item) = Some (i, a)" and i: "i \<noteq> []" "a \<noteq> []" "i \<notin> seen"
    using "2.prems"(1) by (auto split: option.splits prod.splits if_splits)
  let ?acc = "if i \<noteq> self then acc @ [\<lparr>Peer_ID = i, Peer_Address = a\<rparr>] else acc"
  have run: "parse_items self items (insert i seen) ?acc = Inr ps" using "2.prems"(1) c i by simp
  have "peers_valid self ?acc" and "Peer_ID ` set ?acc \<subseteq> insert i seen"
    using "2.prems"(2,3) i by (auto simp: peers_valid_def)
  then show ?case using "2.IH" [OF c refl] i run by simp
qed simp

lemma parsePeers_valid: "parsePeers raw self = Inr ps \<Longrightarrow> peers_valid self ps"
  by (auto simp: parsePeers_def peers_valid_def [of _ "[]"] intro: parse_items_valid split: if_splits)

definition print_peer :: "Peer \<Rightarrow> string" where
  "print_peer p = Peer_ID p @ CHR ''='' # Peer_Address p"

definition print_peers :: "Peer list \<Rightarrow> string" where
  "print_peers ps = Join (CHR '','') (map print_peer ps)"

definition peer_plain :: "Peer \<Rightarrow> bool" where
  "peer_plain p \<longleftrightarrow>
     Peer_ID p \<noteq> [] \<and> Peer_Address p \<noteq> [] \<and> CHR ''='' \<notin> set (Peer_ID p) \<and> CHR '','' \<notin> set (Peer_ID p)
     \<and> CHR '','' \<notin> set (Peer_Address p) \<and> no_lead (Peer_ID p) \<and> no_trail (Peer_Address p)"

lemma print_peer_trim: "peer_plain p \<Longrightarrow> no_lead (print_peer p) \<and> no_trail (print_peer p)"
  unfolding print_peer_def peer_plain_def lead_sep by blast

lemma parse_printed:
  assumes "list_all peer_plain ps" and "distinct (map Peer_ID ps)" and "Peer_ID ` set ps \<inter> seen = {}"
  shows "parse_items self (map print_peer ps) seen acc = Inr (acc @ filter (\<lambda>p. Peer_ID p \<noteq> self) ps)"
  using assms
proof (induction ps arbitrary: seen acc)
  case (Cons p ps)
  have p: "peer_plain p" using Cons.prems(1) by simp
  have "TrimSpace (print_peer p) = print_peer p" using print_peer_trim [OF p] by (simp add: TrimSpace_none)
  then have "Cut (CHR ''='') (TrimSpace (print_peer p)) = Some (Peer_ID p, Peer_Address p)"
    using p by (simp add: Cut_Some print_peer_def peer_plain_def)
  then show ?case
    using Cons.IH [of "insert (Peer_ID p) seen"] Cons.prems p by (auto simp: peer_plain_def)
qed simp

lemma print_peers_trim:
  assumes "list_all peer_plain ps" and "ps \<noteq> []"
  shows "no_lead (print_peers ps)" and "no_trail (print_peers ps)" and "print_peers ps \<noteq> []"
proof -
  have "no_lead (print_peers ps) \<and> no_trail (print_peers ps) \<and> print_peers ps \<noteq> []"
    using assms
  proof (induction ps rule: induct_list012)
    case (2 p)
    then show ?case using print_peer_trim [of p] by (simp add: print_peers_def) (simp add: print_peer_def)
  next
    case (3 p q ps)
    have "print_peers (p # q # ps) = print_peer p @ CHR '','' # print_peers (q # ps)" by (simp add: print_peers_def)
    then show ?case using 3 print_peer_trim [of p] by (simp only: lead_sep) simp
  qed simp
  then show "no_lead (print_peers ps)" and "no_trail (print_peers ps)" and "print_peers ps \<noteq> []" by simp_all
qed

lemma parsePeers_printed:
  assumes "list_all peer_plain ps" and "distinct (map Peer_ID ps)"
  shows "parsePeers (print_peers ps) self = Inr (filter (\<lambda>p. Peer_ID p \<noteq> self) ps)"
proof (cases "ps = []")
  case True
  then show ?thesis by (simp add: parsePeers_def print_peers_def TrimSpace_def)
next
  case False
  note T = print_peers_trim [OF assms(1) False]
  have "CHR '','' \<notin> set x" if "x \<in> set (map print_peer ps)" for x
    using that assms(1) by (auto simp: print_peer_def peer_plain_def list_all_iff)
  then have "Split (CHR '','') (print_peers ps) = map print_peer ps"
    unfolding print_peers_def using False by (intro Split_Join) simp_all
  then show ?thesis using T TrimSpace_none parse_printed [OF assms, of "{}"] by (simp add: parsePeers_def)
qed

text \<open>
  C33: a peer list written as \<open>id=address\<close> items separated by commas is read back as those peers, in order and
  without the entry of the node itself, so that every node can share one list.
\<close>

theorem peer_list_roundtrip:
  assumes "list_all peer_plain ps" and "distinct (map Peer_ID ps)"
  shows "parsePeers (print_peers ps) self = Inr (filter (\<lambda>p. Peer_ID p \<noteq> self) ps)"
  by (rule parsePeers_printed [OF assms])

definition demo_peers :: "Peer list" where
  "demo_peers = [\<lparr>Peer_ID = ''n1'', Peer_Address = ''h1:9001''\<rparr>, \<lparr>Peer_ID = ''n2'', Peer_Address = ''h2:9002''\<rparr>]"

lemma demo_peers_plain: "list_all peer_plain demo_peers" "distinct (map Peer_ID demo_peers)"
  by (simp_all add: demo_peers_def peer_plain_def leading_def white_space_def)

theorem peer_list_roundtrip_witness:
  "print_peers demo_peers = ''n1=h1:9001,n2=h2:9002''
   \<and> parsePeers ''n1=h1:9001,n2=h2:9002'' ''n1'' = Inr [\<lparr>Peer_ID = ''n2'', Peer_Address = ''h2:9002''\<rparr>]"
proof -
  have p: "print_peers demo_peers = ''n1=h1:9001,n2=h2:9002''"
    by (simp add: print_peers_def demo_peers_def print_peer_def)
  show ?thesis
    using peer_list_roundtrip [OF demo_peers_plain, of "''n1''"] unfolding p by (simp add: demo_peers_def)
qed

section \<open>Configurations\<close>

lemma options_peers [simp]: "Opt_Peers (OptionsFromConfig cfg) = Cfg_Peers cfg"
proof -
  have "(\<lambda>p :: Peer. \<lparr>Peer_ID = Peer_ID p, Peer_Address = Peer_Address p\<rparr>) = (\<lambda>p. p)" by (simp add: fun_eq_iff)
  then show ?thesis by (simp add: OptionsFromConfig_def)
qed

lemma options_node [simp]: "Opt_NodeID (OptionsFromConfig cfg) = Cfg_NodeID cfg"
  by (simp add: OptionsFromConfig_def)

text \<open>
  C35: a configuration read without an error has a node id, addresses and a data directory, distinct peers
  other than the node itself, and an election timeout range above the heartbeat interval, as the
  options of a node require.
\<close>

theorem config_is_valid:
  assumes "FromEnv getenv = Inr cfg"
  shows "Cfg_NodeID cfg \<noteq> [] \<and> Cfg_GRPCAddr cfg \<noteq> [] \<and> Cfg_HTTPAddr cfg \<noteq> [] \<and> Cfg_DataDir cfg \<noteq> []
    \<and> peers_valid (Cfg_NodeID cfg) (Opt_Peers (OptionsFromConfig cfg))
    \<and> Cfg_HeartbeatInterval cfg < Cfg_ElectionMin cfg \<and> Cfg_ElectionMin cfg \<le> Cfg_ElectionMax cfg"
proof -
  have env: "fallback \<noteq> [] \<Longrightarrow> env getenv key fallback \<noteq> []" for key fallback by (simp add: env_def Let_def)
  show ?thesis
    using assms parsePeers_valid
    by (auto simp: FromEnv_def Let_def env split: sum.splits if_splits)
qed

definition no_env :: "string \<Rightarrow> string" where
  "no_env key = []"

lemma env_unset: "getenv key = [] \<Longrightarrow> env getenv key fallback = fallback"
  by (simp add: env_def TrimSpace_def)

lemma env_value_unset:
  assumes "getenv key = []"
  shows "envDuration getenv key d = Inr d" and "envUint getenv key u = Inr u" and "envLogLevel getenv key l = Inr l"
  using assms by (simp_all add: envDuration_def envUint_def envLogLevel_def env_unset)

theorem config_is_valid_witness:
  "\<exists>cfg. FromEnv no_env = Inr cfg \<and> Cfg_NodeID cfg = ''node1'' \<and> Cfg_HeartbeatInterval cfg < Cfg_ElectionMin cfg"
proof -
  have "\<exists>cfg. FromEnv no_env = Inr cfg \<and> Cfg_NodeID cfg = ''node1''"
    by (simp add: FromEnv_def Let_def no_env_def env_unset env_value_unset parsePeers_def TrimSpace_def millisecond_def)
  then show ?thesis using config_is_valid by blast
qed

text \<open>
  C36: a duration that is set is a positive number of milliseconds, and up to 9223372036854 of them, the
  most that fit into a \<open>time.Duration\<close>, the result is exactly that many and positive.
\<close>

theorem env_duration_bounds:
  assumes "envDuration getenv key fallback = Inr d" and "env getenv key [] \<noteq> []"
  shows "\<exists>ms. Atoi (env getenv key []) = Inr ms \<and> 0 < ms \<and> - (2 ^ 63) \<le> d \<and> d < 2 ^ 63
    \<and> (ms \<le> 9223372036854 \<longrightarrow> d = ms * millisecond \<and> 0 < d)"
proof -
  obtain ms where a: "Atoi (env getenv key []) = Inr ms" and ms: "0 < ms" and d: "d = duration_mul ms millisecond"
    using assms by (auto simp: envDuration_def Let_def split: sum.splits if_splits)
  have "- (2 ^ 63) \<le> d \<and> d < 2 ^ 63"
    using sint_range_size [of "uint64 (ms * millisecond)"] by (simp add: d duration_mul_def int64_def word_size)
  moreover have "d = ms * millisecond" if "ms \<le> 9223372036854"
  proof -
    have "0 \<le> ms * millisecond" "ms * millisecond < 2 ^ 63" using that ms by (simp_all add: millisecond_def)
    moreover have "int64 max_int64 = 2 ^ 63 - 1" by (simp add: int64_eq_uint) (simp add: max_int64_def)
    ultimately show ?thesis by (simp add: d duration_mul_def int64_uint64)
  qed
  ultimately show ?thesis using a ms by (auto simp: millisecond_def)
qed

definition only_env :: "string \<Rightarrow> string \<Rightarrow> string \<Rightarrow> string" where
  "only_env name value key = (if key = name then value else [])"

lemma only_env_value: "no_lead value \<Longrightarrow> no_trail value \<Longrightarrow> value \<noteq> [] \<Longrightarrow> env (only_env name value) name fallback = value"
  by (simp add: env_def only_env_def TrimSpace_none)

theorem env_duration_bounds_witness:
  "envDuration (only_env ''RAFT_HEARTBEAT_MS'' ''150'') ''RAFT_HEARTBEAT_MS'' 7 = Inr (150 * millisecond)"
proof -
  let ?g = "only_env ''RAFT_HEARTBEAT_MS'' ''150''" and ?k = "''RAFT_HEARTBEAT_MS''"
  have raw: "env ?g ?k [] = ''150''" by (rule only_env_value) (simp_all add: leading_def white_space_def)
  have a: "Atoi ''150'' = Inr 150" by (simp add: Atoi_def digit_val_def)
  obtain d where d: "envDuration ?g ?k 7 = Inr d" by (simp add: envDuration_def raw a)
  have "env ?g ?k [] \<noteq> []" by (simp add: raw)
  from env_duration_bounds [OF d this] show ?thesis by (simp add: raw a d)
qed

text \<open>Beyond that bound the product wraps around, and a duration that is accepted can be negative.\<close>

lemma wrapped_duration:
  assumes "env getenv key [] = ''9223372036855''"
  shows "envDuration getenv key fallback = Inr (- 9223372036854551616)"
proof -
  have "Atoi ''9223372036855'' = Inr 9223372036855" by (simp add: Atoi_def digit_val_def)
  moreover have "duration_mul 9223372036855 millisecond = - 9223372036854551616"
    by (simp add: duration_mul_def millisecond_def int64_def uint64_def)
  ultimately show ?thesis by (simp add: envDuration_def assms)
qed

section \<open>From the environment to a cluster\<close>

text \<open>
  C34: nodes whose environments share one peer list that names them all become members of one cluster:
  each is started with the other members as its peers, as the election properties require.
\<close>

theorem shared_peer_list_forms_cluster:
  assumes "list_all peer_plain ps" and "distinct (map Peer_ID ps)" and "i \<in> Peer_ID ` set ps"
    and "TrimSpace (getenv ''NODE_ID'') = i" and "getenv ''RAFT_PEERS'' = print_peers ps"
    and "FromEnv getenv = Inr cfg" and "Node_New (OptionsFromConfig cfg) b = Inr n" and "defaults_order (boot_order b)"
  shows "starts (Peer_ID ` set ps) i (db (boot_disk b)) n"
proof -
  have ne: "ps \<noteq> []" and i: "i \<noteq> []" using assms(1,3) by (auto simp: list_all_iff peer_plain_def)
  have "env getenv ''RAFT_PEERS'' [] = print_peers ps"
    using print_peers_trim [OF assms(1) ne] assms(5) TrimSpace_none by (simp add: env_def Let_def)
  moreover have id: "env getenv ''NODE_ID'' ''node1'' = i" using assms(4) i by (simp add: env_def Let_def)
  ultimately have "parsePeers (env getenv ''RAFT_PEERS'' []) i = Inr (filter (\<lambda>p. Peer_ID p \<noteq> i) ps)"
    using parsePeers_printed [OF assms(1,2)] by simp
  then have c: "Cfg_NodeID cfg = i" "Cfg_Peers cfg = filter (\<lambda>p. Peer_ID p \<noteq> i) ps"
    using assms(6) by (auto simp: FromEnv_def Let_def id split: sum.splits if_splits)
  have "distinct (map Peer_ID (Cfg_Peers cfg))" "Peer_ID ` set (Cfg_Peers cfg) = Peer_ID ` set ps - {i}"
    using assms(2) by (auto simp: c(2) distinct_map_filter)
  then show ?thesis
    unfolding starts_def
    by (intro exI [of _ "OptionsFromConfig cfg"] exI [of _ b]) (use assms(7,8) c(1) in simp)
qed

definition demo_env :: "string \<Rightarrow> string" where
  "demo_env key =
     (if key = ''NODE_ID'' then ''n1'' else if key = ''RAFT_PEERS'' then print_peers demo_peers else [])"

theorem shared_peer_list_forms_cluster_witness:
  "\<exists>cfg n. FromEnv demo_env = Inr cfg \<and> Node_New (OptionsFromConfig cfg) fresh_boot = Inr n
     \<and> starts {''n1'', ''n2''} ''n1'' (db (fresh_store [])) n"
proof -
  have trim: "TrimSpace (demo_env ''NODE_ID'') = ''n1''"
    by (simp add: demo_env_def, rule TrimSpace_none) (simp_all add: leading_def white_space_def)
  have list: "demo_env ''RAFT_PEERS'' = print_peers demo_peers" by (simp add: demo_env_def)
  have ne: "demo_peers \<noteq> []" by (simp add: demo_peers_def)
  have id: "env demo_env ''NODE_ID'' ''node1'' = ''n1''" using trim by (simp add: env_def)
  have raw: "env demo_env ''RAFT_PEERS'' [] = print_peers demo_peers"
    using print_peers_trim [OF demo_peers_plain(1) ne] TrimSpace_none by (simp add: env_def list)
  obtain cfg where cfg: "FromEnv demo_env = Inr cfg" and node: "Cfg_NodeID cfg = ''n1''"
    and addr: "Cfg_GRPCAddr cfg = '':9001''" "Cfg_DataDir cfg = ''data/node1''"
    using id raw parsePeers_printed [OF demo_peers_plain]
    by (simp add: FromEnv_def Let_def demo_env_def env_unset env_value_unset millisecond_def)
  obtain n where n: "Node_New (OptionsFromConfig cfg) fresh_boot = Inr n"
    using Node_New_clean [of fresh_boot "OptionsFromConfig cfg"] fresh_store_ok [of "[]"] node addr
    by (auto simp: defaults_order_refl OptionsFromConfig_def)
  have "''n1'' \<in> Peer_ID ` set demo_peers" "Peer_ID ` set demo_peers = {''n1'', ''n2''}" by (auto simp: demo_peers_def)
  then show ?thesis
    using shared_peer_list_forms_cluster [OF demo_peers_plain _ trim list cfg n] cfg n by (auto simp: defaults_order_refl)
qed

end
