(* ===== verification/Lifecycle_Props.thy ===== *)
theory Lifecycle_Props imports Lifecycle Config_Props
begin

text \<open>
  What the process around a node promises: the loops end with the cancellation, a node that has
  started is reachable and connected, stopping it releases everything it holds, and a heartbeat that the configuration
  should have refused ends the process.
\<close>

section \<open>The loops end\<close>

lemma timer_loop_state: "fst (timer_loop es n) = (if Timer_Done \<in> set es then Returned else Waiting)"
  by (induction es n rule: timer_loop.induct) (simp_all split: prod.split)

lemma runElectionTimer_returns: "fst (runElectionTimer es n) = (if Timer_Done \<in> set es then Returned else Waiting)"
  by (simp add: runElectionTimer_def ticker_panics_def electionTick_def millisecond_def timer_loop_state)

lemma replication_loop_state:
  "fst (replication_loop net i es n w) = (if Replicate_Done \<in> set es then Returned else Waiting)"
  by (induction net i es n w rule: replication_loop.induct) (auto split: prod.split)

lemma runReplication_returns:
  "0 < heartbeat n \<Longrightarrow> fst (runReplication net peer es n w) = (if Replicate_Done \<in> set es then Returned else Waiting)"
  by (simp add: runReplication_def ticker_panics_def replication_loop_state)

lemma worker_rest_state:
  "fst (worker_rest sd Election_Timer n w) = (if Timer_Done \<in> set (timer_events sd) then Returned else Waiting)"
  "fst (worker_rest sd (Replication_Loop peer) n w) = (if Replicate_Done \<in> set (peer_events sd peer) then Returned else Waiting)"
  by (simp_all add: timer_loop_state [of _ n, symmetric] replication_loop_state case_prod_unfold)

text \<open>The cancellation reaches every worker.\<close>

definition all_cancelled :: "'w shutdown \<Rightarrow> Peer list \<Rightarrow> bool" where
  "all_cancelled sd ps \<longleftrightarrow>
     Timer_Done \<in> set (timer_events sd) \<and> (\<forall>peer \<in> set ps. Replicate_Done \<in> set (peer_events sd peer))"

lemma wait_workers_returns:
  assumes "\<And>wk n w. wk \<in> set wks \<Longrightarrow> fst (worker_rest sd wk n w) = Returned"
  shows "\<exists>r. wait_workers sd wks n w = Some r"
  using assms
proof (induction wks arbitrary: n w)
  case (Cons wk wks)
  obtain st n1 w1 where r: "worker_rest sd wk n w = (st, n1, w1)" by (metis prod.exhaust)
  have "st = Returned" using Cons.prems [of wk n w] r by simp
  then show ?case using Cons.IH [of n1 w1] Cons.prems r by simp
qed simp

lemma cancelled_workers_return:
  assumes "all_cancelled sd ps"
  shows "\<exists>r. wait_workers sd (Election_Timer # map Replication_Loop ps) n w = Some r"
  by (rule wait_workers_returns)
     (use assms in \<open>auto simp: all_cancelled_def worker_rest_state simp del: worker_rest.simps\<close>)

section \<open>Starting\<close>

text \<open>Dialling changes nothing of a node but its clients.\<close>

lemma dial_fields:
  assumes "dial newClient ps n = (r, m)"
  shows "peers m = peers n" and "grpcAddr m = grpcAddr n" and "httpAddr m = httpAddr n" and "heartbeat m = heartbeat n"
  using assms by (induction ps arbitrary: n) (auto split: option.splits)

lemma dial_clients:
  assumes "dial newClient ps n = (Inr (), m)"
  shows "dom (kvClients m) = dom (kvClients n) \<union> Peer_ID ` set ps"
  using assms by (induction ps arbitrary: n) (auto split: option.splits)

lemma dial_other:
  assumes "dial newClient ps n = (r, m)" and "i \<notin> Peer_ID ` set ps"
  shows "kvClients m i = kvClients n i"
  using assms by (induction ps arbitrary: n) (auto split: option.splits)

lemma dial_target:
  assumes "dial newClient ps n = (Inr (), m)" and "distinct (map Peer_ID ps)" and "p \<in> set ps"
  shows "kvClients m (Peer_ID p) = Some (dialTarget (Peer_Address p))"
  using assms
proof (induction ps arbitrary: n)
  case (Cons q ps)
  let ?n = "n\<lparr>kvClients := (kvClients n)(Peer_ID q \<mapsto> dialTarget (Peer_Address q))\<rparr>"
  from Cons.prems(1) have d: "dial newClient ps ?n = (Inr (), m)" by (auto split: option.splits)
  show ?case
  proof (cases "p = q")
    case True
    then show ?thesis using dial_other [OF d, of "Peer_ID q"] Cons.prems(2) by simp
  next
    case False
    then show ?thesis using Cons.IH [OF d] Cons.prems by simp
  qed
qed simp

lemma start_workers:
  "fold (\<lambda>peer. startWorker (Replication_Loop peer)) ps p = p\<lparr>workers := workers p @ map Replication_Loop ps\<rparr>"
  by (induction ps arbitrary: p) (simp_all add: startWorker_def)

lemma Start_outcome:
  assumes "Start newClient listen accept serve p = (Inr (), q)"
  obtains n where "dial newClient (peers (proc_node p)) (proc_node p) = (Inr (), n)"
    and "q = p\<lparr>proc_node := n, conns := (\<lambda>i. map_option (\<lambda>_. True) (kvClients n i)), grpcServer := Some (accept = None),
               httpServer := (if httpAddr (proc_node p) = [] then httpServer p else Some (serve (httpAddr (proc_node p)) = None)),
               workers := workers p @ Election_Timer # map Replication_Loop (peers (proc_node p))\<rparr>"
proof -
  let ?n = "proc_node p"
  obtain r n where d: "dial newClient (peers ?n) ?n = (r, n)" by fastforce
  have "r = Inr ()" using assms by (cases r) (simp_all add: Start_def dialPeers_def d)
  with d have d: "dial newClient (peers ?n) ?n = (Inr (), n)" by simp
  note f = dial_fields [OF d]
  have l: "listen (grpcAddr n) = None" using assms by (cases "listen (grpcAddr n)") (simp_all add: Start_def dialPeers_def d)
  have "q = fold (\<lambda>peer. startWorker (Replication_Loop peer)) (peers n)
      (startWorker Election_Timer (if httpAddr n \<noteq> [] then startHTTPServer serve ((dialled n p)\<lparr>grpcServer := Some (accept = None)\<rparr>)
                                   else (dialled n p)\<lparr>grpcServer := Some (accept = None)\<rparr>))"
    using assms by (simp add: Start_def dialPeers_def d l Let_def)
  then show ?thesis
    by (intro that [OF d], cases "httpAddr n = []")
       (simp_all add: start_workers dialled_def startWorker_def startHTTPServer_def f)
qed

section \<open>Stopping\<close>

lemma close_conns_eq:
  "close_conns close is err p =
     (err @ List.map_filter close is, p\<lparr>conns := (\<lambda>i. if i \<in> set is then Some False else conns p i)\<rparr>)"
proof (induction "is" arbitrary: err p)
  case (Cons i "is")
  have "(\<lambda>j. if j \<in> set is then Some False else ((conns p)(i \<mapsto> False)) j)
      = (\<lambda>j. if j \<in> set (i # is) then Some False else conns p j)" by (auto simp: fun_eq_iff)
  then show ?case
    by (simp add: Cons.IH Join_errors_def List.map_filter_def cong: if_cong split: option.split)
qed (simp add: List.map_filter_def)

definition reported :: "error option \<Rightarrow> error list" where
  "reported e = (case e of None \<Rightarrow> [] | Some x \<Rightarrow> [x])"

lemma Join_errors_reported: "Join_errors err e = err @ reported e"
  by (simp add: Join_errors_def reported_def split: option.split)

text \<open>The errors of the calls, in the order in which \<open>Stop\<close> makes them.\<close>

definition stop_errors :: "'w shutdown \<Rightarrow> bool \<Rightarrow> error list" where
  "stop_errors sd http =
     reported (late sd) @ (if http then reported (http_shutdown sd) else [])
       @ List.map_filter (conn_close sd) (conn_order sd) @ reported (store_close sd)"

text \<open>Stopping a process that serves.\<close>

lemma Stop_serving:
  assumes "\<not> stopDone p" and "grpcServer p = Some b" and "wait_workers sd (workers p) (proc_node p) w = Some (n, w')"
  shows "Stop sd p w = Some (stop_errors sd (httpServer p \<noteq> None),
      p\<lparr>proc_node := n, stopDone := True, cancelled := True, grpcServer := Some False,
        httpServer := map_option (\<lambda>_. False) (httpServer p), workers := [],
        conns := (\<lambda>i. if i \<in> set (conn_order sd) then Some False else conns p i), storeOpen := False\<rparr>, w')"
proof (cases "httpServer p")
  case None
  then show ?thesis
    using assms by (simp add: Stop_def stopGRPCServer_def stop_errors_def reported_def [of "late sd"] close_conns_eq Join_errors_reported cong: if_cong)
next
  case (Some x)
  then show ?thesis
    using assms by (simp add: Stop_def stopGRPCServer_def stop_errors_def reported_def [of "late sd"] close_conns_eq Join_errors_reported cong: if_cong)
qed

lemma Stop_again: "stopDone p \<Longrightarrow> Stop sd p w = Some ([], p, w)"
  by (simp add: Stop_def)

section \<open>From start to stop\<close>

text \<open>What creating a node copies from its options.\<close>

lemma publish_fixed [simp]:
  "heartbeat (publishStateLocked n) = heartbeat n" "kvClients (publishStateLocked n) = kvClients n"
  "peers (publishStateLocked n) = peers n" "httpAddr (publishStateLocked n) = httpAddr n"
  by (simp_all add: publishStateLocked_def on_store_def on_metrics_def split: prod.splits sum.splits)

lemma deadline_fixed [simp]:
  "heartbeat (resetElectionDeadlineLocked n) = heartbeat n" "kvClients (resetElectionDeadlineLocked n) = kvClients n"
  "peers (resetElectionDeadlineLocked n) = peers n" "httpAddr (resetElectionDeadlineLocked n) = httpAddr n"
  by (simp_all add: resetElectionDeadlineLocked_def rand_Int63n_def time_Now_def Let_def split: prod.splits list.splits)

lemma Node_New_fixed:
  assumes "Node_New opts b = Inr n"
  shows "heartbeat n = Opt_HeartbeatInterval (with_defaults opts)" and "kvClients n = Map.empty"
    and "peers n = Opt_Peers opts" and "httpAddr n = Opt_HTTPAddr opts"
  using assms by (auto simp: Node_New_def Let_def new_node_def with_defaults_def split: if_splits prod.splits sum.splits)

lemma dial_accepted: "\<exists>m. dial (\<lambda>_. None) ps n = (Inr (), m)"
  by (induction ps arbitrary: n) simp_all

lemma Start_accepted: "\<exists>q. Start (\<lambda>_. None) (\<lambda>_. None) accept serve p = (Inr (), q)"
proof -
  obtain m where "dial (\<lambda>_. None) (peers (proc_node p)) (proc_node p) = (Inr (), m)" using dial_accepted by blast
  then show ?thesis by (simp add: Start_def dialPeers_def Let_def)
qed

text \<open>A calm shutdown, and an environment whose heartbeat interval wraps.\<close>

definition calm :: "unit shutdown" where
  "calm =
     \<lparr>late = None, http_shutdown = Some (ErrorNew ''deadline''), timer_events = [Timer_Done], peer_events = (\<lambda>_. [Replicate_Now, Replicate_Done]),
      network = \<lparr>net_append = (\<lambda>_ _ w. (None, w)), net_snapshot = (\<lambda>_ _ w. (None, w)), net_cancelled = (\<lambda>_. True)\<rparr>, conn_order = [''n2''], conn_close = (\<lambda>_. None), store_close = None\<rparr>"

definition wrapped_env :: "string \<Rightarrow> string" where
  "wrapped_env key = (if key = ''RAFT_HEARTBEAT_MS'' then ''9223372036855'' else demo_env key)"

lemma demo_node_id: "env demo_env ''NODE_ID'' ''node1'' = ''n1''" "env wrapped_env ''NODE_ID'' ''node1'' = ''n1''"
proof -
  have "TrimSpace ''n1'' = ''n1''" by (rule TrimSpace_none) (simp_all add: leading_def white_space_def)
  then show "env demo_env ''NODE_ID'' ''node1'' = ''n1''" "env wrapped_env ''NODE_ID'' ''node1'' = ''n1''"
    by (simp_all add: env_def wrapped_env_def demo_env_def)
qed

lemma demo_peer_list:
  "parsePeers (env demo_env ''RAFT_PEERS'' []) ''n1'' = Inr [\<lparr>Peer_ID = ''n2'', Peer_Address = ''h2:9002''\<rparr>]"
  "parsePeers (env wrapped_env ''RAFT_PEERS'' []) ''n1'' = Inr [\<lparr>Peer_ID = ''n2'', Peer_Address = ''h2:9002''\<rparr>]"
proof -
  have ne: "demo_peers \<noteq> []" by (simp add: demo_peers_def)
  have "env demo_env ''RAFT_PEERS'' [] = print_peers demo_peers" "env wrapped_env ''RAFT_PEERS'' [] = print_peers demo_peers"
    using print_peers_trim [OF demo_peers_plain(1) ne] TrimSpace_none by (simp_all add: env_def demo_env_def wrapped_env_def)
  then show "parsePeers (env demo_env ''RAFT_PEERS'' []) ''n1'' = Inr [\<lparr>Peer_ID = ''n2'', Peer_Address = ''h2:9002''\<rparr>]"
    "parsePeers (env wrapped_env ''RAFT_PEERS'' []) ''n1'' = Inr [\<lparr>Peer_ID = ''n2'', Peer_Address = ''h2:9002''\<rparr>]"
    using parsePeers_printed [OF demo_peers_plain, of "''n1''"] by (simp_all add: demo_peers_def)
qed

lemma demo_config:
  obtains cfg where "FromEnv demo_env = Inr cfg" and "Cfg_NodeID cfg = ''n1''" and "Cfg_GRPCAddr cfg = '':9001''"
    and "Cfg_DataDir cfg = ''data/node1''" and "Cfg_Peers cfg = [\<lparr>Peer_ID = ''n2'', Peer_Address = ''h2:9002''\<rparr>]"
    and "Cfg_HTTPAddr cfg = '':8001''"
proof -
  have rest: "env demo_env k d = d \<and> envDuration demo_env k x = Inr x \<and> envUint demo_env k u = Inr u \<and> envLogLevel demo_env k l = Inr l"
    if "k \<noteq> ''NODE_ID''" "k \<noteq> ''RAFT_PEERS''" for k d x u l
  proof -
    have "demo_env k = []" using that by (simp add: demo_env_def)
    then show ?thesis by (simp add: env_unset env_value_unset)
  qed
  show ?thesis
    by (rule that [of "\<lparr>Cfg_NodeID = ''n1'', Cfg_GRPCAddr = '':9001'', Cfg_HTTPAddr = '':8001'', Cfg_DataDir = ''data/node1'',
        Cfg_Peers = [\<lparr>Peer_ID = ''n2'', Peer_Address = ''h2:9002''\<rparr>], Cfg_ElectionMin = 500 * millisecond,
        Cfg_ElectionMax = 900 * millisecond, Cfg_HeartbeatInterval = 100 * millisecond,
        Cfg_SnapshotThreshold = 10000, Cfg_LogLevel = 0\<rparr>"])
       (simp_all add: FromEnv_def Let_def demo_node_id demo_peer_list rest millisecond_def)
qed

lemma wrapped_config:
  obtains cfg where "FromEnv wrapped_env = Inr cfg" and "Cfg_NodeID cfg = ''n1''" and "Cfg_GRPCAddr cfg = '':9001''"
    and "Cfg_DataDir cfg = ''data/node1''" and "Cfg_Peers cfg = [\<lparr>Peer_ID = ''n2'', Peer_Address = ''h2:9002''\<rparr>]"
    and "Cfg_HeartbeatInterval cfg = - 9223372036854551616"
proof -
  have rest: "env wrapped_env k d = d \<and> envDuration wrapped_env k x = Inr x \<and> envUint wrapped_env k u = Inr u
      \<and> envLogLevel wrapped_env k l = Inr l"
    if "k \<noteq> ''NODE_ID''" "k \<noteq> ''RAFT_PEERS''" "k \<noteq> ''RAFT_HEARTBEAT_MS''" for k d x u l
  proof -
    have "wrapped_env k = []" using that by (simp add: wrapped_env_def demo_env_def)
    then show ?thesis by (simp add: env_unset env_value_unset)
  qed
  have "TrimSpace ''9223372036855'' = ''9223372036855''"
    by (rule TrimSpace_none) (simp_all add: leading_def white_space_def)
  then have "env wrapped_env ''RAFT_HEARTBEAT_MS'' [] = ''9223372036855''" by (simp add: env_def wrapped_env_def)
  note beat = wrapped_duration [OF this]
  show ?thesis
    by (rule that [of "\<lparr>Cfg_NodeID = ''n1'', Cfg_GRPCAddr = '':9001'', Cfg_HTTPAddr = '':8001'', Cfg_DataDir = ''data/node1'',
        Cfg_Peers = [\<lparr>Peer_ID = ''n2'', Peer_Address = ''h2:9002''\<rparr>], Cfg_ElectionMin = 500 * millisecond,
        Cfg_ElectionMax = 900 * millisecond, Cfg_HeartbeatInterval = - 9223372036854551616,
        Cfg_SnapshotThreshold = 10000, Cfg_LogLevel = 0\<rparr>"])
       (simp_all add: FromEnv_def Let_def demo_node_id demo_peer_list beat rest millisecond_def)
qed

lemma fresh_node_created:
  assumes "Cfg_NodeID cfg \<noteq> []" and "Cfg_GRPCAddr cfg \<noteq> []" and "Cfg_DataDir cfg \<noteq> []"
  obtains n where "Node_New (OptionsFromConfig cfg) fresh_boot = Inr n"
  using Node_New_clean [of fresh_boot "OptionsFromConfig cfg"] fresh_store_ok [of "[]"] assms
  by (auto simp: defaults_order_refl OptionsFromConfig_def)

text \<open>
  C37: a node that has started has an open connection to every peer and runs one election timer and one
  replication loop per peer; its servers serve unless their \<open>Serve\<close> calls fail.  Once the cancellation reaches every loop, stopping it returns: the loops
  have ended, both servers are stopped, every connection and the store are closed, and the errors reported are exactly those of the calls it makes, in their
  order; stopping it again does nothing.
\<close>

theorem started_node_stops:
  assumes "Start newClient listen accept serve (new_process n) = (Inr (), p)" and "kvClients n = Map.empty"
    and "set (conn_order sd) = dom (conns p)" and "all_cancelled sd (peers n)"
  shows "workers p = Election_Timer # map Replication_Loop (peers n)
    \<and> {i. conns p i = Some True} = Peer_ID ` set (peers n) \<and> grpcServer p = Some (accept = None)
    \<and> httpServer p = (if httpAddr n = [] then None else Some (serve (httpAddr n) = None))
    \<and> (\<exists>q w'. Stop sd (p\<lparr>proc_node := m\<rparr>) w =
           Some (reported (late sd) @ (if httpAddr n = [] then [] else reported (http_shutdown sd))
                   @ List.map_filter (conn_close sd) (conn_order sd) @ reported (store_close sd), q, w')
         \<and> wait_workers sd (workers p) m w = Some (proc_node q, w')
         \<and> grpcServer q = Some False \<and> httpServer q \<noteq> Some True \<and> workers q = []
         \<and> (\<forall>i. conns q i \<noteq> Some True) \<and> \<not> storeOpen q \<and> cancelled q
         \<and> (\<forall>sd' v. Stop sd' q v = Some ([], q, v)))"
proof -
  obtain n1 where d: "dial newClient (peers n) n = (Inr (), n1)"
    and p: "p = (new_process n)\<lparr>proc_node := n1, conns := (\<lambda>i. map_option (\<lambda>_. True) (kvClients n1 i)), grpcServer := Some (accept = None),
               httpServer := (if httpAddr n = [] then None else Some (serve (httpAddr n) = None)),
               workers := Election_Timer # map Replication_Loop (peers n)\<rparr>"
    by (rule Start_outcome [OF assms(1)]) (simp add: new_process_def)
  have D: "dom (kvClients n1) = Peer_ID ` set (peers n)" using dial_clients [OF d] assms(2) by simp
  have c: "conns p i = (if i \<in> Peer_ID ` set (peers n) then Some True else None)" for i
    unfolding D [symmetric] by (cases "kvClients n1 i") (simp_all add: p dom_def)
  then have o: "{i. conns p i = Some True} = Peer_ID ` set (peers n)" by simp
  have order: "set (conn_order sd) = Peer_ID ` set (peers n)" unfolding assms(3) by (rule set_eqI) (simp add: domIff c del: not_None_eq)
  let ?p = "p\<lparr>proc_node := m\<rparr>"
  have wk: "workers p = Election_Timer # map Replication_Loop (peers n)" by (simp add: p)
  obtain m' w' where wait: "wait_workers sd (workers p) m w = Some (m', w')"
    using cancelled_workers_return [OF assms(4), of m w] unfolding wk by auto
  have s: "\<not> stopDone ?p" "grpcServer ?p = Some (accept = None)" "wait_workers sd (workers ?p) (proc_node ?p) w = Some (m', w')"
    using wait by (simp_all add: p new_process_def)
  have http: "httpServer p = (if httpAddr n = [] then None else Some (serve (httpAddr n) = None))" by (simp add: p)
  define q where "q = p\<lparr>proc_node := m', stopDone := True, cancelled := True, grpcServer := Some False,
        httpServer := map_option (\<lambda>_. False) (httpServer p), workers := [],
        conns := (\<lambda>i. if i \<in> set (conn_order sd) then Some False else conns p i), storeOpen := False\<rparr>"
  have e: "stop_errors sd (httpServer ?p \<noteq> None) = reported (late sd) @ (if httpAddr n = [] then [] else reported (http_shutdown sd))
      @ List.map_filter (conn_close sd) (conn_order sd) @ reported (store_close sd)" by (simp add: stop_errors_def http del: not_None_eq)
  have S: "Stop sd ?p w = Some (stop_errors sd (httpServer ?p \<noteq> None), q, w')"
    using Stop_serving [OF s] by (simp add: q_def cong: if_cong)
  have "\<forall>sd' v. Stop sd' q v = Some ([], q, v)" by (intro allI Stop_again) (simp add: q_def)
  moreover have "proc_node q = m'" "grpcServer q = Some False" "httpServer q \<noteq> Some True" "workers q = []" "\<not> storeOpen q" "cancelled q"
    by (simp_all add: q_def http)
  moreover have "\<forall>i. conns q i \<noteq> Some True" by (simp add: q_def order c)
  moreover have "grpcServer p = Some (accept = None)" by (simp add: p)
  ultimately show ?thesis using o http wk wait S [unfolded e] by blast
qed

theorem started_node_stops_witness:
  "\<exists>n p q. Start (\<lambda>_. None) (\<lambda>_. None) None (\<lambda>_. Some (ErrorNew ''address already in use'')) (new_process n) = (Inr (), p)
     \<and> peers n \<noteq> [] \<and> conns p ''n2'' = Some True \<and> httpServer p = Some False
     \<and> Stop calm p () = Some ([ErrorNew ''deadline''], q, ()) \<and> \<not> storeOpen q \<and> conns q ''n2'' \<noteq> Some True"
proof -
  let ?serve = "\<lambda>_. Some (ErrorNew ''address already in use'')"
  obtain cfg where c: "FromEnv demo_env = Inr cfg" "Cfg_NodeID cfg = ''n1''" "Cfg_GRPCAddr cfg = '':9001''"
    "Cfg_DataDir cfg = ''data/node1''" "Cfg_Peers cfg = [\<lparr>Peer_ID = ''n2'', Peer_Address = ''h2:9002''\<rparr>]" "Cfg_HTTPAddr cfg = '':8001''"
    by (rule demo_config)
  obtain n where n: "Node_New (OptionsFromConfig cfg) fresh_boot = Inr n"
    by (rule fresh_node_created [of cfg]) (simp_all add: c)
  note f = Node_New_fixed [OF n]
  have ps: "peers n = [\<lparr>Peer_ID = ''n2'', Peer_Address = ''h2:9002''\<rparr>]" and http: "httpAddr n = '':8001''" using f(3,4) c(5,6) by (simp_all add: OptionsFromConfig_def)
  obtain p where p: "Start (\<lambda>_. None) (\<lambda>_. None) None ?serve (new_process n) = (Inr (), p)" using Start_accepted by blast
  obtain n1 where d: "dial (\<lambda>_. None) (peers n) n = (Inr (), n1)"
    and q: "conns p = (\<lambda>i. map_option (\<lambda>_. True) (kvClients n1 i))"
    by (rule Start_outcome [OF p]) (simp add: new_process_def)
  have "dom (conns p) = dom (kvClients n1)" unfolding q by (rule set_eqI) (simp add: domIff del: not_None_eq)
  then have order: "set (conn_order calm) = dom (conns p)" using dial_clients [OF d] f(2) ps by (simp add: calm_def)
  have "all_cancelled calm (peers n)" by (simp add: all_cancelled_def calm_def)
  note T = started_node_stops [OF p f(2) order this, of "proc_node p" "()"]
  have S: "{i. conns p i = Some True} = {''n2''}" "httpServer p = Some False" using T by (simp add: ps http, blast)+
  obtain q where "Stop calm p () = Some ([ErrorNew ''deadline''], q, ())" and "\<not> storeOpen q" and "\<forall>i. conns q i \<noteq> Some True"
    using T by (auto simp: http calm_def reported_def List.map_filter_def)
  moreover have "conns p ''n2'' = Some True" using S(1) by blast
  moreover have "peers n \<noteq> []" by (simp add: ps)
  ultimately show ?thesis using p S(2) by blast
qed

text \<open>
  C38: the heartbeat interval of an environment that \<open>FromEnv\<close> accepts may wrap around to a negative duration.  The
  node then starts, and its first replication loop hands that interval to \<open>time.NewTicker\<close>: whatever the node serves
  and however it would stop, the process ends in a panic.
\<close>

theorem accepted_heartbeat_crashes_node:
  "(\<exists>cfg. FromEnv wrapped_env = Inr cfg \<and> Cfg_HeartbeatInterval cfg < 0)
   \<and> fst (node_run wrapped_env fresh_boot (\<lambda>_. None) (\<lambda>_. None) accept serve served sd w) = Run_Panicked
   \<and> node_main (fst (node_run wrapped_env fresh_boot (\<lambda>_. None) (\<lambda>_. None) accept serve served sd w)) = Some 2"
proof -
  obtain cfg where c: "FromEnv wrapped_env = Inr cfg" "Cfg_NodeID cfg = ''n1''" "Cfg_GRPCAddr cfg = '':9001''"
    "Cfg_DataDir cfg = ''data/node1''" "Cfg_Peers cfg = [\<lparr>Peer_ID = ''n2'', Peer_Address = ''h2:9002''\<rparr>]"
    "Cfg_HeartbeatInterval cfg = - 9223372036854551616" by (rule wrapped_config)
  obtain n where n: "Node_New (OptionsFromConfig cfg) fresh_boot = Inr n"
    by (rule fresh_node_created [of cfg]) (simp_all add: c)
  note f = Node_New_fixed [OF n]
  have h: "heartbeat n = - 9223372036854551616" using f(1) c(6) by (simp add: with_defaults_def OptionsFromConfig_def)
  have ps: "peers n = [\<lparr>Peer_ID = ''n2'', Peer_Address = ''h2:9002''\<rparr>]" using f(3) c(5) by simp
  obtain p where p: "Start (\<lambda>_. None) (\<lambda>_. None) accept serve (new_process n) = (Inr (), p)" using Start_accepted by blast
  obtain n1 where d: "dial (\<lambda>_. None) (peers n) n = (Inr (), n1)" and "proc_node p = n1"
    and wk: "workers p = Election_Timer # map Replication_Loop (peers n)"
    by (rule Start_outcome [OF p]) (simp add: new_process_def)
  then have "list_ex (worker_panics (proc_node p)) (workers p)"
    using dial_fields(4) [OF d] h by (simp add: ps ticker_panics_def)
  then have "fst (node_run wrapped_env fresh_boot (\<lambda>_. None) (\<lambda>_. None) accept serve served sd w) = Run_Panicked"
    by (simp add: node_run_def c(1) n p)
  then show ?thesis using c(1,6) by simp
qed

end
