(* ===== verification/Raftctl.thy ===== *)
theory Raftctl imports Node "HOL-Library.AList" "HOL-Library.Multiset"
begin

text \<open>
  The command line client (cmd/raftctl/main.go): its commands, the comparison of the logs of several
  nodes, and what it prints.  The services of the nodes, the rendering of messages as JSON and the
  order in which Go iterates over a map are parameters; standard output is a string that grows.
\<close>

section \<open>Errors\<close>

text \<open>An error is a gRPC status, with the name of its code and its message, or any other, with its text.\<close>

datatype ctl_error = CtlStatus string string | CtlError string

fun error_text :: "ctl_error \<Rightarrow> string" where
  "error_text (CtlStatus c m) = ''rpc error: code = '' @ c @ '' desc = '' @ m"
| "error_text (CtlError m) = m"

fun message :: "ctl_error \<Rightarrow> ctl_error" where
  "message (CtlStatus c m) = CtlError m"
| "message (CtlError m) = CtlError m"

section \<open>Comparing logs\<close>

type_synonym reports = "(string \<times> InspectLogResponse) list"

fun widen_range :: "InspectLogResponse list \<Rightarrow> u64 \<Rightarrow> u64 \<Rightarrow> u64 \<times> u64" where
  "widen_range [] from through = (from, through)"
| "widen_range (r # rs) from through =
     widen_range rs (max from (InspectResp_SnapshotIndex r)) (min through (InspectResp_CommitIndex r))"

definition comparableRange :: "InspectLogResponse list \<Rightarrow> u64 \<times> u64" where
  "comparableRange rs = (case widen_range rs 0 (- 1) of (from, through) \<Rightarrow> (from + 1, through))"

definition describe :: "LogEntry \<Rightarrow> string" where
  "describe e = FormatUint (LogEntry_Index e) @ ''/'' @ FormatUint (LogEntry_Term e) @ ''/'' @ LogEntry_Command e"

fun describe_each :: "LogEntry list \<Rightarrow> u64 \<Rightarrow> u64 \<Rightarrow> string list" where
  "describe_each [] from through = []"
| "describe_each (e # es) from through =
     (if LogEntry_Index e < from \<or> LogEntry_Index e > through then describe_each es from through
      else describe e # describe_each es from through)"

definition describeEntries :: "InspectLogResponse \<Rightarrow> u64 \<Rightarrow> u64 \<Rightarrow> string list" where
  "describeEntries report from through = describe_each (InspectResp_Entries report) from through"

definition firstDifference :: "string list \<Rightarrow> string list \<Rightarrow> nat option" where
  "firstDifference left right =
     (case find (\<lambda>i. left ! i \<noteq> right ! i) [0 ..< min (length left) (length right)] of
        Some i \<Rightarrow> Some i
      | None \<Rightarrow> if length left \<noteq> length right then Some (min (length left) (length right)) else None)"

text \<open>
  The loop over the reports: the entries and the address of the first one are the reference, and the
  result is the first address whose entries differ, with the reference address and the index.
\<close>

fun find_difference ::
  "u64 \<Rightarrow> u64 \<Rightarrow> (string list \<times> string) option \<Rightarrow> reports \<Rightarrow> (string \<times> string \<times> u64) option" where
  "find_difference from through ref [] = None"
| "find_difference from through None ((address, report) # rest) =
     find_difference from through (Some (describeEntries report from through, address)) rest"
| "find_difference from through (Some (reference, referenceAddress)) ((address, report) # rest) =
     (case firstDifference reference (describeEntries report from through) of
        Some index \<Rightarrow> Some (referenceAddress, address, from + of_nat index)
      | None \<Rightarrow> find_difference from through (Some (reference, referenceAddress)) rest)"

text \<open>
  What \<open>compare\<close> does with the reports it collected; \<open>iterate\<close> and \<open>iterate'\<close> are the orders of the two
  loops over the map.
\<close>

definition compare_reports :: "(reports \<Rightarrow> reports) \<Rightarrow> (reports \<Rightarrow> reports) \<Rightarrow> reports \<Rightarrow> ctl_error + string" where
  "compare_reports iterate iterate' reports =
     (case comparableRange (map snd (iterate reports)) of
        (from, through) \<Rightarrow>
          (case find_difference from through None (iterate' reports) of
             Some (a, b, i) \<Rightarrow> Inl (CtlError (''logs of '' @ a @ '' and '' @ b @ '' differ at entry '' @ FormatUint i))
           | None \<Rightarrow> Inr (CHR 0x0A # format_nat (length reports) @ '' nodes agree on entries ''
                          @ FormatUint from @ ''..'' @ FormatUint through @ [CHR 0x0A])))"

section \<open>Printing\<close>

definition string_at :: "(string \<rightharpoonup> string) \<Rightarrow> string \<Rightarrow> string" where
  "string_at m k = (case m k of None \<Rightarrow> [] | Some v \<Rightarrow> v)"

definition pad4 :: "string \<Rightarrow> string" where
  "pad4 s = replicate (4 - length s) CHR '' '' @ s"

definition print_entry :: "u64 \<Rightarrow> LogEntry \<Rightarrow> string" where
  "print_entry commit e =
     ''  '' @ (if LogEntry_Index e \<le> commit then ''*'' else '' '') @ '' '' @ pad4 (FormatUint (LogEntry_Index e))
     @ '' term='' @ FormatUint (LogEntry_Term e) @ '' '' @ LogEntry_Command e @ [CHR 0x0A]"

definition printLog :: "string \<Rightarrow> InspectLogResponse \<Rightarrow> string" where
  "printLog address report =
     CHR 0x0A # InspectResp_Id report @ '' ('' @ address @ '') role='' @ InspectResp_Role report
     @ '' term='' @ FormatUint (InspectResp_Term report) @ '' commit='' @ FormatUint (InspectResp_CommitIndex report)
     @ '' applied='' @ FormatUint (InspectResp_LastApplied report)
     @ '' snapshot='' @ FormatUint (InspectResp_SnapshotIndex report) @ [CHR 0x0A]
     @ concat (map (print_entry (InspectResp_CommitIndex report)) (InspectResp_Entries report))
     @ concat (map (\<lambda>key. ''    '' @ key @ '' = '' @ string_at (map_of (InspectResp_State report)) key @ [CHR 0x0A])
                 (sort (map fst (InspectResp_State report))))"

section \<open>Commands\<close>

text \<open>
  What the client needs of the outside: \<open>grpc.NewClient\<close>, the calls of a node by its target, and the
  indented JSON form of a message.
\<close>

record 'w ctl_net =
  ctl_dial :: "string \<Rightarrow> ctl_error option"
  ctl_write :: "string \<Rightarrow> WriteRequest \<Rightarrow> 'w \<Rightarrow> (ctl_error + WriteResponse) \<times> 'w"
  ctl_read :: "string \<Rightarrow> ReadRequest \<Rightarrow> 'w \<Rightarrow> (ctl_error + ReadResponse) \<times> 'w"
  ctl_delete :: "string \<Rightarrow> DeleteRequest \<Rightarrow> 'w \<Rightarrow> (ctl_error + WriteResponse) \<times> 'w"
  ctl_status :: "string \<Rightarrow> 'w \<Rightarrow> (ctl_error + StatusResponse) \<times> 'w"
  ctl_inspect :: "string \<Rightarrow> 'w \<Rightarrow> (ctl_error + InspectLogResponse) \<times> 'w"
  json_write :: "WriteResponse \<Rightarrow> ctl_error + string"
  json_read :: "ReadResponse \<Rightarrow> ctl_error + string"
  json_status :: "StatusResponse \<Rightarrow> ctl_error + string"

text \<open>A command returns its error, if any, what it printed, and the state of the outside.\<close>

type_synonym 'w ran = "(ctl_error + unit) \<times> string \<times> 'w"

definition call :: "'w ctl_net \<Rightarrow> string \<Rightarrow> (string \<Rightarrow> 'w \<Rightarrow> 'w ran) \<Rightarrow> 'w \<Rightarrow> 'w ran" where
  "call net addr fn w =
     (case ctl_dial net (dialTarget addr) of
        Some e \<Rightarrow> (Inl (CtlError (''connect to '' @ addr @ '': '' @ error_text e)), [], w)
      | None \<Rightarrow> fn (dialTarget addr) w)"

definition printMessage :: "('m \<Rightarrow> ctl_error + string) \<Rightarrow> (ctl_error + 'm) \<times> 'w \<Rightarrow> 'w ran" where
  "printMessage json answer =
     (case answer of
        (Inl e, w) \<Rightarrow> (Inl e, [], w)
      | (Inr resp, w) \<Rightarrow>
          (case json resp of
             Inl e \<Rightarrow> (Inl e, [], w)
           | Inr pretty \<Rightarrow> (Inr (), pretty @ [CHR 0x0A], w)))"

text \<open>The loop that collects the reports, printing each of them.\<close>

fun collect_reports :: "'w ctl_net \<Rightarrow> string list \<Rightarrow> reports \<Rightarrow> string \<Rightarrow> 'w \<Rightarrow> (ctl_error + reports) \<times> string \<times> 'w" where
  "collect_reports net [] reports out w = (Inr reports, out, w)"
| "collect_reports net (address # rest) reports out w =
     (case ctl_dial net (dialTarget address) of
        Some e \<Rightarrow>
          (Inl (CtlError (address @ '': '' @ error_text (message (CtlError (''connect to '' @ address @ '': '' @ error_text e))))),
           out, w)
      | None \<Rightarrow>
          (case ctl_inspect net (dialTarget address) w of
             (Inl e, w1) \<Rightarrow> (Inl (CtlError (address @ '': '' @ error_text (message e))), out, w1)
           | (Inr resp, w1) \<Rightarrow>
               collect_reports net rest (AList.update address resp reports) (out @ printLog address resp) w1))"

definition compare ::
  "(reports \<Rightarrow> reports) \<Rightarrow> (reports \<Rightarrow> reports) \<Rightarrow> 'w ctl_net \<Rightarrow> string list \<Rightarrow> 'w \<Rightarrow> 'w ran" where
  "compare iterate iterate' net addresses w =
     (case collect_reports net addresses [] [] w of
        (Inl e, out, w1) \<Rightarrow> (Inl e, out, w1)
      | (Inr reports, out, w1) \<Rightarrow>
          (case compare_reports iterate iterate' reports of
             Inl e \<Rightarrow> (Inl e, out, w1)
           | Inr verdict \<Rightarrow> (Inr (), out @ verdict, w1)))"

definition defaultCluster :: "string list" where
  "defaultCluster = [''localhost:9001'', ''localhost:9002'', ''localhost:9003'', ''localhost:9004'', ''localhost:9005'']"

text \<open>A command is quoted in the message as a printable ASCII word would be.\<close>

definition run ::
  "(reports \<Rightarrow> reports) \<Rightarrow> (reports \<Rightarrow> reports) \<Rightarrow> 'w ctl_net \<Rightarrow> string \<Rightarrow> string \<Rightarrow> string list \<Rightarrow> 'w \<Rightarrow> 'w ran" where
  "run iterate iterate' net addr command args w =
     (if command = ''write'' then
        (if length args \<noteq> 2 then (Inl (CtlError ''usage: raftctl write <key> <value>''), [], w)
         else call net addr (\<lambda>client w. printMessage (json_write net)
                (ctl_write net client \<lparr>WriteReq_Key = args ! 0, WriteReq_Value = args ! 1\<rparr> w)) w)
      else if command = ''read'' then
        (if length args \<noteq> 1 then (Inl (CtlError ''usage: raftctl read <key>''), [], w)
         else call net addr (\<lambda>client w. printMessage (json_read net) (ctl_read net client \<lparr>ReadReq_Key = args ! 0\<rparr> w)) w)
      else if command = ''delete'' then
        (if length args \<noteq> 1 then (Inl (CtlError ''usage: raftctl delete <key>''), [], w)
         else call net addr (\<lambda>client w. printMessage (json_write net) (ctl_delete net client \<lparr>DeleteReq_Key = args ! 0\<rparr> w)) w)
      else if command = ''status'' then
        call net addr (\<lambda>client w. printMessage (json_status net) (ctl_status net client w)) w
      else if command = ''log'' then
        call net addr (\<lambda>client w. case ctl_inspect net client w of
            (Inl e, w1) \<Rightarrow> (Inl e, [], w1)
          | (Inr resp, w1) \<Rightarrow> (Inr (), printLog addr resp, w1)) w
      else if command = ''compare'' then
        compare iterate iterate' net (if args = [] then defaultCluster else args) w
      else (Inl (CtlError (''unknown command '' @ CHR 0x22 # command @ [CHR 0x22])), [], w))"

text \<open>
  The exit code of the process and what it reports on standard error, once the flags are parsed; the
  usage text itself is left out.
\<close>

definition main_exit ::
  "(reports \<Rightarrow> reports) \<Rightarrow> (reports \<Rightarrow> reports) \<Rightarrow> 'w ctl_net \<Rightarrow> string \<Rightarrow> string list \<Rightarrow> 'w \<Rightarrow> int \<times> string \<times> string \<times> 'w" where
  "main_exit iterate iterate' net addr args w =
     (case args of
        [] \<Rightarrow> (2, [], [], w)
      | command # rest \<Rightarrow>
          (case run iterate iterate' net addr command rest w of
             (Inl e, out, w1) \<Rightarrow> (1, out, ''raftctl: '' @ error_text (message e) @ [CHR 0x0A], w1)
           | (Inr _, out, w1) \<Rightarrow> (0, out, [], w1)))"

section \<open>Laws of the comparison\<close>

lemma firstDifference_cases:
  obtains (inside) i where "firstDifference left right = Some i" and "i < min (length left) (length right)"
      and "left ! i \<noteq> right ! i" and "\<forall>j < i. left ! j = right ! j"
  | (tail) "firstDifference left right = Some (min (length left) (length right))" and "length left \<noteq> length right"
      and "\<forall>j < min (length left) (length right). left ! j = right ! j"
  | (same) "firstDifference left right = None" and "left = right"
proof (cases "find (\<lambda>i. left ! i \<noteq> right ! i) [0 ..< min (length left) (length right)]")
  case None
  then have eq: "\<forall>j < min (length left) (length right). left ! j = right ! j" by (auto simp: find_None_iff)
  show ?thesis
  proof (cases "length left = length right")
    case True
    have "left = right" using True eq by (intro nth_equalityI) simp_all
    moreover have "firstDifference left right = None" unfolding firstDifference_def None using True by simp
    ultimately show ?thesis by (rule same [rotated])
  next
    case False
    have "firstDifference left right = Some (min (length left) (length right))"
      unfolding firstDifference_def None using False by simp
    then show ?thesis using False eq by (rule tail)
  qed
next
  case (Some i)
  then have "i < min (length left) (length right)" "left ! i \<noteq> right ! i" "\<forall>j < i. left ! j = right ! j"
    by (auto simp: find_Some_iff)
  moreover have "firstDifference left right = Some i" unfolding firstDifference_def Some by simp
  ultimately show ?thesis by (intro inside [of i])
qed

lemma firstDifference_None: "firstDifference left right = None \<longleftrightarrow> left = right"
  by (rule firstDifference_cases [of left right]) auto

lemma firstDifference_Some:
  assumes "firstDifference left right = Some i"
  shows "take i left = take i right \<and> take (Suc i) left \<noteq> take (Suc i) right"
proof (cases rule: firstDifference_cases [of left right])
  case (inside k)
  then have k: "k = i" using assms by simp
  have "take i left = take i right" using inside k by (intro nth_equalityI) auto
  moreover have "i < length left" "i < length right" using inside(2) k by simp_all
  ultimately show ?thesis using inside(3) k by (simp add: take_Suc_conv_app_nth)
next
  case tail
  then have i: "i = min (length left) (length right)" using assms by simp
  have "take i left = take i right" using tail(3) by (intro nth_equalityI) (auto simp: i)
  moreover have "length (take (Suc i) left) \<noteq> length (take (Suc i) right)" using tail(2) by (auto simp: i min_def)
  ultimately show ?thesis by metis
qed (use assms in simp)

lemma format_nat_digits: "CHR ''/'' \<notin> set (format_nat n)"
proof (induction n rule: format_nat.induct)
  case (1 n)
  have d: "digit_char k \<noteq> CHR ''/''" if "k < 10" for k
    using that digit_val_char [of k] by (auto simp: digit_val_def)
  show ?case using 1 by (subst format_nat.simps) (auto simp: d dest: d [THEN not_sym, THEN notE, rotated])
qed

lemma describe_inject: "describe e = describe e' \<longleftrightarrow> e = e'"
proof
  assume eq: "describe e = describe e'"
  have no: "CHR ''/'' \<notin> set (FormatUint w)" for w by (simp add: FormatUint_def format_nat_digits)
  have cut: "Cut (CHR ''/'') (FormatUint w @ CHR ''/'' # s) = Some (FormatUint w, s)" for w s
    by (simp add: Cut_Some no)
  have 1: "LogEntry_Index e = LogEntry_Index e'"
    and "FormatUint (LogEntry_Term e) @ CHR ''/'' # LogEntry_Command e
       = FormatUint (LogEntry_Term e') @ CHR ''/'' # LogEntry_Command e'"
    using arg_cong [OF eq, of "Cut (CHR ''/'')"] by (simp_all add: describe_def cut)
  from this(2) have "LogEntry_Term e = LogEntry_Term e'" "LogEntry_Command e = LogEntry_Command e'"
    using cut by (metis option.inject prod.inject FormatUint_inject)+
  with 1 show "e = e'" by simp
qed simp

lemma describe_each_filter:
  "describe_each es from through = map describe (filter (\<lambda>e. from \<le> LogEntry_Index e \<and> LogEntry_Index e \<le> through) es)"
  by (induction es) (auto simp: not_less)

lemma find_difference_ref:
  "find_difference from through (Some (reference, a)) rs = None
     \<longleftrightarrow> (\<forall>x \<in> set rs. describeEntries (snd x) from through = reference)"
proof (induction rs)
  case (Cons x rs)
  obtain b r where x: "x = (b, r)" by (cases x)
  show ?case
    using Cons firstDifference_None [of reference "describeEntries r from through"]
    by (auto simp: x split: option.split)
qed simp

lemma find_difference_None:
  "find_difference from through None rs = None
     \<longleftrightarrow> (\<forall>x \<in> set rs. \<forall>y \<in> set rs. describeEntries (snd x) from through = describeEntries (snd y) from through)"
proof (cases rs)
  case (Cons x rest)
  obtain b r where x: "x = (b, r)" by (cases x)
  have "find_difference from through None rs = None
    \<longleftrightarrow> (\<forall>y \<in> set rest. describeEntries (snd y) from through = describeEntries r from through)"
    by (simp add: Cons x find_difference_ref)
  also have "\<dots> \<longleftrightarrow> (\<forall>x \<in> set rs. \<forall>y \<in> set rs. describeEntries (snd x) from through = describeEntries (snd y) from through)"
    by (simp add: Cons x) metis
  finally show ?thesis .
qed simp

lemma widen_range_bounds:
  "widen_range rs a b =
     (Max (insert a (InspectResp_SnapshotIndex ` set rs)), Min (insert b (InspectResp_CommitIndex ` set rs)))"
proof (induction rs arbitrary: a b)
  case (Cons r rs)
  have "insert a (insert x S) = insert x (insert a S)" for x a and S :: "u64 set" by auto
  then show ?case using Cons by (cases "rs = []") (simp_all add: max.assoc min.assoc)
qed simp

end
