(* ===== verification/Raftctl_Props.thy ===== *)
theory Raftctl_Props imports Raftctl Client
begin

text \<open>
  What the verdict of \<open>raftctl compare\<close> means for the logs of the nodes it asked.
\<close>

section \<open>The window\<close>

text \<open>The entries that every report can be asked about: above all snapshots, and committed everywhere.\<close>

definition in_window :: "InspectLogResponse list \<Rightarrow> u64 \<Rightarrow> bool" where
  "in_window rs i \<longleftrightarrow>
     list_all (\<lambda>r. InspectResp_SnapshotIndex r < i) rs \<and> list_all (\<lambda>r. i \<le> InspectResp_CommitIndex r) rs"

definition window :: "InspectLogResponse list \<Rightarrow> InspectLogResponse \<Rightarrow> LogEntry list" where
  "window rs r = filter (\<lambda>e. in_window rs (LogEntry_Index e)) (InspectResp_Entries r)"

lemma comparableRange_window:
  assumes "comparableRange qs = (from, through)" and "set qs = set rs" and "rs \<noteq> []"
    and "\<forall>r \<in> set rs. InspectResp_SnapshotIndex r \<noteq> - 1"
  shows "from \<le> i \<and> i \<le> through \<longleftrightarrow> in_window rs i"
proof -
  let ?S = "InspectResp_SnapshotIndex ` set rs" and ?C = "InspectResp_CommitIndex ` set rs"
  have eq: "from = Max (insert 0 ?S) + 1" "through = Min (insert (- 1) ?C)"
    using assms(1) unfolding comparableRange_def widen_range_bounds assms(2) by auto
  have "Max (insert 0 ?S) \<noteq> - 1" using Max_in [of "insert 0 ?S"] assms(4) by fastforce
  then have "from \<le> i \<longleftrightarrow> Max (insert 0 ?S) < i" unfolding eq(1) by (rule u64_inc_le_iff)
  also have "\<dots> \<longleftrightarrow> 0 < i \<and> (\<forall>x \<in> ?S. x < i)" by simp
  also have "\<dots> \<longleftrightarrow> (\<forall>x \<in> ?S. x < i)"
    using assms(3) by (auto intro: order.strict_trans1 [OF word_zero_le] simp: neq_Nil_conv)
  finally have "from \<le> i \<longleftrightarrow> (\<forall>x \<in> ?S. x < i)" .
  moreover have "i \<le> through \<longleftrightarrow> (\<forall>x \<in> ?C. i \<le> x)" unfolding eq(2) by simp
  ultimately show ?thesis by (simp add: in_window_def list_all_iff)
qed

lemma compare_reports_windows:
  assumes "mset (iterate reports) = mset reports" and "mset (iterate' reports) = mset reports"
    and "reports \<noteq> []" and "\<forall>r \<in> snd ` set reports. InspectResp_SnapshotIndex r \<noteq> - 1"
  shows "\<not> isl (compare_reports iterate iterate' reports) \<longleftrightarrow>
    (\<forall>x \<in> set reports. \<forall>y \<in> set reports. window (map snd reports) (snd x) = window (map snd reports) (snd y))"
proof -
  obtain f t where ft: "comparableRange (map snd (iterate reports)) = (f, t)" by fastforce
  have sets: "set (iterate reports) = set reports" "set (iterate' reports) = set reports"
    using assms(1,2) mset_eq_setD by blast+
  have w: "f \<le> i \<and> i \<le> t \<longleftrightarrow> in_window (map snd reports) i" for i
    by (rule comparableRange_window [OF ft]) (use sets assms(3,4) in auto)
  have d: "describeEntries r f t = map describe (window (map snd reports) r)" for r
    by (simp add: describeEntries_def describe_each_filter window_def w)
  have inj: "map describe xs = map describe ys \<longleftrightarrow> xs = ys" for xs ys
    by (rule inj_map_eq_map) (simp add: inj_def describe_inject)
  have "\<not> isl (compare_reports iterate iterate' reports) \<longleftrightarrow> find_difference f t None (iterate' reports) = None"
    by (auto simp: compare_reports_def ft split: option.split)
  then show ?thesis unfolding find_difference_None sets d inj .
qed

section \<open>Reports of nodes\<close>

lemma follows_sorted: "follows i es \<Longrightarrow> i \<le> max_int64 \<Longrightarrow> sorted_wrt (<) (map Entry_Index es)"
proof (induction es arbitrary: i)
  case (Cons e es)
  have f: "follows (i + 1) es" and e: "Entry_Index e = i + 1" and m: "i + 1 \<le> max_int64"
    using Cons.prems by (auto intro: inc_le)
  show ?case using Cons.IH [OF f m] follows_index [OF f m] e by auto
qed simp

lemma reported_entries:
  assumes "log_ok d"
  defines "es \<equiv> entries_from (snap_index d + 1) 0 d"
  shows "sorted_wrt (<) (map Entry_Index es)" and "e \<in> set es \<longleftrightarrow> entry_at d (Entry_Index e) = Some e"
proof -
  let ?s = "snap_index d"
  have sm: "?s \<le> max_int64" by (rule log_ok_snap [OF assms(1)])
  have "sorted_wrt (<) (map Entry_Index es) \<and> (e \<in> set es \<longleftrightarrow> entry_at d (Entry_Index e) = Some e)"
  proof (cases "?s = last_index d")
    case True
    have "log_entries d = []" using assms(1) True by (simp add: log_ok_def)
    then have "es = []" by (simp add: es_def entries_from_def Let_def select_ordered_def sql_limit_def)
    moreover have "entry_at d i = None" for i using entry_at_iff [OF assms(1), of i] True by auto
    ultimately show ?thesis by simp
  next
    case False
    then have lt: "?s < last_index d" using log_okD(2) [OF assms(1)] by simp
    have le: "?s + 1 \<le> max_int64" using inc_le [OF lt] log_okD(3) [OF assms(1)] by (rule order_trans)
    have s1: "?s < ?s + 1" using u64_less_not_max [OF lt] by simp
    have "(\<lambda>(k, _ :: int \<times> bytes). int64 (?s + 1) \<le> k) = (\<lambda>(k, _). int64 ?s < k)"
      using lt log_okD(3) [OF assms(1)] by (auto simp: fun_eq_iff u64_inc_int64 add1_zle_eq)
    then have es: "es = map entry_of_row (rows_after ?s d)"
      using entries_from_log [OF assms(1) s1 le] by (simp add: es_def rows_after_def)
    have f: "follows ?s es"
      unfolding es by (rule rows_follow(1) [OF rows_after_keys [OF assms(1) order_refl sm] _ log_okD(3) [OF assms(1)]])
        (use lt in simp)
    have "e \<in> set es" if at: "entry_at d (Entry_Index e) = Some e"
    proof -
      obtain v where l: "lookup (log_entries d) (int64 (Entry_Index e)) = Some v"
        using at by (cases "lookup (log_entries d) (int64 (Entry_Index e))") (simp_all add: entry_at_def)
      then have row: "(int64 (Entry_Index e), v) \<in> set (log_entries d)"
        using lookup_in_rows [OF db_okD(2) [OF log_okD(1) [OF assms(1)]]] by blast
      have e: "entry_of_row (int64 (Entry_Index e), v) = e" using at l by (cases v) (simp add: entry_at_def)
      have i: "?s < Entry_Index e" "Entry_Index e \<le> last_index d" using entry_at_iff [OF assms(1), of "Entry_Index e"] at by auto
      have "Entry_Index e \<le> max_int64" using i(2) log_okD(3) [OF assms(1)] by (rule order_trans)
      then have "int64 ?s < int64 (Entry_Index e)" using i(1) sm by (simp add: int64_less_iff)
      then have "(int64 (Entry_Index e), v) \<in> set (rows_after ?s d)" using row by (simp add: rows_after_def)
      then have "entry_of_row (int64 (Entry_Index e), v) \<in> set es" unfolding es set_map by (rule imageI)
      then show ?thesis unfolding e .
    qed
    moreover have "entry_at d (Entry_Index e) = Some e" if mem: "e \<in> set es"
    proof -
      obtain r where "r \<in> set (rows_after ?s d)" "e = entry_of_row r" using mem es by auto
      then show ?thesis using rows_after_entry [OF assms(1)] by blast
    qed
    ultimately show ?thesis using follows_sorted [OF f sm] by blast
  qed
  then show "sorted_wrt (<) (map Entry_Index es)" and "e \<in> set es \<longleftrightarrow> entry_at d (Entry_Index e) = Some e" by simp_all
qed

lemma windows_equal_iff:
  assumes "log_ok d" and "log_ok d'"
  shows "filter (\<lambda>e. P (Entry_Index e)) (entries_from (snap_index d + 1) 0 d)
      = filter (\<lambda>e. P (Entry_Index e)) (entries_from (snap_index d' + 1) 0 d')
    \<longleftrightarrow> (\<forall>i. P i \<longrightarrow> entry_at d i = entry_at d' i)"
proof -
  define F where "F = (\<lambda>d. filter (\<lambda>e. P (Entry_Index e)) (entries_from (snap_index d + 1) 0 d))"
  have mem: "e \<in> set (F x) \<longleftrightarrow> P (Entry_Index e) \<and> entry_at x (Entry_Index e) = Some e" if "log_ok x" for x e
    using reported_entries(2) [OF that, of e] by (auto simp: F_def)
  have srt: "sorted_wrt (<) (map Entry_Index (F x))" if "log_ok x" for x
    using sorted_wrt_filter [OF reported_entries(1) [OF that], of P] by (simp add: F_def filter_map comp_def)
  have "F d = F d' \<longleftrightarrow> (\<forall>i. P i \<longrightarrow> entry_at d i = entry_at d' i)"
  proof
    assume eq: "F d = F d'"
    have "entry_at x i = Some e \<Longrightarrow> entry_at y i = Some e" if "P i" "log_ok x" "log_ok y" "F x = F y" for x y i e
      using mem [OF that(2), of e] mem [OF that(3), of e] that(1,4) entry_at_index [of x i e] by auto
    then have "P i \<Longrightarrow> entry_at d i = Some e \<longleftrightarrow> entry_at d' i = Some e" for i e using assms(1,2) eq by metis
    then show "\<forall>i. P i \<longrightarrow> entry_at d i = entry_at d' i" by (metis option.exhaust)
  next
    assume "\<forall>i. P i \<longrightarrow> entry_at d i = entry_at d' i"
    then have sets: "set (F d) = set (F d')" using mem [OF assms(1)] mem [OF assms(2)] by auto
    then have "map Entry_Index (F d) = map Entry_Index (F d')"
      by (intro strict_sorted_equal [OF srt [OF assms(2)] srt [OF assms(1)]]) simp
    moreover have "inj_on Entry_Index (set (F d) \<union> set (F d'))"
      using mem [OF assms(1)] mem [OF assms(2)] unfolding sets by (intro inj_onI) (metis Un_iff option.inject)
    ultimately show "F d = F d'" by (rule map_inj_on)
  qed
  then show ?thesis by (simp add: F_def)
qed

definition committed_everywhere :: "Node list \<Rightarrow> u64 \<Rightarrow> bool" where
  "committed_everywhere ns i \<longleftrightarrow> list_all (\<lambda>n. snap_index (ndb n) < i \<and> i \<le> commitIndex n) ns"

text \<open>
  C39: \<open>raftctl compare\<close> finds the logs it asked for in agreement exactly when any two of the nodes hold the
  same entry at every index that all of them have committed and none has compacted away, whatever
  the order in which the reports are visited.
\<close>

theorem compare_verdict:
  assumes "asked \<noteq> []" and "\<forall>(a, n, r) \<in> set asked. log_ok (ndb n) \<and> fst (InspectLog n) = Inr r"
    and "reports = map (\<lambda>(a, n, r). (a, r)) asked"
    and "mset (iterate reports) = mset reports" and "mset (iterate' reports) = mset reports"
  shows "\<not> isl (compare_reports iterate iterate' reports) \<longleftrightarrow>
    (\<forall>(a, n, r) \<in> set asked. \<forall>(b, m, q) \<in> set asked. \<forall>i. committed_everywhere (map (fst \<circ> snd) asked) i
       \<longrightarrow> entry_at (ndb n) i = entry_at (ndb m) i)"
proof -
  let ?rs = "map snd reports" and ?all = "committed_everywhere (map (fst \<circ> snd) asked)"
  have rep: "InspectResp_SnapshotIndex r = snap_index (ndb n) \<and> InspectResp_CommitIndex r = commitIndex n
      \<and> InspectResp_Entries r = map toLogEntry (entries_from (snap_index (ndb n) + 1) 0 (ndb n)) \<and> log_ok (ndb n)"
    if "(a, n, r) \<in> set asked" for a n r
  proof -
    have ok: "log_ok (ndb n)" and run: "InspectLog n = (Inr r, snd (InspectLog n))"
      using assms(2) that by (auto simp: prod_eq_iff)
    from InspectLog_frame(2) [OF log_ok_meta [OF ok] run refl] ok show ?thesis by blast
  qed
  have win: "in_window ?rs = ?all"
  proof
    fix i
    have "InspectResp_SnapshotIndex (snd (snd x)) = snap_index (ndb (fst (snd x)))"
      "InspectResp_CommitIndex (snd (snd x)) = commitIndex (fst (snd x))" if "x \<in> set asked" for x
      using rep [of "fst x" "fst (snd x)" "snd (snd x)"] that by simp_all
    then show "in_window ?rs i = ?all i"
      by (auto simp: in_window_def committed_everywhere_def assms(3) list_all_iff case_prod_unfold)
  qed
  have inj: "map toLogEntry xs = map toLogEntry ys \<longleftrightarrow> xs = ys" for xs ys
    by (rule inj_map_eq_map) (simp add: inj_def toLogEntry_def)
  have w: "window ?rs r = map toLogEntry (filter (\<lambda>e. ?all (Entry_Index e)) (entries_from (snap_index (ndb n) + 1) 0 (ndb n)))"
    if "(a, n, r) \<in> set asked" for a n r
    unfolding window_def win conjunct1 [OF conjunct2 [OF conjunct2 [OF rep [OF that]]]]
    by (simp add: filter_map comp_def toLogEntry_def)
  have pair: "window ?rs r = window ?rs q \<longleftrightarrow> (\<forall>i. ?all i \<longrightarrow> entry_at (ndb n) i = entry_at (ndb m) i)"
    if "(a, n, r) \<in> set asked" "(b, m, q) \<in> set asked" for a n r b m q
    unfolding w [OF that(1)] w [OF that(2)] inj
    by (rule windows_equal_iff) (use rep [OF that(1)] rep [OF that(2)] in simp_all)
  have snap: "\<forall>r \<in> snd ` set reports. InspectResp_SnapshotIndex r \<noteq> - 1"
  proof
    fix r assume "r \<in> snd ` set reports"
    then obtain a n where "(a, n, r) \<in> set asked" using assms(3) by auto
    note R = rep [OF this]
    show "InspectResp_SnapshotIndex r \<noteq> - 1"
      using max_int64_not_max [OF log_ok_snap, of "ndb n"] R by simp
  qed
  have "reports \<noteq> []" using assms(1,3) by simp
  note V = compare_reports_windows [where iterate = iterate and iterate' = iterate', OF assms(4,5) this snap]
  have "(\<forall>x \<in> set reports. \<forall>y \<in> set reports. window ?rs (snd x) = window ?rs (snd y))
    \<longleftrightarrow> (\<forall>(a, n, r) \<in> set asked. \<forall>(b, m, q) \<in> set asked. window ?rs r = window ?rs q)"
    by (simp add: assms(3) case_prod_unfold)
  also have "\<dots> \<longleftrightarrow> (\<forall>(a, n, r) \<in> set asked. \<forall>(b, m, q) \<in> set asked. \<forall>i. ?all i \<longrightarrow> entry_at (ndb n) i = entry_at (ndb m) i)"
  proof -
    have "window ?rs (snd (snd x)) = window ?rs (snd (snd y)) \<longleftrightarrow>
        (\<forall>i. ?all i \<longrightarrow> entry_at (ndb (fst (snd x))) i = entry_at (ndb (fst (snd y))) i)"
      if "x \<in> set asked" "y \<in> set asked" for x y
      using pair [of "fst x" "fst (snd x)" "snd (snd x)" "fst y" "fst (snd y)" "snd (snd y)"] that by simp
    then show ?thesis unfolding case_prod_unfold by (intro ball_cong refl)
  qed
  finally show ?thesis unfolding V .
qed

definition report_of :: "Node \<Rightarrow> InspectLogResponse" where
  "report_of n = projr (fst (InspectLog n))"

lemma InspectLog_clean:
  assumes "log_ok (ndb n)" and "clean n"
  shows "fst (InspectLog n) = Inr (report_of n)"
    and "InspectResp_SnapshotIndex (report_of n) = snap_index (ndb n)" and "InspectResp_CommitIndex (report_of n) = commitIndex n"
proof -
  obtain r n' where run: "InspectLog n = (r, n')" by fastforce
  note I = InspectLog_frame [OF log_ok_meta [OF assms(1)] run]
  obtain x where "r = Inr x" using I(3) [OF assms(2)] by (cases r) auto
  then show "fst (InspectLog n) = Inr (report_of n)"
    and "InspectResp_SnapshotIndex (report_of n) = snap_index (ndb n)" and "InspectResp_CommitIndex (report_of n) = commitIndex n"
    using I(2) [of x] run by (simp_all add: report_of_def)
qed

definition member :: "string \<Rightarrow> u64 \<Rightarrow> u64 list \<Rightarrow> Node" where
  "member i c ts = (example_node i [] 1 (example_log ts))\<lparr>commitIndex := c\<rparr>"

theorem compare_verdict_witness:
  "isl (compare_reports id rev [(''a'', report_of (member ''a'' 2 [1, 1])), (''b'', report_of (member ''b'' 2 [1, 2]))])
   \<and> \<not> isl (compare_reports id rev [(''a'', report_of (member ''a'' 2 [1, 1])), (''b'', report_of (member ''b'' 1 [1, 2]))])"
proof -
  have ok: "log_ok (ndb (member i c [1, t]))" "clean (member i c [1, t])" "commitIndex (member i c [1, t]) = c"
    "ndb (member i c [1, t]) = example_log [1, t]" for i c t by (simp_all add: member_def)
  let ?ask = "\<lambda>c. [(''a'', member ''a'' 2 [1, 1], report_of (member ''a'' 2 [1, 1])),
    (''b'', member ''b'' c [1, 2], report_of (member ''b'' c [1, 2]))]"
  have v: "\<not> isl (compare_reports id rev (map (\<lambda>(a, n, r). (a, r)) (?ask c))) \<longleftrightarrow>
      (\<forall>i. 0 < i \<and> i \<le> 2 \<and> i \<le> c \<longrightarrow> entry_at (example_log [1, 1]) i = entry_at (example_log [1, 2]) i)" for c
  proof -
    have h: "\<forall>(a, n, r) \<in> set (?ask c). log_ok (ndb n) \<and> fst (InspectLog n) = Inr r"
      using ok(1,2) InspectLog_clean(1) [OF ok(1,2)] by simp
    have all: "committed_everywhere (map (fst \<circ> snd) (?ask c)) i \<longleftrightarrow> 0 < i \<and> i \<le> 2 \<and> i \<le> c" for i
      using ok(3,4) by (auto simp: committed_everywhere_def)
    have "?ask c \<noteq> []" by simp
    note V = compare_verdict [OF this h refl, of id rev]
    show ?thesis
    proof (subst V)
      show "(\<forall>(a, n, r) \<in> set (?ask c). \<forall>(b, m, q) \<in> set (?ask c). \<forall>i. committed_everywhere (map (fst \<circ> snd) (?ask c)) i
             \<longrightarrow> entry_at (ndb n) i = entry_at (ndb m) i) \<longleftrightarrow>
          (\<forall>i. 0 < i \<and> i \<le> 2 \<and> i \<le> c \<longrightarrow> entry_at (example_log [1, 1]) i = entry_at (example_log [1, 2]) i)"
        unfolding all by (auto simp: ok(4))
    qed simp_all
  qed
  have one: "i = 1" if "0 < i" "i \<le> 1" for i :: u64
    using that by (metis antisym word_gt_0_no inc_le add_0)
  have "entry_at (example_log [1, 1]) 2 \<noteq> entry_at (example_log [1, 2]) 2" by (simp add: example_entry_def)
  then have "isl (compare_reports id rev (map (\<lambda>(a, n, r). (a, r)) (?ask 2)))" using v [of 2] by force
  moreover have "entry_at (example_log [1, 1]) i = entry_at (example_log [1, 2]) i" if "0 < i" "i \<le> 1" for i
    using one [OF that] by simp
  then have "\<not> isl (compare_reports id rev (map (\<lambda>(a, n, r). (a, r)) (?ask 1)))" unfolding v by blast
  ultimately show ?thesis by simp
qed

definition demo_report :: "u64 \<Rightarrow> u64 \<Rightarrow> string \<Rightarrow> InspectLogResponse" where
  "demo_report from_index upto_index payload =
     \<lparr>InspectResp_Id = ''n'', InspectResp_Role = ''follower'', InspectResp_Term = 1, InspectResp_CommitIndex = upto_index,
      InspectResp_LastApplied = upto_index, InspectResp_SnapshotIndex = from_index,
      InspectResp_Entries = [\<lparr>LogEntry_Index = from_index + 1, LogEntry_Term = 1, LogEntry_Command = payload\<rparr>],
      InspectResp_State = [(''k'', payload)]\<rparr>"

text \<open>
  C40: once one node has compacted its log up to or beyond what another has committed, \<open>compare\<close> reports
  agreement without having compared a single entry.
\<close>

theorem compare_without_common_entries:
  assumes "(a, r) \<in> set reports" and "(b, q) \<in> set reports"
    and "InspectResp_CommitIndex q \<le> InspectResp_SnapshotIndex r"
    and "\<forall>x \<in> set reports. InspectResp_SnapshotIndex (snd x) \<noteq> - 1"
    and "mset (iterate reports) = mset reports" and "mset (iterate' reports) = mset reports"
  shows "\<exists>verdict. compare_reports iterate iterate' reports = Inr verdict"
proof -
  have "\<not> in_window (map snd reports) i" for i
    using assms(1-3) by (force simp: in_window_def list_all_iff)
  then have "window (map snd reports) x = []" for x by (simp add: window_def)
  moreover have "reports \<noteq> []" "\<forall>r \<in> snd ` set reports. InspectResp_SnapshotIndex r \<noteq> - 1" using assms(1,4) by auto
  ultimately have "\<not> isl (compare_reports iterate iterate' reports)"
    using compare_reports_windows [where iterate = iterate and iterate' = iterate', OF assms(5,6)] by simp
  then show ?thesis by (cases "compare_reports iterate iterate' reports") auto
qed

theorem compare_without_common_entries_witness:
  "InspectResp_State (demo_report 5 6 ''x'') \<noteq> InspectResp_State (demo_report 2 3 ''y'')
   \<and> (\<exists>verdict. compare_reports id rev [(''a'', demo_report 5 6 ''x''), (''b'', demo_report 2 3 ''y'')] = Inr verdict)"
  using compare_without_common_entries [of "''a''" "demo_report 5 6 ''x''" "[(''a'', demo_report 5 6 ''x''), (''b'', demo_report 2 3 ''y'')]"
      "''b''" "demo_report 2 3 ''y''" id rev]
  by (simp add: demo_report_def)

end
