(* ===== verification/Spec2Isabelle.thy ===== *)
theory Spec2Isabelle imports Store_Props Commit_Props Follower_Props Election_Props Client_Props Lifecycle_Props Raftctl_Props
begin

text \<open>
  Verification of a replicated key/value store on Raft, written in Go.

  \<^bold>\<open>The program.\<close>  A node (\<open>src/internal/raft\<close>) keeps its term, vote, log, snapshot and key/value state in SQLite
  (\<open>src/internal/storage\<close>).  It elects a leader with its peers (\<open>election.go\<close>), the leader sends its log to them
  (\<open>replication.go\<close>), they store it (\<open>follower.go\<close>), and committed commands (\<open>command.go\<close>) are applied to the state
  machine.  Clients write, delete and read through any node (\<open>client.go\<close>).  \<open>src/cmd/raftnode\<close> runs a node that is
  configured by its environment (\<open>src/internal/config\<close>), and \<open>src/cmd/raftctl\<close> is the command line client.

  \<^bold>\<open>The model.\<close>  One critical section under the mutex of a node is one function on the record \<open>Node\<close>.  Machine integers
  are words (\<open>u64\<close>), SQL integers their signed reading, durations integers that wrap at 64 bits, strings and byte slices
  lists of characters.  Errors are values of \<open>error\<close> (of \<open>status\<close> where gRPC returns one); the printed arguments of a format are left out.
  Everything outside the program is a parameter: the results of the disk driver (the list \<open>faults\<close> of a store), the
  clock and the random source (lists in a node), the transport (a function on a world of its own), the order in which
  Go walks a map, and the events of a \<open>select\<close>.

  \<^item> \<open>Prelude\<close>, \<open>Table\<close>, \<open>Go_Strconv\<close>, \<open>Go_Json\<close>: words and casts, tables with a primary key (locale \<open>keyed_table\<close>), and the
    parts of \<open>strconv\<close>, \<open>strings\<close>, \<open>encoding/json\<close> and \<open>unicode/utf8\<close> that the program calls.
  \<^item> \<open>Storage\<close> (\<open>storage.go\<close>): every operation of the store, statement by statement.  \<open>Store_Laws\<close> gives each operation its
    effect or view on the tables under any faults, \<open>Raft_Log\<close> the log that the rows stand for, \<open>Store_Props\<close> the properties:
    writes, snapshots and opening included, are atomic and keep the tables well formed; votes, entries and snapshots are read back, restarts included.
  \<^item> \<open>Metrics\<close> (\<open>metrics.go\<close>), \<open>Messages\<close> (\<open>raft.pb.go\<close>), \<open>Command\<close> (\<open>command.go\<close>, with the locale \<open>state_machine\<close> and its
    interpretation on the store).
  \<^item> \<open>Node\<close> (\<open>node.go\<close>, \<open>options.go\<close>): the node, its creation, stepping down, deadlines.  \<open>frame\<close> relates nodes that differ
    only in what no decision depends on.
  \<^item> \<open>Commit\<close>, \<open>Commit_Props\<close> (second half of \<open>replication.go\<close>): the commit rule, the apply loop and compaction; the leader
    commits the greatest index of its term that a majority stores, and commands are applied once and in order, before and after a restart.
  \<^item> \<open>Follower\<close>, \<open>Follower_Props\<close> (\<open>follower.go\<close>): storing the entries of a leader is a reference merge, which loses nothing
    that is committed as long as the leader agrees on it (nothing in the code checks that), and what an acknowledgement and an installed snapshot mean.
  \<^item> \<open>Election\<close>, \<open>Votes\<close>, \<open>Election_Props\<close> (\<open>election.go\<close>): votes are on disk before they are announced; a round wins
    exactly with a majority.
  \<^item> \<open>Replication\<close>, \<open>Replication_Props\<close> (first half of \<open>replication.go\<close>): requests describe the log of the leader for positions
    behind its snapshot, an accepted round makes the logs agree up to the recorded match index and keeps the log matching property, and a
    follower whose log is a prefix of the leader's catches up, 128 entries per turn.
  \<^item> \<open>Client\<close>, \<open>Client_Props\<close> (\<open>client.go\<close>): writes and the reads that follow them, forwarding, the wait for a commit.
  \<^item> \<open>Steady\<close>, \<open>Voting\<close>, \<open>Cluster\<close>, \<open>Cluster_Props\<close>: all sections of all members in any interleaving, with a network that loses, repeats
    and delays, with restarts and disk faults.  \<open>Voting\<close> is the abstract machine (locale \<open>quorums\<close>, interpreted on
    majorities); \<open>Cluster\<close> refines it, so that a term has at most one leader.
  \<^item> \<open>Config\<close>, \<open>Config_Props\<close> (\<open>config.go\<close>, \<open>OptionsFromConfig\<close>): what an accepted configuration guarantees; nodes that share a peer
    list form a cluster of the kind above.
  \<^item> \<open>Lifecycle\<close>, \<open>Lifecycle_Props\<close> (\<open>Start\<close>, \<open>Stop\<close> and the loops of \<open>node.go\<close>, \<open>cmd/raftnode/main.go\<close>): what a started node holds, that its loops
    end with the cancellation, and that stopping then releases everything and reports every error.
  \<^item> \<open>Raftctl\<close>, \<open>Raftctl_Props\<close> (\<open>cmd/raftctl/main.go\<close>): what the verdict of \<open>compare\<close> means.

  Several properties prove where the code falls short of its intention: a follower's log that is longer than the
  leader's and conflicts with its end, or conflicts in its last two entries, is never repaired, a delayed snapshot rolls the state back, unchecked entries get committed, acknowledged terms may not be on disk, a lost
  write is acknowledged, a fresh leader reads old values, a wrapped heartbeat ends the process, and \<open>compare\<close> may agree on
  nothing.  For these reasons there is no theorem that applied entries agree across the cluster: the code does not have it.

  \<^bold>\<open>Bounds.\<close>  Loops are structural or have a termination proof: the apply loop by the distance to the commit index, the
  rounds of \<open>replicatePeer\<close> by \<open>maxAppendRounds\<close>, and the loops that wait take the list of the events they receive.
  \<open>db_ok\<close> (rows in key order, readable metadata) holds for every index; \<open>log_ok\<close> adds consecutive indices below \<open>2 ^ 63\<close>, the range
  in which the casts to SQL integers keep their order, and is a hypothesis of the properties that need it.
  The step relation of the cluster leaves out a candidacy at the largest 64 bit term, whose successor would wrap to 0.

  \<^bold>\<open>Not modelled.\<close>  Log messages and the text of \<open>raftctl\<close>'s usage; the Prometheus registry and the routes of the HTTP
  server; generated accessors, descriptors and registration in \<open>raft.pb.go\<close> and all of \<open>raft_grpc.pb.go\<close>; signal handling.
  They are calls into libraries or have no effect on the state.  Interleavings finer than the critical sections of a node do not exist
  in the model, since the mutex of the node excludes them; where a reply is handled in two sections that follow each other (\<open>observeHigherTerm\<close>, then
  the indices of the peer) the model joins them into one, which changes nothing since terms only grow.  A nil byte slice is an empty one, so the \<open>NOT NULL\<close>
  constraint that would refuse it is left out, and the result of \<open>Rollback\<close> is ignored as the code ignores it.  Deployment files, dashboards and scripts hold no program logic.
\<close>

end
